(* ===== verification/Prelude.thy ===== *)
theory Prelude
  imports Main "HOL-Library.Word" "HOL-Library.Multiset"
begin

text \<open>
  What every other theory of the development shares: the names of the model's base types,
  the result of a Rust computation that may panic, and the SQL-style list operations
  (select, update and delete by predicate, look up by key) with the lemmas the table proofs
  rest on.
\<close>

section \<open>Collections of facts\<close>

named_theorems sql_defs \<open>the meaning of the SQL statements of the program\<close>
named_theorems dbm_simps \<open>evaluation of the database calls under a known fault schedule\<close>
named_theorems op_defs \<open>unfolding of the engine operations\<close>

section \<open>Base types\<close>

text \<open>
  A \<open>Uuid\<close> is 128 bits. A time is a number of microseconds since the Unix epoch (the
  resolution of a \<open>timestamptz\<close> column). A Rust \<open>String\<close> is its list of UTF-8 bytes.
  Leg indexes and TTL seconds are only stored, compared and multiplied into a checked
  addition, so they are integers; where width matters (\<open>X-Timestamp\<close>, HTTP status codes)
  the theories use words.
\<close>

type_synonym uuid = "128 word"
type_synonym time = int
type_synonym seat_key = "uuid \<times> string \<times> int"

text \<open>The result of a Rust call: a returned \<open>Ok\<close> or \<open>Err\<close>, or a panic.\<close>

datatype ('e, 'a) outcome = Ok 'a | Err 'e | Panicked

section \<open>Rows selected, updated and deleted by predicate\<close>

definition update_where :: "('r \<Rightarrow> bool) \<Rightarrow> ('r \<Rightarrow> 'r) \<Rightarrow> 'r list \<Rightarrow> 'r list" where
  "update_where p f rs = map (\<lambda>r. if p r then f r else r) rs"

definition delete_where :: "('r \<Rightarrow> bool) \<Rightarrow> 'r list \<Rightarrow> 'r list" where
  "delete_where p rs = filter (\<lambda>r. \<not> p r) rs"

definition lookup_by :: "('r \<Rightarrow> 'k) \<Rightarrow> 'k \<Rightarrow> 'r list \<Rightarrow> 'r option" where
  "lookup_by k x rs = find (\<lambda>r. k r = x) rs"

lemma update_where_Nil [simp]: "update_where p f [] = []"
  by (simp add: update_where_def)

lemma update_where_Cons [simp]:
  "update_where p f (r # rs) = (if p r then f r else r) # update_where p f rs"
  by (simp add: update_where_def)

lemma length_update_where [simp]: "length (update_where p f rs) = length rs"
  by (simp add: update_where_def)

lemma set_update_where:
  "r \<in> set (update_where p f rs) \<longleftrightarrow> (\<exists>q \<in> set rs. r = (if p q then f q else q))"
  by (auto simp: update_where_def)

lemma update_where_id: "(\<And>r. r \<in> set rs \<Longrightarrow> \<not> p r) \<Longrightarrow> update_where p f rs = rs"
  by (induction rs) auto

lemma map_update_where_key:
  "(\<And>r. k (f r) = k r) \<Longrightarrow> map k (update_where p f rs) = map k rs"
  by (induction rs) auto

lemma delete_where_Nil [simp]: "delete_where p [] = []"
  by (simp add: delete_where_def)

lemma delete_where_Cons [simp]:
  "delete_where p (r # rs) = (if p r then delete_where p rs else r # delete_where p rs)"
  by (simp add: delete_where_def)

lemma set_delete_where [simp]: "r \<in> set (delete_where p rs) \<longleftrightarrow> r \<in> set rs \<and> \<not> p r"
  by (auto simp: delete_where_def)

lemma delete_where_id: "(\<And>r. r \<in> set rs \<Longrightarrow> \<not> p r) \<Longrightarrow> delete_where p rs = rs"
  by (induction rs) auto

lemma distinct_map_delete_where:
  "distinct (map k rs) \<Longrightarrow> distinct (map k (delete_where p rs))"
  by (simp add: delete_where_def distinct_map_filter)

lemma lookup_by_Nil [simp]: "lookup_by k x [] = None"
  by (simp add: lookup_by_def)

lemma lookup_by_Cons [simp]:
  "lookup_by k x (r # rs) = (if k r = x then Some r else lookup_by k x rs)"
  by (simp add: lookup_by_def)

lemma lookup_by_SomeD: "lookup_by k x rs = Some r \<Longrightarrow> r \<in> set rs \<and> k r = x"
  by (induction rs) (auto split: if_splits)

lemma lookup_by_None: "lookup_by k x rs = None \<longleftrightarrow> x \<notin> k ` set rs"
  by (induction rs) auto

lemma lookup_by_distinct:
  "distinct (map k rs) \<Longrightarrow> r \<in> set rs \<Longrightarrow> lookup_by k (k r) rs = Some r"
  by (induction rs) (auto simp: rev_image_eqI)

lemma lookup_by_iff:
  "distinct (map k rs) \<Longrightarrow> lookup_by k x rs = Some r \<longleftrightarrow> r \<in> set rs \<and> k r = x"
  using lookup_by_SomeD lookup_by_distinct by fastforce

lemma lookup_by_append:
  "lookup_by k x (rs @ qs) = (case lookup_by k x rs of None \<Rightarrow> lookup_by k x qs | Some r \<Rightarrow> Some r)"
  by (induction rs) auto

lemma lookup_by_update_where:
  "(\<And>r. k (f r) = k r) \<Longrightarrow>
   lookup_by k x (update_where p f rs) =
     map_option (\<lambda>r. if p r then f r else r) (lookup_by k x rs)"
  by (induction rs) auto

lemma lookup_by_delete_where:
  "distinct (map k rs) \<Longrightarrow>
   lookup_by k x (delete_where p rs) =
     (case lookup_by k x rs of None \<Rightarrow> None | Some r \<Rightarrow> if p r then None else Some r)"
proof (induction rs)
  case Nil
  then show ?case by simp
next
  case (Cons r rs)
  then have "lookup_by k (k r) rs = None"
    by (simp add: lookup_by_None)
  with Cons show ?case
    by (auto split: option.splits)
qed

text \<open>\<open>SELECT ... WHERE key = x AND P\<close> on a unique key is a lookup and a test.\<close>

lemma find_key_and:
  "distinct (map k rs) \<Longrightarrow>
   find (\<lambda>r. k r = x \<and> P r) rs =
     (case lookup_by k x rs of None \<Rightarrow> None | Some r \<Rightarrow> if P r then Some r else None)"
proof (induction rs)
  case Nil
  then show ?case by simp
next
  case (Cons r rs)
  have "lookup_by k (k r) rs = None"
    using Cons.prems by (simp add: lookup_by_None)
  with Cons show ?case by (auto split: option.splits)
qed

lemma distinct_map_eq:
  "distinct (map k rs) \<Longrightarrow> r \<in> set rs \<Longrightarrow> q \<in> set rs \<Longrightarrow> k r = k q \<Longrightarrow> r = q"
  by (metis lookup_by_distinct option.inject)

section \<open>A batch of a permuted list\<close>

text \<open>
  Some rows, each at most once in any order, and what filtering them out by their key leaves.
\<close>

lemma distinct_sub_mset:
  assumes "mset xs \<subseteq># mset ys" and "distinct ys"
  shows "distinct xs"
proof -
  have "count (mset xs) x = 1" if "x \<in> set xs" for x
  proof -
    have "count (mset xs) x \<le> count (mset ys) x"
      using assms(1) by (rule mset_subset_eq_count)
    moreover have "count (mset ys) x \<le> 1"
      using assms(2) by (simp add: distinct_count_atmost_1)
    moreover have "0 < count (mset xs) x"
      using that by simp
    ultimately show ?thesis by linarith
  qed
  then show ?thesis
    by (simp add: distinct_count_atmost_1 count_eq_zero_iff)
qed

lemma length_filter_removed:
  assumes "distinct (map f ys)" and "distinct (map f zs)" and "f ` set zs \<subseteq> f ` set ys"
  shows "length (filter (\<lambda>y. f y \<notin> f ` set zs) ys) = length ys - length zs"
proof -
  have "length (filter (\<lambda>y. f y \<in> f ` set zs) ys) = card (f ` set (filter (\<lambda>y. f y \<in> f ` set zs) ys))"
    using assms(1) by (metis distinct_card distinct_map_filter length_map list.set_map)
  also have "f ` set (filter (\<lambda>y. f y \<in> f ` set zs) ys) = f ` set zs"
  proof
    show "f ` set zs \<subseteq> f ` set (filter (\<lambda>y. f y \<in> f ` set zs) ys)"
    proof
      fix x assume x: "x \<in> f ` set zs"
      with assms(3) obtain y where "y \<in> set ys" "x = f y" by blast
      with x show "x \<in> f ` set (filter (\<lambda>y. f y \<in> f ` set zs) ys)" by simp
    qed
  qed auto
  also have "card (f ` set zs) = length zs"
    using assms(2) by (metis distinct_card length_map list.set_map)
  finally show ?thesis
    using sum_length_filter_compl [of "\<lambda>y. f y \<in> f ` set zs" ys] by simp
qed

end
