(* ===== verification/Types.thy ===== *)
theory Types
  imports Prelude
begin

text \<open>
  The wire and domain types of \<open>engine-core/src/types.rs\<close> and the error type of
  \<open>engine-core/src/error.rs\<close>, with the JSON form of the hold result: its flat
  serialisation and the hand-written deserialiser that dispatches on \<open>success\<close>.
  Functions of crates that are not part of the repository (\<open>uuid\<close>, \<open>chrono\<close>,
  \<open>serde_json\<close>'s printer) are the fields of the record \<open>ext\<close>, an argument of every
  definition that calls them.
\<close>

section \<open>JSON values and external functions\<close>

text \<open>
  A JSON document as \<open>serde_json\<close> reads it: an object is the list of its members in the order
  of the text, \<open>JNum\<close> an integer and \<open>JReal\<close> any other number.
\<close>

datatype json =
    JNull
  | JBool bool
  | JNum int
  | JReal string
  | JStr string
  | JArr "json list"
  | JObj "(string \<times> json) list"

record ext =
  uuid_to_string :: "uuid \<Rightarrow> string"
  uuid_parse :: "string \<Rightarrow> uuid option"
  time_to_string :: "time \<Rightarrow> string"
  time_parse :: "string \<Rightarrow> time option"
  to_rfc3339 :: "time \<Rightarrow> string"
  add_seconds :: "time \<Rightarrow> int \<Rightarrow> time option"
  sub_days :: "time \<Rightarrow> int \<Rightarrow> time option"
  json_to_string :: "json \<Rightarrow> string option"

text \<open>
  What the code relies on: the canonical form of a \<open>Uuid\<close> and the RFC 3339 form of a
  \<open>DateTime\<close> parse back to the value they were printed from. \<open>add_seconds\<close> is
  \<open>t + Duration::seconds(n)\<close> and \<open>sub_days\<close> is \<open>t - Duration::days(n)\<close>; both panic
  (\<open>None\<close>) outside chrono's range and otherwise are exact.
\<close>

definition wire_strings_ok :: "ext \<Rightarrow> bool" where
  "wire_strings_ok X \<longleftrightarrow>
     (\<forall>u. uuid_parse X (uuid_to_string X u) = Some u) \<and>
     (\<forall>t. time_parse X (time_to_string X t) = Some t)"

definition chrono_exact :: "ext \<Rightarrow> bool" where
  "chrono_exact X \<longleftrightarrow>
     (\<forall>t n r. add_seconds X t n = Some r \<longrightarrow> r = t + n * 1000000) \<and>
     (\<forall>t n r. sub_days X t n = Some r \<longrightarrow> r = t - n * 86400 * 1000000)"

lemma wire_strings_okD [dest]:
  assumes "wire_strings_ok X"
  shows "uuid_parse X (uuid_to_string X u) = Some u"
    and "time_parse X (time_to_string X t) = Some t"
  using assms by (simp_all add: wire_strings_ok_def)

section \<open>Requests and results\<close>

datatype ttl_class = Short | Long

fun default_seconds :: "ttl_class \<Rightarrow> int" where
  "default_seconds Short = 300"
| "default_seconds Long = 1800"

fun as_str :: "ttl_class \<Rightarrow> string" where
  "as_str Short = ''short''"
| "as_str Long = ''long''"

record seat_hold_request =
  req_trip_id :: uuid
  req_seat_no :: string
  req_leg_indexes :: "int list"
  req_operator_id :: string
  req_ttl_class :: ttl_class

datatype hold_failure_reason = IncompleteInventory | SeatConflict | TransactionError

text \<open>\<open>Success {success, hold_ref, expires_at}\<close> and
  \<open>Failure {success, reason, conflict_seats}\<close>; the constructor functions fix the flag.\<close>

datatype atomic_hold_result =
    Success bool uuid time
  | Failure bool hold_failure_reason "string list"

definition hold_success :: "uuid \<Rightarrow> time \<Rightarrow> atomic_hold_result" where
  "hold_success hold_ref expires_at = Success True hold_ref expires_at"

definition hold_failure :: "hold_failure_reason \<Rightarrow> string list \<Rightarrow> atomic_hold_result" where
  "hold_failure reason conflict_seats = Failure False reason conflict_seats"

fun is_success :: "atomic_hold_result \<Rightarrow> bool" where
  "is_success (Success _ _ _) = True"
| "is_success (Failure _ _ _) = False"

record release_result =
  rel_success :: bool

record confirm_result =
  conf_success :: bool
  conf_conflict :: "string option"

record cancel_result =
  can_success :: bool

record reaper_result =
  released_count :: nat

datatype seat_status_kind = Free | Held | Booked

record leg_state =
  ls_leg_index :: int
  ls_status :: seat_status_kind
  ls_hold_expires_at :: "time option"

record seat_state =
  ss_seat_no :: string
  ss_leg_states :: "leg_state list"

record inventory_snapshot =
  snap_trip_id :: uuid
  snap_seats :: "seat_state list"

section \<open>Errors\<close>

text \<open>
  \<open>sqlx::Error\<close> as the engine sees it: a constraint violation reported by the server, or
  any other failure of the call (pool timeout, lost connection, cancelled statement).
\<close>

datatype sqlx_error = UniqueViolation string | DriverError string

datatype engine_error =
    Db sqlx_error
  | Redis string
  | RedisPool string
  | Serde string
  | HoldExpiredOrMissing
  | Internal string

section \<open>The JSON form of a hold result\<close>

fun reason_to_string :: "hold_failure_reason \<Rightarrow> string" where
  "reason_to_string IncompleteInventory = ''INCOMPLETE_INVENTORY''"
| "reason_to_string SeatConflict = ''SEAT_CONFLICT''"
| "reason_to_string TransactionError = ''TRANSACTION_ERROR''"

definition reason_of_string :: "string \<Rightarrow> hold_failure_reason option" where
  "reason_of_string s =
     (if s = ''INCOMPLETE_INVENTORY'' then Some IncompleteInventory
      else if s = ''SEAT_CONFLICT'' then Some SeatConflict
      else if s = ''TRANSACTION_ERROR'' then Some TransactionError
      else None)"

lemma reason_round_trip [simp]: "reason_of_string (reason_to_string r) = Some r"
  by (cases r) (simp_all add: reason_of_string_def)

lemma reason_of_string_Some: "reason_of_string s = Some r \<longleftrightarrow> s = reason_to_string r"
  by (cases r) (auto simp: reason_of_string_def)

fun hold_result_to_json :: "ext \<Rightarrow> atomic_hold_result \<Rightarrow> json" where
  "hold_result_to_json X (Success b h t) =
     JObj [(''success'', JBool b),
           (''hold_ref'', JStr (uuid_to_string X h)),
           (''expires_at'', JStr (time_to_string X t))]"
| "hold_result_to_json X (Failure b r cs) =
     JObj [(''success'', JBool b),
           (''reason'', JStr (reason_to_string r)),
           (''conflict_seats'', JArr (map JStr cs))]"

text \<open>\<open>Value::get\<close>: of repeated keys the last one counts.\<close>

fun json_get :: "json \<Rightarrow> string \<Rightarrow> json option" where
  "json_get (JObj kvs) k = map_of (rev kvs) k"
| "json_get _ k = None"

fun as_bool :: "json \<Rightarrow> bool option" where
  "as_bool (JBool b) = Some b"
| "as_bool _ = None"

fun as_string :: "json \<Rightarrow> string option" where
  "as_string (JStr s) = Some s"
| "as_string _ = None"

text \<open>A unit variant of an enum: its name, or an object with the name as only key and \<open>null\<close>.\<close>

fun as_variant :: "json \<Rightarrow> string option" where
  "as_variant (JStr s) = Some s"
| "as_variant (JObj [(s, JNull)]) = Some s"
| "as_variant _ = None"

fun as_strings :: "json list \<Rightarrow> string list option" where
  "as_strings [] = Some []"
| "as_strings (j # js) =
     (case as_string j of None \<Rightarrow> None
      | Some s \<Rightarrow> (case as_strings js of None \<Rightarrow> None | Some ss \<Rightarrow> Some (s # ss)))"

lemma as_strings_map [simp]: "as_strings (map JStr cs) = Some cs"
  by (induction cs) simp_all

datatype de_error = MissingDiscriminator | BadVariant string

text \<open>
  A field of a derived \<open>Deserialize\<close>: absent is an error, except \<open>#[serde(default)]\<close>.
\<close>

definition de_field :: "json \<Rightarrow> string \<Rightarrow> (json \<Rightarrow> 'a option) \<Rightarrow> de_error + 'a" where
  "de_field v k f =
     (case json_get v k of
        None \<Rightarrow> Inl (BadVariant k)
      | Some j \<Rightarrow> (case f j of None \<Rightarrow> Inl (BadVariant k) | Some x \<Rightarrow> Inr x))"

definition de_uuid :: "ext \<Rightarrow> json \<Rightarrow> uuid option" where
  "de_uuid X j = Option.bind (as_string j) (uuid_parse X)"

definition de_time :: "ext \<Rightarrow> json \<Rightarrow> time option" where
  "de_time X j = Option.bind (as_string j) (time_parse X)"

definition de_reason :: "json \<Rightarrow> hold_failure_reason option" where
  "de_reason j = Option.bind (as_variant j) reason_of_string"

definition de_conflict_seats :: "json \<Rightarrow> de_error + string list" where
  "de_conflict_seats v =
     (case json_get v ''conflict_seats'' of
        None \<Rightarrow> Inr []
      | Some (JArr js) \<Rightarrow> (case as_strings js of
                             None \<Rightarrow> Inl (BadVariant ''conflict_seats'') | Some ss \<Rightarrow> Inr ss)
      | Some _ \<Rightarrow> Inl (BadVariant ''conflict_seats''))"

definition hold_result_of_json :: "ext \<Rightarrow> json \<Rightarrow> de_error + atomic_hold_result" where
  "hold_result_of_json X v =
     (case Option.bind (json_get v ''success'') as_bool of
        None \<Rightarrow> Inl MissingDiscriminator
      | Some success \<Rightarrow>
          if success then
            (case de_field v ''hold_ref'' (de_uuid X) of
               Inl e \<Rightarrow> Inl e
             | Inr h \<Rightarrow>
                 (case de_field v ''expires_at'' (de_time X) of
                    Inl e \<Rightarrow> Inl e
                  | Inr t \<Rightarrow> Inr (Success success h t)))
          else
            (case de_field v ''reason'' de_reason of
               Inl e \<Rightarrow> Inl e
             | Inr r \<Rightarrow>
                 (case de_conflict_seats v of
                    Inl e \<Rightarrow> Inl e
                  | Inr cs \<Rightarrow> Inr (Failure success r cs))))"

text \<open>The flag of a result built by the constructor functions agrees with its variant.\<close>

fun flag_ok :: "atomic_hold_result \<Rightarrow> bool" where
  "flag_ok (Success b _ _) = b"
| "flag_ok (Failure b _ _) = (\<not> b)"

lemma flag_ok_constructors [simp]:
  "flag_ok (hold_success h t)" "flag_ok (hold_failure r cs)"
  by (simp_all add: hold_success_def hold_failure_def)

lemma hold_result_of_json_flag:
  "hold_result_of_json X v = Inr r \<Longrightarrow> flag_ok r"
  by (auto simp: hold_result_of_json_def split: option.splits if_splits sum.splits)

text \<open>
  C33. A hold result that the engine serialises is read back by its own deserialiser as
  the same result: nothing of the reference, the expiry, the reason or the conflict list is
  lost on the wire, and the dispatch on the flag picks the right variant.
\<close>

theorem hold_result_round_trip:
  assumes "wire_strings_ok X" and "flag_ok r"
  shows "hold_result_of_json X (hold_result_to_json X r) = Inr r"
  using assms(2) wire_strings_okD [OF assms(1)]
  by (cases r) (auto simp: hold_result_of_json_def de_field_def de_uuid_def de_time_def de_reason_def de_conflict_seats_def)

text \<open>
  An instance of the external functions, for concrete runs: a \<open>Uuid\<close> and a time are
  printed in unary, chrono's additions are exact and total.
\<close>

definition sample_ext :: ext where
  "sample_ext =
     \<lparr>uuid_to_string = (\<lambda>u. replicate (unat u) CHR ''u''),
      uuid_parse = (\<lambda>s. Some (of_nat (length s))),
      time_to_string = (\<lambda>t. (if t < 0 then CHR ''-'' else CHR ''+'') # replicate (nat \<bar>t\<bar>) CHR ''t''),
      time_parse = (\<lambda>s. case s of [] \<Rightarrow> None
        | c # cs \<Rightarrow> Some (if c = CHR ''-'' then - int (length cs) else int (length cs))),
      to_rfc3339 = (\<lambda>t. []),
      add_seconds = (\<lambda>t n. Some (t + n * 1000000)),
      sub_days = (\<lambda>t n. Some (t - n * 86400 * 1000000)),
      json_to_string = (\<lambda>j. Some ''{}'')\<rparr>"

lemma sample_ext_ok [simp]: "wire_strings_ok sample_ext" "chrono_exact sample_ext"
  by (simp_all add: sample_ext_def wire_strings_ok_def chrono_exact_def)

theorem hold_result_round_trip_witness:
  "wire_strings_ok sample_ext \<and> flag_ok (hold_failure SeatConflict [''12A'']) \<and>
   hold_result_of_json sample_ext
     (hold_result_to_json sample_ext (hold_failure SeatConflict [''12A''])) =
   Inr (hold_failure SeatConflict [''12A''])"
  using hold_result_round_trip [OF sample_ext_ok(1), of "hold_failure SeatConflict [''12A'']"]
  by simp

text \<open>
  The deserialiser accepts a payload only as the variant its boolean \<open>success\<close> field
  announces; a payload without that field, or with one that is not a boolean, is an error,
  whatever other fields it has.
\<close>

theorem hold_result_dispatch:
  "(case hold_result_of_json X v of
      Inr (Success b h t) \<Rightarrow> b \<and> json_get v ''success'' = Some (JBool True)
    | Inr (Failure b r cs) \<Rightarrow> \<not> b \<and> json_get v ''success'' = Some (JBool False)
    | Inl MissingDiscriminator \<Rightarrow> (\<nexists>b. json_get v ''success'' = Some (JBool b))
    | Inl (BadVariant f) \<Rightarrow> f \<in> {''hold_ref'', ''expires_at'', ''reason'', ''conflict_seats''})"
proof (cases "Option.bind (json_get v ''success'') as_bool")
  case None
  then have "\<nexists>b. json_get v ''success'' = Some (JBool b)"
    by auto
  with None show ?thesis
    by (simp add: hold_result_of_json_def)
next
  case (Some b)
  then have "json_get v ''success'' = Some (JBool b)"
    by (auto simp: bind_eq_Some_conv elim: as_bool.elims)
  with Some show ?thesis
    by (auto simp: hold_result_of_json_def de_field_def de_conflict_seats_def
        split: option.splits json.splits)
qed

end
