(* ===== verification/Http.thy ===== *)
theory Http
  imports Types "HOL-Library.Sublist"
begin

text \<open>
  What the server's layers exchange: requests and responses as the code sees them through
  axum, and the error type of \<open>engine-server/src/error.rs\<close> with its two conversions. Also
  the parsing of decimal integers by \<open>str::parse\<close>, used for \<open>X-Timestamp\<close> and for the
  environment variables, and \<open>str::trim\<close>.
\<close>

section \<open>Requests and responses\<close>

text \<open>
  Header names are lower case. \<open>rq_body\<close> and \<open>rs_body\<close> are what reading the body stream to its
  end yields: its bytes, or \<open>None\<close> when the stream breaks. \<open>rq_identity\<close> is the
  \<open>ServiceIdentity\<close> extension. The path has no query string; \<open>rq_query\<close> is the rest of the
  target, which no layer looks at.
\<close>

record http_request =
  rq_method :: string
  rq_path :: string
  rq_query :: string
  rq_headers :: "(string \<times> string) list"
  rq_body :: "string option"
  rq_identity :: "string option"

record http_response =
  rs_status :: "16 word"
  rs_headers :: "(string \<times> string) list"
  rs_body :: "string option"

text \<open>\<open>HeaderValue::to_str\<close> accepts visible ASCII and tabs.\<close>

definition visible :: "char \<Rightarrow> bool" where
  "visible c \<longleftrightarrow> (let n = of_char c :: nat in 32 \<le> n \<and> n < 127 \<or> n = 9)"

definition header_str :: "string \<Rightarrow> (string \<times> string) list \<Rightarrow> string option" where
  "header_str name headers =
     (case map_of headers name of
        None \<Rightarrow> None
      | Some v \<Rightarrow> if list_all visible v then Some v else None)"

text \<open>\<open>HeaderMap::insert\<close> replaces every value of the name.\<close>

definition header_insert :: "string \<Rightarrow> string \<Rightarrow> (string \<times> string) list \<Rightarrow> (string \<times> string) list" where
  "header_insert name v headers = (name, v) # filter (\<lambda>(n, _). n \<noteq> name) headers"

lemma map_of_header_insert [simp]:
  "map_of (header_insert name v headers) n = (if n = name then Some v else map_of headers n)"
proof -
  have "map_of (filter (\<lambda>(n, _). n \<noteq> name) headers) n = map_of headers n" if "n \<noteq> name"
    using that by (induction headers) auto
  then show ?thesis by (simp add: header_insert_def)
qed

text \<open>\<open>to_bytes(body, limit)\<close>\<close>

definition to_bytes :: "string option \<Rightarrow> nat \<Rightarrow> string option" where
  "to_bytes body limit =
     (case body of None \<Rightarrow> None | Some bs \<Rightarrow> if length bs \<le> limit then Some bs else None)"

definition MAX_BODY_BYTES :: nat where
  "MAX_BODY_BYTES = 1 * 1024 * 1024"

definition is_success_status :: "16 word \<Rightarrow> bool" where
  "is_success_status st \<longleftrightarrow> 200 \<le> unat st \<and> unat st < 300"

text \<open>
  \<open>axum::Json(v).into_response()\<close>: 200 with the serialised body, or 500 with a text when
  serialisation fails.
\<close>

definition json_response :: "ext \<Rightarrow> 16 word \<Rightarrow> json \<Rightarrow> http_response" where
  "json_response X st j =
     (case json_to_string X j of
        Some b \<Rightarrow>
          \<lparr>rs_status = st, rs_headers = [(''content-type'', ''application/json'')], rs_body = Some b\<rparr>
      | None \<Rightarrow>
          \<lparr>rs_status = 500, rs_headers = [(''content-type'', ''text/plain; charset=utf-8'')],
           rs_body = Some ''serialization error''\<rparr>)"

section \<open>The error type of the API\<close>

record api_error =
  ae_status :: "16 word"
  ae_code :: string
  ae_message :: string

definition api_new :: "16 word \<Rightarrow> string \<Rightarrow> string \<Rightarrow> api_error" where
  "api_new status code message = \<lparr>ae_status = status, ae_code = code, ae_message = message\<rparr>"

definition bad_request :: "string \<Rightarrow> api_error" where
  "bad_request message = api_new 400 ''BAD_REQUEST'' message"

definition unauthorized :: "string \<Rightarrow> api_error" where
  "unauthorized message = api_new 401 ''UNAUTHORIZED'' message"

definition conflict :: "string \<Rightarrow> api_error" where
  "conflict message = api_new 409 ''CONFLICT'' message"

definition internal :: "string \<Rightarrow> api_error" where
  "internal message = api_new 500 ''INTERNAL'' message"

definition into_response :: "ext \<Rightarrow> api_error \<Rightarrow> http_response" where
  "into_response X e =
     json_response X (ae_status e)
       (JObj [(''error'', JObj [(''code'', JStr (ae_code e)), (''message'', JStr (ae_message e))])])"

fun sqlx_message :: "sqlx_error \<Rightarrow> string" where
  "sqlx_message (UniqueViolation c) = ''duplicate key value violates unique constraint '' @ c"
| "sqlx_message (DriverError m) = m"

fun error_message :: "engine_error \<Rightarrow> string" where
  "error_message (Db e) = ''database error: '' @ sqlx_message e"
| "error_message (Redis m) = ''redis error: '' @ m"
| "error_message (RedisPool m) = ''redis pool error: '' @ m"
| "error_message (Serde m) = ''serialization error: '' @ m"
| "error_message HoldExpiredOrMissing = ''hold not found or already expired''"
| "error_message (Internal m) = ''internal error: '' @ m"

fun api_error_of :: "engine_error \<Rightarrow> api_error" where
  "api_error_of HoldExpiredOrMissing =
     api_new 409 ''HOLD_EXPIRED_OR_MISSING'' (error_message HoldExpiredOrMissing)"
| "api_error_of other = internal (error_message other)"

section \<open>White space\<close>

text \<open>
  \<open>str::trim\<close> on UTF-8: the encodings of the Unicode white space characters are stripped from
  both ends.
\<close>

definition white_spaces :: "string list" where
  "white_spaces =
     map (\<lambda>n. [char_of n]) [9, 10, 11, 12, 13, 32 :: nat] @
     map (map char_of) ([[0xC2, 0x85], [0xC2, 0xA0], [0xE1, 0x9A, 0x80]] @
       map (\<lambda>n. [0xE2, 0x80, n]) ([0x80 ..< 0x8B] @ [0xA8, 0xA9, 0xAF]) @
       [[0xE2, 0x81, 0x9F], [0xE3, 0x80, 0x80 :: nat]])"

function strip :: "string list \<Rightarrow> string \<Rightarrow> string" where
  "strip ws s =
     (case find (\<lambda>w. w \<noteq> [] \<and> prefix w s) ws of
        None \<Rightarrow> s
      | Some w \<Rightarrow> strip ws (drop (length w) s))"
  by auto
termination
  by (relation "measure (\<lambda>(ws, s). length s)") (auto simp: find_Some_iff prefix_def)

declare strip.simps [simp del]

definition trim :: "string \<Rightarrow> string" where
  "trim s = rev (strip (map rev white_spaces) (rev (strip white_spaces s)))"

text \<open>A text that begins and ends with a visible ASCII character is not changed.\<close>

definition graphic :: "char \<Rightarrow> bool" where
  "graphic c \<longleftrightarrow> (let n = of_char c :: nat in 33 \<le> n \<and> n \<le> 126)"

lemma strip_id:
  assumes "\<forall>w \<in> set ws. w = [] \<or> \<not> graphic (hd w)" and "s = [] \<or> graphic (hd s)"
  shows "strip ws s = s"
proof -
  have "find (\<lambda>w. w \<noteq> [] \<and> prefix w s) ws = None"
    using assms by (auto simp: find_None_iff prefix_def)
  then show ?thesis by (simp add: strip.simps)
qed

lemma white_spaces_not_graphic:
  "\<forall>w \<in> set white_spaces. w = [] \<or> \<not> graphic (hd w)"
  "\<forall>w \<in> set (map rev white_spaces). w = [] \<or> \<not> graphic (hd w)"
  by (simp_all add: white_spaces_def graphic_def of_char_of upt_rec)

lemma trim_id: "s = [] \<or> graphic (hd s) \<and> graphic (last s) \<Longrightarrow> trim s = s"
  using strip_id [OF white_spaces_not_graphic(1), of s] strip_id [OF white_spaces_not_graphic(2), of "rev s"]
  by (auto simp: trim_def hd_rev)

section \<open>Splitting\<close>

text \<open>\<open>str::split\<close> with a one-character pattern: always at least one part.\<close>

fun split_on :: "char \<Rightarrow> string \<Rightarrow> string list" where
  "split_on c [] = [[]]"
| "split_on c (x # xs) =
     (if x = c then [] # split_on c xs
      else (case split_on c xs of [] \<Rightarrow> [[x]] | p # ps \<Rightarrow> (x # p) # ps))"

lemma split_on_ne [simp]: "split_on c xs \<noteq> []"
  by (induction c xs rule: split_on.induct) (auto split: list.split)

lemma split_on_id: "c \<notin> set xs \<Longrightarrow> split_on c xs = [xs]"
  by (induction xs) auto

lemma split_on_append:
  "c \<notin> set xs \<Longrightarrow> split_on c (xs @ c # ys) = xs # split_on c ys"
  by (induction xs) auto

lemma split_on_parts: "p \<in> set (split_on c xs) \<Longrightarrow> c \<notin> set p"
proof (induction c xs arbitrary: p rule: split_on.induct)
  case (2 c x xs)
  obtain q qs where q: "split_on c xs = q # qs" by (cases "split_on c xs") auto
  with 2 show ?case by (cases "x = c") auto
qed simp

section \<open>Decimal integers\<close>

text \<open>
  \<open>str::parse\<close> for an integer type with values \<open>lo..hi\<close>: an optional sign (\<open>-\<close> only for signed
  types), at least one digit, nothing else, in range.
\<close>

definition digit_value :: "char \<Rightarrow> nat option" where
  "digit_value c = (let n = of_char c :: nat in if 48 \<le> n \<and> n \<le> 57 then Some (n - 48) else None)"

fun parse_digits :: "nat \<Rightarrow> string \<Rightarrow> nat option" where
  "parse_digits acc [] = Some acc"
| "parse_digits acc (c # cs) =
     (case digit_value c of None \<Rightarrow> None | Some d \<Rightarrow> parse_digits (acc * 10 + d) cs)"

definition parse_nat :: "string \<Rightarrow> nat option" where
  "parse_nat cs = (if cs = [] then None else parse_digits 0 cs)"

definition parse_int :: "int \<Rightarrow> int \<Rightarrow> string \<Rightarrow> int option" where
  "parse_int lo hi cs =
     (let r = (case cs of
                 [] \<Rightarrow> None
               | c # ds \<Rightarrow>
                   if c = CHR ''+'' then map_option int (parse_nat ds)
                   else if c = CHR ''-'' \<and> lo < 0 then map_option (\<lambda>n. - int n) (parse_nat ds)
                   else map_option int (parse_nat cs))
      in case r of None \<Rightarrow> None | Some n \<Rightarrow> if lo \<le> n \<and> n \<le> hi then Some n else None)"

definition parse_i64 :: "string \<Rightarrow> 64 word option" where
  "parse_i64 cs = map_option word_of_int (parse_int (- (2 ^ 63)) (2 ^ 63 - 1) cs)"

text \<open>\<open>Display\<close> of an integer.\<close>

definition show_digit :: "nat \<Rightarrow> char" where
  "show_digit d = char_of (48 + d)"

fun show_nat :: "nat \<Rightarrow> string" where
  "show_nat n = (if n < 10 then [show_digit n] else show_nat (n div 10) @ [show_digit (n mod 10)])"

declare show_nat.simps [simp del]

definition show_int :: "int \<Rightarrow> string" where
  "show_int i = (if i < 0 then CHR ''-'' # show_nat (nat (- i)) else show_nat (nat i))"

definition show_i64 :: "64 word \<Rightarrow> string" where
  "show_i64 w = show_int (sint w)"

lemma digit_value_show [simp]: "d < 10 \<Longrightarrow> digit_value (show_digit d) = Some d"
  by (simp add: digit_value_def show_digit_def of_char_of Let_def)

lemma parse_digits_append:
  "parse_digits acc (xs @ ys) =
     (case parse_digits acc xs of None \<Rightarrow> None | Some a \<Rightarrow> parse_digits a ys)"
  by (induction acc xs rule: parse_digits.induct) (auto split: option.split)

lemma parse_digits_show: "parse_digits 0 (show_nat n) = Some n"
proof (induction n rule: show_nat.induct)
  case (1 n)
  then show ?case
    by (subst show_nat.simps) (auto simp: parse_digits_append)
qed

lemma show_nat_ne [simp]: "show_nat n \<noteq> []"
  by (subst show_nat.simps) simp

lemma parse_nat_show [simp]: "parse_nat (show_nat n) = Some n"
  by (simp add: parse_nat_def parse_digits_show)

lemma show_digit_range: "d < 10 \<Longrightarrow> of_char (show_digit d) \<in> {48..57::nat}"
  by (simp add: show_digit_def of_char_of)

lemma show_nat_digits: "c \<in> set (show_nat n) \<Longrightarrow> of_char c \<in> {48..57::nat}"
proof (induction n rule: show_nat.induct)
  case (1 n)
  show ?case
  proof (cases "n < 10")
    case True
    with 1(2) have "c = show_digit n" by (subst (asm) show_nat.simps) simp
    with True show ?thesis using show_digit_range by blast
  next
    case False
    with 1(2) have "c \<in> set (show_nat (n div 10)) \<or> c = show_digit (n mod 10)"
      by (subst (asm) show_nat.simps) auto
    with 1(1) [OF False] show ?thesis using show_digit_range [of "n mod 10"] by auto
  qed
qed

lemma show_nat_hd: "hd (show_nat n) \<noteq> CHR ''+''" "hd (show_nat n) \<noteq> CHR ''-''"
  using show_nat_digits [of "hd (show_nat n)" n] by (auto dest: hd_in_set)

text \<open>Printing an \<open>i64\<close> and parsing it back gives the same number.\<close>

lemma parse_show_int:
  assumes "lo \<le> i" and "i \<le> hi"
  shows "parse_int lo hi (show_int i) = Some i"
proof (cases "i < 0")
  case True
  with assms show ?thesis by (simp add: parse_int_def show_int_def)
next
  case False
  obtain c cs where cs: "show_nat (nat i) = c # cs" by (cases "show_nat (nat i)") auto
  with show_nat_hd [of "nat i"] have "c \<noteq> CHR ''+''" "c \<noteq> CHR ''-''" by auto
  moreover have "parse_nat (c # cs) = Some (nat i)" by (simp flip: cs)
  ultimately show ?thesis
    using assms False by (simp add: parse_int_def show_int_def cs)
qed

lemma parse_show_i64 [simp]: "parse_i64 (show_i64 w) = Some w"
proof -
  have "- (2 ^ 63) \<le> sint w" "sint w \<le> 2 ^ 63 - 1"
    using sint_range_size [of w] by (simp_all add: word_size)
  then show ?thesis
    by (simp add: parse_i64_def show_i64_def parse_show_int)
qed

end
