(* ===== verification/Config.thy ===== *)
theory Config
  imports Http
begin

text \<open>
  \<open>engine-server/src/config.rs\<close>: the configuration from the environment. Which environments
  are refused, that every number is read at the width of its field or replaced by its default,
  and what the allowlist contains.
\<close>

section \<open>The configuration\<close>

text \<open>\<open>env::var\<close>: \<open>None\<close> for a variable that is unset or not UTF-8.\<close>

type_synonym env = "string \<Rightarrow> string option"

record config =
  bind_addr :: string
  database_url :: string
  redis_url :: "string option"
  cfg_hmac_secret :: string
  cfg_hmac_skew_secs :: "64 word"
  cfg_allowed_service_ids :: "string list"
  reaper_interval_secs :: "64 word"
  db_min_conn :: "32 word"
  db_max_conn :: "32 word"
  idempotency_sweep_interval_secs :: "64 word"
  cfg_ttl_short_secs :: "64 word"
  cfg_ttl_long_secs :: "64 word"
  confirmed_holds_retention_days :: "64 word"

text \<open>\<open>.ok().and_then(|s| s.parse().ok()).unwrap_or(default)\<close> for the three integer types.\<close>

definition parsed_or :: "int \<Rightarrow> int \<Rightarrow> int \<Rightarrow> string option \<Rightarrow> int" where
  "parsed_or lo hi dflt v =
     (case Option.bind v (parse_int lo hi) of None \<Rightarrow> dflt | Some n \<Rightarrow> n)"

definition i64_or :: "int \<Rightarrow> string option \<Rightarrow> 64 word" where
  "i64_or dflt v = word_of_int (parsed_or (- (2 ^ 63)) (2 ^ 63 - 1) dflt v)"

definition u64_or :: "int \<Rightarrow> string option \<Rightarrow> 64 word" where
  "u64_or dflt v = word_of_int (parsed_or 0 (2 ^ 64 - 1) dflt v)"

definition u32_or :: "int \<Rightarrow> string option \<Rightarrow> 32 word" where
  "u32_or dflt v = word_of_int (parsed_or 0 (2 ^ 32 - 1) dflt v)"

definition allowlist :: "string option \<Rightarrow> string list" where
  "allowlist v =
     (case v of
        None \<Rightarrow> []
      | Some s \<Rightarrow> filter (\<lambda>p. p \<noteq> []) (map trim (split_on CHR '','' s)))"

text \<open>\<open>Ok(Self { ... })\<close>, and the checks before it.\<close>

definition config_of :: "env \<Rightarrow> string \<Rightarrow> string \<Rightarrow> config" where
  "config_of e url secret =
     \<lparr>bind_addr =
        (case e ''HOST'' of None \<Rightarrow> ''0.0.0.0'' | Some h \<Rightarrow> h) @ '':'' @
        (case e ''PORT'' of None \<Rightarrow> ''8090'' | Some p \<Rightarrow> p),
      database_url = url,
      redis_url = (case e ''REDIS_URL'' of None \<Rightarrow> None | Some s \<Rightarrow> if s = [] then None else Some s),
      cfg_hmac_secret = secret,
      cfg_hmac_skew_secs = i64_or 30 (e ''HMAC_SKEW_SECS''),
      cfg_allowed_service_ids = allowlist (e ''ALLOWED_SERVICE_IDS''),
      reaper_interval_secs = u64_or 60 (e ''REAPER_INTERVAL_SECS''),
      db_min_conn = u32_or 10 (e ''DB_MIN_CONN''),
      db_max_conn = u32_or 50 (e ''DB_MAX_CONN''),
      idempotency_sweep_interval_secs = u64_or 3600 (e ''IDEMPOTENCY_SWEEP_INTERVAL_SECS''),
      cfg_ttl_short_secs = i64_or 300 (e ''HOLD_TTL_SHORT_SECONDS''),
      cfg_ttl_long_secs = i64_or 1800 (e ''HOLD_TTL_LONG_SECONDS''),
      confirmed_holds_retention_days = i64_or 30 (e ''CONFIRMED_HOLDS_RETENTION_DAYS'')\<rparr>"

definition env_database_url :: "env \<Rightarrow> string option" where
  "env_database_url e = (case e ''ENGINE_DATABASE_URL'' of None \<Rightarrow> e ''DATABASE_URL'' | Some u \<Rightarrow> Some u)"

definition from_env :: "env \<Rightarrow> string + config" where
  "from_env e =
     (case env_database_url e of
        None \<Rightarrow> Inl ''ENGINE_DATABASE_URL or DATABASE_URL must be set''
      | Some url \<Rightarrow>
      (case e ''RESERVATION_ENGINE_HMAC_SECRET'' of
         None \<Rightarrow> Inl ''RESERVATION_ENGINE_HMAC_SECRET must be set''
       | Some secret \<Rightarrow>
      if length secret < 16 then Inl ''RESERVATION_ENGINE_HMAC_SECRET must be at least 16 characters''
      else Inr (config_of e url secret)))"

lemma from_env_Inr:
  "from_env e = Inr cfg \<longleftrightarrow>
     (\<exists>url secret. env_database_url e = Some url \<and> e ''RESERVATION_ENGINE_HMAC_SECRET'' = Some secret \<and>
        16 \<le> length secret \<and> cfg = config_of e url secret)"
  by (auto simp: from_env_def split: option.splits)

lemma from_env_Inl:
  "from_env e = Inl m \<Longrightarrow>
     env_database_url e = None \<or>
     (\<forall>secret. e ''RESERVATION_ENGINE_HMAC_SECRET'' = Some secret \<longrightarrow> length secret < 16)"
  by (auto simp: from_env_def split: option.splits if_splits)

section \<open>Numbers\<close>

lemma parse_int_range: "parse_int lo hi s = Some n \<Longrightarrow> lo \<le> n \<and> n \<le> hi"
  by (auto simp: parse_int_def Let_def split: option.splits if_splits)

lemma parsed_or_range:
  "lo \<le> d \<Longrightarrow> d \<le> hi \<Longrightarrow> lo \<le> parsed_or lo hi d v \<and> parsed_or lo hi d v \<le> hi"
  by (auto simp: parsed_or_def bind_eq_Some_conv dest: parse_int_range split: option.split)

text \<open>The decimal form of a number is read as that number, or not at all when it is out of range.\<close>

lemma parse_int_show: "parse_int lo hi (show_int i) = (if lo \<le> i \<and> i \<le> hi then Some i else None)"
proof (cases "lo \<le> i \<and> i \<le> hi")
  case True
  then show ?thesis using parse_show_int by simp
next
  case False
  have "parse_int lo hi (show_int i) \<noteq> Some n" for n
  proof
    assume some: "parse_int lo hi (show_int i) = Some n"
    note range = parse_int_range [OF some]
    show "False"
    proof (cases "i < 0")
      case neg: True
      have "digit_value CHR ''-'' = None" by (simp add: digit_value_def)
      then have "parse_nat (CHR ''-'' # ds) = None" for ds by (simp add: parse_nat_def)
      with some neg have "n = i" by (auto simp: parse_int_def show_int_def split: if_splits)
      with range False show ?thesis by simp
    next
      case pos: False
      obtain c cs where cs: "show_nat (nat i) = c # cs" by (cases "show_nat (nat i)") auto
      with show_nat_hd [of "nat i"] have "c \<noteq> CHR ''+''" "c \<noteq> CHR ''-''" by auto
      moreover have "parse_nat (c # cs) = Some (nat i)" by (simp flip: cs)
      ultimately have "n = i" using some pos by (auto simp: parse_int_def show_int_def cs split: if_splits)
      with range False show ?thesis by simp
    qed
  qed
  with False show ?thesis by (cases "parse_int lo hi (show_int i)") auto
qed

lemma parsed_or_show: "parsed_or lo hi d (Some (show_int i)) = (if lo \<le> i \<and> i \<le> hi then i else d)"
  by (simp add: parsed_or_def parse_int_show)

lemma sint_of_i64: "- (2 ^ 63) \<le> n \<Longrightarrow> n \<le> 2 ^ 63 - 1 \<Longrightarrow> sint (word_of_int n :: 64 word) = n"
  by (simp add: sint_sbintrunc' signed_take_bit_int_eq_self)

lemma sint_i64_or:
  assumes "- (2 ^ 63) \<le> d" and "d \<le> 2 ^ 63 - 1"
  shows "sint (i64_or d v) = parsed_or (- (2 ^ 63)) (2 ^ 63 - 1) d v"
  unfolding i64_or_def by (rule sint_of_i64) (use parsed_or_range [OF assms, of v] in simp_all)

lemma uint_u64_or:
  assumes "0 \<le> d" and "d \<le> 2 ^ 64 - 1"
  shows "uint (u64_or d v) = parsed_or 0 (2 ^ 64 - 1) d v"
  using parsed_or_range [OF assms, of v] by (simp add: u64_or_def uint_word_of_int)

lemma uint_u32_or:
  assumes "0 \<le> d" and "d \<le> 2 ^ 32 - 1"
  shows "uint (u32_or d v) = parsed_or 0 (2 ^ 32 - 1) d v"
  using parsed_or_range [OF assms, of v] by (simp add: u32_or_def uint_word_of_int)

text \<open>
  C27. A number written into the environment in decimal is the number the server runs with, as
  long as it fits the type of its field (\<open>i64\<close>, \<open>u64\<close> or \<open>u32\<close>); written out of that range
  it is not wrapped or clamped but replaced by the default of the field, without an error.
\<close>

theorem from_env_numbers:
  assumes "from_env e = Inr cfg"
  shows "(e ''HMAC_SKEW_SECS'' = Some (show_int n) \<longrightarrow>
      sint (cfg_hmac_skew_secs cfg) = (if - (2 ^ 63) \<le> n \<and> n < 2 ^ 63 then n else 30)) \<and>
    (e ''HOLD_TTL_SHORT_SECONDS'' = Some (show_int n) \<longrightarrow>
      sint (cfg_ttl_short_secs cfg) = (if - (2 ^ 63) \<le> n \<and> n < 2 ^ 63 then n else 300)) \<and>
    (e ''HOLD_TTL_LONG_SECONDS'' = Some (show_int n) \<longrightarrow>
      sint (cfg_ttl_long_secs cfg) = (if - (2 ^ 63) \<le> n \<and> n < 2 ^ 63 then n else 1800)) \<and>
    (e ''CONFIRMED_HOLDS_RETENTION_DAYS'' = Some (show_int n) \<longrightarrow>
      sint (confirmed_holds_retention_days cfg) = (if - (2 ^ 63) \<le> n \<and> n < 2 ^ 63 then n else 30)) \<and>
    (e ''REAPER_INTERVAL_SECS'' = Some (show_int n) \<longrightarrow>
      uint (reaper_interval_secs cfg) = (if 0 \<le> n \<and> n < 2 ^ 64 then n else 60)) \<and>
    (e ''IDEMPOTENCY_SWEEP_INTERVAL_SECS'' = Some (show_int n) \<longrightarrow>
      uint (idempotency_sweep_interval_secs cfg) = (if 0 \<le> n \<and> n < 2 ^ 64 then n else 3600)) \<and>
    (e ''DB_MIN_CONN'' = Some (show_int n) \<longrightarrow>
      uint (db_min_conn cfg) = (if 0 \<le> n \<and> n < 2 ^ 32 then n else 10)) \<and>
    (e ''DB_MAX_CONN'' = Some (show_int n) \<longrightarrow>
      uint (db_max_conn cfg) = (if 0 \<le> n \<and> n < 2 ^ 32 then n else 50))"
proof -
  obtain url secret where cfg: "cfg = config_of e url secret"
    using assms by (auto simp: from_env_Inr)
  have i64: "v = Some (show_int n) \<longrightarrow> sint (i64_or d v) = (if - (2 ^ 63) \<le> n \<and> n < 2 ^ 63 then n else d)"
    if "- (2 ^ 63) \<le> d" "d \<le> 2 ^ 63 - 1" for d v
    by (simp add: sint_i64_or [OF that] parsed_or_show)
  have u64: "v = Some (show_int n) \<longrightarrow> uint (u64_or d v) = (if 0 \<le> n \<and> n < 2 ^ 64 then n else d)"
    if "0 \<le> d" "d \<le> 2 ^ 64 - 1" for d v
    by (simp add: uint_u64_or [OF that] parsed_or_show)
  have u32: "v = Some (show_int n) \<longrightarrow> uint (u32_or d v) = (if 0 \<le> n \<and> n < 2 ^ 32 then n else d)"
    if "0 \<le> d" "d \<le> 2 ^ 32 - 1" for d v
    by (simp add: uint_u32_or [OF that] parsed_or_show)
  show ?thesis
    unfolding cfg config_of_def config.simps
    by (intro conjI i64 u64 u32) simp_all
qed

text \<open>
  Strings of the environment are the bytes of their UTF-8 encoding; a character starts at every
  byte that is not a continuation byte (\<open>10xxxxxx\<close>). A secret of eight two-byte characters:
\<close>

definition utf8_chars :: "string \<Rightarrow> nat" where
  "utf8_chars s = length (filter (\<lambda>c. (of_char c :: nat) div 64 \<noteq> 2) s)"

definition accented_secret :: string where
  "accented_secret = concat (replicate 8 [char_of (195 :: nat), char_of (169 :: nat)])"

definition accented_environment :: env where
  "accented_environment =
     [''DATABASE_URL'' \<mapsto> ''postgres://db'', ''RESERVATION_ENGINE_HMAC_SECRET'' \<mapsto> accented_secret]"

text \<open>
  C26. Which environments are refused, and what a configuration is sure to be: it is refused
  exactly when both database variables are unset or the secret is unset or shorter than 16
  bytes of UTF-8; otherwise \<open>ENGINE_DATABASE_URL\<close> wins, an empty \<open>REDIS_URL\<close> counts as unset, and the
  allowlist has the non-empty trimmed parts of its variable between commas. In particular
  a variable of commas and blanks gives the empty list, which disables the check. The limit is
  on bytes, not on characters as the error message has it: every valid secret has 16 bytes, and
  a secret of eight characters can be one.
\<close>

theorem from_env_checks:
  "(case from_env e of
      Inl m \<Rightarrow>
        e ''ENGINE_DATABASE_URL'' = None \<and> e ''DATABASE_URL'' = None \<or>
        (case e ''RESERVATION_ENGINE_HMAC_SECRET'' of None \<Rightarrow> True | Some secret \<Rightarrow> length secret < 16)
    | Inr cfg \<Rightarrow>
        e ''RESERVATION_ENGINE_HMAC_SECRET'' = Some (cfg_hmac_secret cfg) \<and> 16 \<le> length (cfg_hmac_secret cfg) \<and>
        Some (database_url cfg) =
          (if e ''ENGINE_DATABASE_URL'' = None then e ''DATABASE_URL'' else e ''ENGINE_DATABASE_URL'') \<and>
        redis_url cfg = (if e ''REDIS_URL'' = Some [] then None else e ''REDIS_URL'') \<and>
        set (cfg_allowed_service_ids cfg) =
          {trim p |p s. e ''ALLOWED_SERVICE_IDS'' = Some s \<and> p \<in> set (split_on CHR '','' s) \<and> trim p \<noteq> []}) \<and>
    (\<exists>cfg. from_env accented_environment = Inr cfg \<and> utf8_chars (cfg_hmac_secret cfg) = 8)"
proof
  have "\<exists>cfg. from_env accented_environment = Inr cfg \<and> cfg_hmac_secret cfg = accented_secret"
    by (simp add: from_env_def env_database_url_def accented_environment_def accented_secret_def config_of_def numeral_eq_Suc)
  moreover have "utf8_chars accented_secret = 8" by code_simp
  ultimately show "\<exists>cfg. from_env accented_environment = Inr cfg \<and> utf8_chars (cfg_hmac_secret cfg) = 8" by auto
next
  show "case from_env e of
      Inl m \<Rightarrow>
        e ''ENGINE_DATABASE_URL'' = None \<and> e ''DATABASE_URL'' = None \<or>
        (case e ''RESERVATION_ENGINE_HMAC_SECRET'' of None \<Rightarrow> True | Some secret \<Rightarrow> length secret < 16)
    | Inr cfg \<Rightarrow>
        e ''RESERVATION_ENGINE_HMAC_SECRET'' = Some (cfg_hmac_secret cfg) \<and> 16 \<le> length (cfg_hmac_secret cfg) \<and>
        Some (database_url cfg) =
          (if e ''ENGINE_DATABASE_URL'' = None then e ''DATABASE_URL'' else e ''ENGINE_DATABASE_URL'') \<and>
        redis_url cfg = (if e ''REDIS_URL'' = Some [] then None else e ''REDIS_URL'') \<and>
        set (cfg_allowed_service_ids cfg) =
          {trim p |p s. e ''ALLOWED_SERVICE_IDS'' = Some s \<and> p \<in> set (split_on CHR '','' s) \<and> trim p \<noteq> []}"
  proof (cases "from_env e")
    case (Inl m)
    with from_env_Inl [OF Inl] show ?thesis by (auto simp: env_database_url_def split: option.splits)
  next
    case (Inr cfg)
    then obtain url secret where c: "env_database_url e = Some url" "e ''RESERVATION_ENGINE_HMAC_SECRET'' = Some secret"
      "16 \<le> length secret" "cfg = config_of e url secret"
      by (auto simp: from_env_Inr)
    have "set (allowlist v) = {trim p |p s. v = Some s \<and> p \<in> set (split_on CHR '','' s) \<and> trim p \<noteq> []}" for v
      by (auto simp: allowlist_def split: option.split)
    moreover have "Some url = (if e ''ENGINE_DATABASE_URL'' = None then e ''DATABASE_URL'' else e ''ENGINE_DATABASE_URL'')"
      using c(1) by (auto simp: env_database_url_def split: option.splits)
    ultimately show ?thesis
      using c by (simp add: Inr config_of_def split: option.split)
  qed
qed

definition sample_environment :: env where
  "sample_environment =
     [''DATABASE_URL'' \<mapsto> ''postgres://db'', ''RESERVATION_ENGINE_HMAC_SECRET'' \<mapsto> ''0123456789abcdef'',
      ''HMAC_SKEW_SECS'' \<mapsto> ''120'', ''DB_MAX_CONN'' \<mapsto> ''-1'', ''REDIS_URL'' \<mapsto> []]"

theorem from_env_numbers_witness:
  "\<exists>cfg. from_env sample_environment = Inr cfg \<and> sint (cfg_hmac_skew_secs cfg) = 120 \<and> uint (db_max_conn cfg) = 50"
proof -
  obtain cfg where cfg: "from_env sample_environment = Inr cfg"
    by (simp add: from_env_Inr env_database_url_def sample_environment_def)
  have dec: "show_int 120 = ''120''" "show_int (-1) = ''-1''" by code_simp+
  have "sample_environment ''HMAC_SKEW_SECS'' = Some (show_int 120)"
    "sample_environment ''DB_MAX_CONN'' = Some (show_int (-1))"
    unfolding dec by (simp_all add: sample_environment_def)
  with from_env_numbers [OF cfg, of 120] from_env_numbers [OF cfg, of "-1"] cfg show ?thesis
    by (elim conjE) simp
qed

end
