(* ===== verification/Database.thy ===== *)
theory Database
  imports Types
begin

text \<open>
  The database the engine works on: the tables of \<open>engine/migrations\<close> (only the columns the
  engine reads or writes), the constraints the schema declares, and a client session with
  its transactions. Every call of the driver may fail; what the driver reports for the
  coming calls is a schedule in the session, so each theorem about an operation holds for
  every pattern of failures. A transaction runs on a working copy that only \<open>COMMIT\<close>
  publishes, and dropping it (an early return in the source) leaves the committed tables
  as they were.
\<close>

section \<open>Tables\<close>

record inv_row =
  inv_id :: uuid
  inv_trip :: uuid
  inv_seat :: string
  inv_leg :: int
  inv_booked :: bool
  inv_hold :: "string option"

record hold_row =
  hr_id :: uuid
  hr_ref :: string
  hr_trip :: uuid
  hr_seat :: string
  hr_legs :: "int list"
  hr_class :: string
  hr_operator :: string
  hr_booking :: "string option"
  hr_expires :: time
  hr_created :: time

record idem_row =
  ik_key :: string
  ik_hash :: string
  ik_status :: "32 word"
  ik_body :: string
  ik_created :: time
  ik_expires :: time

record db =
  seat_inventory :: "inv_row list"
  seat_holds :: "hold_row list"
  idem_cache :: "idem_row list"

definition inv_key :: "inv_row \<Rightarrow> seat_key" where
  "inv_key r = (inv_trip r, inv_seat r, inv_leg r)"

definition hold_refs :: "db \<Rightarrow> string set" where
  "hold_refs d = hr_ref ` set (seat_holds d)"

text \<open>
  The unique indexes of the schema: \<open>(trip_id, seat_no, leg_index)\<close>, \<open>hold_ref\<close> and the
  primary key of the idempotency cache.
\<close>

definition schema_ok :: "db \<Rightarrow> bool" where
  "schema_ok d \<longleftrightarrow>
     distinct (map inv_key (seat_inventory d)) \<and>
     distinct (map hr_ref (seat_holds d)) \<and>
     distinct (map ik_key (idem_cache d))"

lemma schema_okD [dest]:
  assumes "schema_ok d"
  shows "distinct (map inv_key (seat_inventory d))"
    and "distinct (map hr_ref (seat_holds d))"
    and "distinct (map ik_key (idem_cache d))"
  using assms by (simp_all add: schema_ok_def)

section \<open>Sessions, statements and failures\<close>

text \<open>
  What happens to one call: the server runs it and the reply arrives (\<open>Served\<close>), it never
  runs (\<open>Refused\<close>), or it runs and the reply is lost (\<open>Lost\<close>). An exhausted schedule
  serves every further call. A lost reply matters for \<open>COMMIT\<close> and for statements outside
  a transaction; inside one, the client drops the transaction in both cases.
\<close>

datatype fault = Served | Refused string | Lost string

record session =
  committed :: db
  work :: db
  faults :: "fault list"

type_synonym 'a dbm = "session \<Rightarrow> (sqlx_error + 'a) \<times> session"
type_synonym 'a stmt = "db \<Rightarrow> sqlx_error + ('a \<times> db)"

definition next_fault :: "session \<Rightarrow> fault \<times> session" where
  "next_fault s =
     (case faults s of [] \<Rightarrow> (Served, s) | f # fs \<Rightarrow> (f, s\<lparr>faults := fs\<rparr>))"

definition no_faults :: "session \<Rightarrow> bool" where
  "no_faults s \<longleftrightarrow> (\<forall>f \<in> set (faults s). f = Served)"

definition query :: "(db \<Rightarrow> 'a) \<Rightarrow> 'a stmt" where
  "query f d = Inr (f d, d)"

definition command :: "(db \<Rightarrow> db) \<Rightarrow> unit stmt" where
  "command g d = Inr ((), g d)"

definition tx_begin :: "unit dbm" where
  "tx_begin s =
     (case next_fault s of
        (Served, s1) \<Rightarrow> (Inr (), s1\<lparr>work := committed s1\<rparr>)
      | (Refused m, s1) \<Rightarrow> (Inl (DriverError m), s1)
      | (Lost m, s1) \<Rightarrow> (Inl (DriverError m), s1))"

definition tx_exec :: "'a stmt \<Rightarrow> 'a dbm" where
  "tx_exec st s =
     (case next_fault s of
        (Served, s1) \<Rightarrow>
          (case st (work s1) of
             Inl e \<Rightarrow> (Inl e, s1)
           | Inr (x, d) \<Rightarrow> (Inr x, s1\<lparr>work := d\<rparr>))
      | (Refused m, s1) \<Rightarrow> (Inl (DriverError m), s1)
      | (Lost m, s1) \<Rightarrow> (Inl (DriverError m), s1))"

definition tx_commit :: "unit dbm" where
  "tx_commit s =
     (case next_fault s of
        (Served, s1) \<Rightarrow> (Inr (), s1\<lparr>committed := work s1\<rparr>)
      | (Refused m, s1) \<Rightarrow> (Inl (DriverError m), s1)
      | (Lost m, s1) \<Rightarrow> (Inl (DriverError m), s1\<lparr>committed := work s1\<rparr>))"

text \<open>A statement outside a transaction commits by itself.\<close>

definition pool_exec :: "'a stmt \<Rightarrow> 'a dbm" where
  "pool_exec st s =
     (case next_fault s of
        (Served, s1) \<Rightarrow>
          (case st (committed s1) of
             Inl e \<Rightarrow> (Inl e, s1)
           | Inr (x, d) \<Rightarrow> (Inr x, s1\<lparr>committed := d\<rparr>))
      | (Refused m, s1) \<Rightarrow> (Inl (DriverError m), s1)
      | (Lost m, s1) \<Rightarrow>
          (case st (committed s1) of
             Inl e \<Rightarrow> (Inl e, s1)
           | Inr (x, d) \<Rightarrow> (Inl (DriverError m), s1\<lparr>committed := d\<rparr>)))"

text \<open>Sequencing with Rust's \<open>?\<close>: the first error returns.\<close>

definition qret :: "'a \<Rightarrow> 'a dbm" where
  "qret x s = (Inr x, s)"

definition qbind :: "'a dbm \<Rightarrow> ('a \<Rightarrow> 'b dbm) \<Rightarrow> 'b dbm" where
  "qbind m f s = (case m s of (Inl e, s1) \<Rightarrow> (Inl e, s1) | (Inr x, s1) \<Rightarrow> f x s1)"

lemma qret_eq [dbm_simps]: "qret x s = (r, s') \<longleftrightarrow> r = Inr x \<and> s' = s"
  by (auto simp: qret_def)

lemma qbind_eq [dbm_simps]:
  "qbind m f s = (r, s') \<longleftrightarrow>
     (\<exists>e. m s = (Inl e, s') \<and> r = Inl e) \<or> (\<exists>x s1. m s = (Inr x, s1) \<and> f x s1 = (r, s'))"
  by (cases "m s") (auto simp: qbind_def split: sum.splits)

lemma query_eq [simp]: "query f d = Inr (x, d') \<longleftrightarrow> f d = x \<and> d' = d"
  by (auto simp: query_def)

lemma query_Inl [simp]: "query f d \<noteq> Inl e"
  by (simp add: query_def)

lemma command_eq [simp]: "command g d = Inr (x, d') \<longleftrightarrow> d' = g d"
  by (auto simp: command_def)

lemma command_Inl [simp]: "command g d \<noteq> Inl e"
  by (simp add: command_def)

section \<open>What one call can do\<close>

text \<open>
  Inversion of each call on its reply: what it did to the tables and, when the schedule has
  no failures left, that only the statement itself can report an error. These carry the
  operations' proofs: \<open>auto\<close> walks a transaction with them, one call after another.
\<close>

lemma next_fault_frame:
  "next_fault s = (f, s1) \<Longrightarrow>
   committed s1 = committed s \<and> work s1 = work s \<and> (no_faults s \<longrightarrow> f = Served \<and> no_faults s1)"
  by (auto simp: next_fault_def no_faults_def split: list.splits)

lemma no_faults_upd [simp]:
  "no_faults (s\<lparr>work := d\<rparr>) = no_faults s" "no_faults (s\<lparr>committed := d\<rparr>) = no_faults s"
  by (simp_all add: no_faults_def)

lemma tx_begin_Inr:
  "tx_begin s = (Inr x, s') \<Longrightarrow>
   committed s' = committed s \<and> work s' = committed s \<and> (no_faults s \<longrightarrow> no_faults s')"
  by (auto simp: tx_begin_def split: prod.splits fault.splits sum.splits dest!: next_fault_frame)

lemma tx_begin_Inl:
  "tx_begin s = (Inl e, s') \<Longrightarrow>
   committed s' = committed s \<and> \<not> no_faults s"
  by (auto simp: tx_begin_def split: prod.splits fault.splits sum.splits dest!: next_fault_frame)

lemma tx_exec_Inr:
  "tx_exec st s = (Inr x, s') \<Longrightarrow>
   committed s' = committed s \<and> st (work s) = Inr (x, work s') \<and> (no_faults s \<longrightarrow> no_faults s')"
  by (auto simp: tx_exec_def split: prod.splits fault.splits sum.splits dest!: next_fault_frame)

lemma tx_exec_Inl:
  "tx_exec st s = (Inl e, s') \<Longrightarrow>
   committed s' = committed s \<and> (no_faults s \<longrightarrow> st (work s) = Inl e \<and> no_faults s')"
  by (auto simp: tx_exec_def split: prod.splits fault.splits sum.splits dest!: next_fault_frame)

lemma tx_commit_Inr:
  "tx_commit s = (Inr x, s') \<Longrightarrow>
   committed s' = work s \<and> (no_faults s \<longrightarrow> no_faults s')"
  by (auto simp: tx_commit_def split: prod.splits fault.splits sum.splits dest!: next_fault_frame)

lemma tx_commit_Inl:
  "tx_commit s = (Inl e, s') \<Longrightarrow>
   (committed s' = committed s \<or> committed s' = work s) \<and> \<not> no_faults s"
  by (auto simp: tx_commit_def split: prod.splits fault.splits sum.splits dest!: next_fault_frame)

lemma pool_exec_Inr:
  "pool_exec st s = (Inr x, s') \<Longrightarrow>
   st (committed s) = Inr (x, committed s') \<and> (no_faults s \<longrightarrow> no_faults s')"
  by (auto simp: pool_exec_def split: prod.splits fault.splits sum.splits dest!: next_fault_frame)

lemma pool_exec_Inl:
  "pool_exec st s = (Inl e, s') \<Longrightarrow>
   (committed s' = committed s \<or> (\<exists>x. st (committed s) = Inr (x, committed s'))) \<and>
   (no_faults s \<longrightarrow> st (committed s) = Inl e \<and> committed s' = committed s \<and> no_faults s')"
  by (auto simp: pool_exec_def split: prod.splits fault.splits sum.splits dest!: next_fault_frame)

lemmas call_dests =
  tx_begin_Inr tx_begin_Inl tx_exec_Inr tx_exec_Inl tx_commit_Inr tx_commit_Inl
  pool_exec_Inr pool_exec_Inl

lemma if_dbm_eq [dbm_simps]:
  "(if c then f else g) s = (r, s') \<longleftrightarrow> (c \<and> f s = (r, s')) \<or> (\<not> c \<and> g s = (r, s'))"
  by simp

lemma case_option_dbm_eq [dbm_simps]:
  "(case x of None \<Rightarrow> f | Some y \<Rightarrow> g y) s = (r, s') \<longleftrightarrow>
     (x = None \<and> f s = (r, s')) \<or> (\<exists>y. x = Some y \<and> g y s = (r, s'))"
  by (cases x) simp_all

text \<open>The same inversions without the fault bookkeeping, for transactions with many calls.\<close>

lemma call_Inr:
  "tx_begin s = (Inr u, s') \<Longrightarrow> committed s' = committed s \<and> work s' = committed s"
  "tx_exec st s = (Inr x, s') \<Longrightarrow> committed s' = committed s \<and> st (work s) = Inr (x, work s')"
  "tx_commit s = (Inr u, s') \<Longrightarrow> committed s' = work s"
  by (drule tx_begin_Inr tx_exec_Inr tx_commit_Inr; simp)+

lemma call_Inl:
  "tx_begin s = (Inl e, s') \<Longrightarrow> committed s' = committed s"
  "tx_exec st s = (Inl e, s') \<Longrightarrow> committed s' = committed s"
  "tx_commit s = (Inl e, s') \<Longrightarrow> committed s' = committed s \<or> committed s' = work s"
  by (drule tx_begin_Inl tx_exec_Inl tx_commit_Inl; simp)+

lemmas call_frames = call_Inr call_Inl

text \<open>
  Code whose statements cannot be rejected by the server fails only when the schedule makes
  a call fail.
\<close>

definition total :: "'a dbm \<Rightarrow> bool" where
  "total m \<longleftrightarrow> (\<forall>s r s'. no_faults s \<longrightarrow> m s = (r, s') \<longrightarrow> no_faults s' \<and> (\<exists>x. r = Inr x))"

lemma totalD: "total m \<Longrightarrow> m s = (Inl e, s') \<Longrightarrow> \<not> no_faults s"
  by (fastforce simp: total_def)

lemma total_qret: "total (qret x)"
  by (simp add: total_def qret_def)

lemma total_qbind:
  assumes "total m" and "\<And>x. total (f x)"
  shows "total (qbind m f)"
  unfolding total_def
proof (intro allI impI)
  fix s r s'
  assume "no_faults s" and run: "qbind m f s = (r, s')"
  obtain y s1 where m: "m s = (y, s1)" by (metis surj_pair)
  with assms(1) \<open>no_faults s\<close> have "no_faults s1 \<and> (\<exists>x. y = Inr x)"
    unfolding total_def by blast
  then obtain x where "y = Inr x" "no_faults s1" by blast
  with m run assms(2) [of x] show "no_faults s' \<and> (\<exists>x. r = Inr x)"
    by (auto simp: qbind_def total_def)
qed

lemma totalI:
  assumes "\<And>s e s'. m s = (Inl e, s') \<Longrightarrow> \<not> no_faults s"
    and "\<And>s x s'. m s = (Inr x, s') \<Longrightarrow> no_faults s \<longrightarrow> no_faults s'"
  shows "total m"
  unfolding total_def
proof (intro allI impI)
  fix s r s'
  assume "no_faults s" "m s = (r, s')"
  with assms show "no_faults s' \<and> (\<exists>x. r = Inr x)" by (cases r) blast+
qed

lemma total_tx_begin: "total tx_begin"
  by (rule totalI) (auto dest: tx_begin_Inl tx_begin_Inr)

lemma total_tx_commit: "total tx_commit"
  by (rule totalI) (auto dest: tx_commit_Inl tx_commit_Inr)

lemma total_exec: "total (tx_exec (query f))" "total (tx_exec (command g))"
  by (rule totalI; auto dest: tx_exec_Inl tx_exec_Inr)+

lemma total_pool_exec: "total (pool_exec (query f))" "total (pool_exec (command g))"
  by (rule totalI; auto dest: pool_exec_Inl pool_exec_Inr)+

lemma total_if: "total m \<Longrightarrow> total n \<Longrightarrow> total (if c then m else n)"
  by simp

lemma total_case_option: "total m \<Longrightarrow> (\<And>x. total (f x)) \<Longrightarrow> total (case y of None \<Rightarrow> m | Some x \<Rightarrow> f x)"
  by (cases y) simp_all

lemmas total_intros =
  total_qret total_qbind total_tx_begin total_tx_commit total_exec total_pool_exec
  total_if total_case_option

text \<open>A call consumes at most the next entry of the schedule, so no code makes a good one bad.\<close>

definition calm :: "'a dbm \<Rightarrow> bool" where
  "calm m \<longleftrightarrow> (\<forall>s. no_faults s \<longrightarrow> no_faults (snd (m s)))"

lemma calmD: "calm m \<Longrightarrow> no_faults s \<Longrightarrow> m s = (r, s') \<Longrightarrow> no_faults s'"
  by (metis calm_def snd_conv)

lemma calm_next: "no_faults s \<Longrightarrow> next_fault s = (f, s1) \<Longrightarrow> no_faults s1"
  using next_fault_frame by blast

lemma calm_call:
  "calm tx_begin" "calm (tx_exec st)" "calm tx_commit" "calm (pool_exec st)" "calm (qret x)"
  by (auto simp: calm_def tx_begin_def tx_exec_def tx_commit_def pool_exec_def qret_def
      split: prod.splits fault.splits sum.splits dest: calm_next)

lemma calm_qbind: "calm m \<Longrightarrow> (\<And>x. calm (f x)) \<Longrightarrow> calm (qbind m f)"
  by (auto simp: calm_def qbind_def split: prod.split sum.split)

lemma calm_if: "calm m \<Longrightarrow> calm n \<Longrightarrow> calm (if c then m else n)"
  by simp

lemma calm_case_option: "calm m \<Longrightarrow> (\<And>x. calm (f x)) \<Longrightarrow> calm (case y of None \<Rightarrow> m | Some x \<Rightarrow> f x)"
  by (cases y) simp_all

lemmas calm_intros = calm_call calm_qbind calm_if calm_case_option

text \<open>
  Code that reports an error only when a call has failed: the failures left in the schedule
  never grow, and an error has used one up.
\<close>

definition failures :: "session \<Rightarrow> nat" where
  "failures s = length (filter (\<lambda>f. f \<noteq> Served) (faults s))"

definition pays :: "'a dbm \<Rightarrow> bool" where
  "pays m \<longleftrightarrow>
     (\<forall>s r s'. m s = (r, s') \<longrightarrow> failures s' \<le> failures s \<and> (\<forall>e. r = Inl e \<longrightarrow> failures s' < failures s))"

lemma no_faults_failures: "no_faults s \<longleftrightarrow> failures s = 0"
  by (auto simp: no_faults_def failures_def filter_empty_conv)

lemma failures_upd [simp]:
  "failures (s\<lparr>work := d\<rparr>) = failures s" "failures (s\<lparr>committed := d\<rparr>) = failures s"
  by (simp_all add: failures_def)

lemma failures_next: "next_fault s = (f, s1) \<Longrightarrow> failures s = failures s1 + (if f = Served then 0 else 1)"
  by (auto simp: next_fault_def failures_def split: list.splits)

lemma paysD: "pays m \<Longrightarrow> m s = (r, s') \<Longrightarrow> failures s' \<le> failures s \<and> (\<forall>e. r = Inl e \<longrightarrow> failures s' < failures s)"
  unfolding pays_def by blast

lemma pays_call:
  "pays tx_begin" "pays (tx_exec (query f))" "pays (tx_exec (command g))" "pays tx_commit"
  "pays (pool_exec (query f))" "pays (pool_exec (command g))" "pays (qret x)"
  by (auto simp: pays_def tx_begin_def tx_exec_def tx_commit_def pool_exec_def qret_def query_def command_def
      split: prod.splits fault.splits dest!: failures_next)

lemma pays_qbind:
  assumes "pays m" and "\<And>x. pays (f x)"
  shows "pays (qbind m f)"
  unfolding pays_def
proof (intro allI impI)
  fix s r s' assume run: "qbind m f s = (r, s')"
  obtain y s1 where m: "m s = (y, s1)" by (metis surj_pair)
  show "failures s' \<le> failures s \<and> (\<forall>e. r = Inl e \<longrightarrow> failures s' < failures s)"
  proof (cases y)
    case (Inl e)
    with run m paysD [OF assms(1) m] show ?thesis by (auto simp: qbind_def)
  next
    case (Inr x)
    with run m have "f x s1 = (r, s')" by (simp add: qbind_def)
    from paysD [OF assms(1) m] paysD [OF assms(2) this] show ?thesis by fastforce
  qed
qed

lemma pays_if: "pays m \<Longrightarrow> pays n \<Longrightarrow> pays (if c then m else n)"
  by simp

lemmas pays_intros = pays_call pays_qbind pays_if

section \<open>The contract of a transaction\<close>

text \<open>
  An engine transaction \<open>txn\<close> implements a serial effect \<open>eff\<close>, the reply and the tables of
  an uninterrupted run: a reply without error is the effect's reply and the effect is
  committed; an error leaves the tables as they were or (the reply to \<open>COMMIT\<close> was lost)
  as the effect leaves them; without failures the error is the effect's own.
\<close>

locale transaction =
  fixes txn :: "session \<Rightarrow> (sqlx_error + 'a) \<times> session"
    and eff :: "db \<Rightarrow> (sqlx_error + 'a) \<times> db"
  assumes replied: "txn s = (Inr x, s') \<Longrightarrow> eff (committed s) = (Inr x, committed s')"
    and failed: "txn s = (Inl e, s') \<Longrightarrow>
      committed s' = committed s \<or> committed s' = snd (eff (committed s))"
    and served: "no_faults s \<Longrightarrow> txn s = (Inl e, s') \<Longrightarrow>
      eff (committed s) = (Inl e, committed s') \<and> committed s' = committed s"
begin

lemma all_or_nothing:
  "committed (snd (txn s)) = committed s \<or> committed (snd (txn s)) = snd (eff (committed s))"
proof (cases "txn s")
  case (Pair r s')
  then show ?thesis
    using failed [of s _ s'] replied [of s _ s'] by (cases r) auto
qed

lemma preserves:
  assumes "I (committed s)" and "I (committed s) \<Longrightarrow> I (snd (eff (committed s)))"
  shows "I (committed (snd (txn s)))"
  using all_or_nothing [of s] assms by auto

lemma serial:
  assumes "no_faults s"
  shows "(fst (txn s), committed (snd (txn s))) = eff (committed s)"
proof (cases "txn s")
  case (Pair r s')
  then show ?thesis
    using assms served [of s _ s'] replied [of s _ s'] by (cases r) auto
qed

end

text \<open>A transaction that is retried after a failure acts once, if its effect is idempotent.\<close>

locale idempotent_transaction = transaction +
  assumes idem: "snd (eff (snd (eff d))) = snd (eff d)"
begin

lemma retried:
  assumes "txn s = (Inl e, s1)" and "no_faults s1"
  shows "committed (snd (txn s1)) = snd (eff (committed s))"
  using failed [OF assms(1)] serial [OF assms(2)] idem
  by (metis snd_conv)

end

end
