(* ===== verification/Events.thy ===== *)
theory Events
  imports Types "HOL-Library.Sublist"
begin

text \<open>
  \<open>engine-core/src/events.rs\<close>: the two reservation events and their JSON form, the
  \<open>EventPublisher\<close> trait as a locale, its implementations (\<open>NoopPublisher\<close>,
  \<open>RedisPublisher\<close>, and the \<open>RecordingPublisher\<close> of \<open>tests/parity.rs\<close>) as
  interpretations, and \<open>emit_release_pair\<close>.
\<close>

section \<open>Events\<close>

datatype reservation_event =
    InventoryUpdated uuid string "int list" string
  | HoldsReleased uuid "string list" string

definition inventory_updated ::
  "ext \<Rightarrow> time \<Rightarrow> uuid \<Rightarrow> string \<Rightarrow> int list \<Rightarrow> reservation_event" where
  "inventory_updated X now trip_id seat_no leg_indexes =
     InventoryUpdated trip_id seat_no leg_indexes (to_rfc3339 X now)"

definition holds_released ::
  "ext \<Rightarrow> time \<Rightarrow> uuid \<Rightarrow> string list \<Rightarrow> reservation_event" where
  "holds_released X now trip_id seat_nos = HoldsReleased trip_id seat_nos (to_rfc3339 X now)"

definition CHANNEL :: string where
  "CHANNEL = ''reservation.events''"

fun event_to_json :: "ext \<Rightarrow> reservation_event \<Rightarrow> json" where
  "event_to_json X (InventoryUpdated trip seat legs ts) =
     JObj [(''type'', JStr ''inventory.updated''),
           (''trip_id'', JStr (uuid_to_string X trip)),
           (''seat_no'', JStr seat),
           (''leg_indexes'', JArr (map JNum legs)),
           (''ts'', JStr ts)]"
| "event_to_json X (HoldsReleased trip seats ts) =
     JObj [(''type'', JStr ''holds.released''),
           (''trip_id'', JStr (uuid_to_string X trip)),
           (''seat_nos'', JArr (map JStr seats)),
           (''ts'', JStr ts)]"

section \<open>The publisher interface\<close>

text \<open>
  A publisher is a state \<open>'p\<close> and a function that handles one event. What its clients rely
  on: an event is delivered at most once, as the message \<open>encode e\<close>, after the messages
  delivered before.
\<close>

type_synonym 'p publish = "reservation_event \<Rightarrow> 'p \<Rightarrow> (engine_error + unit) \<times> 'p"

text \<open>
  Fire and forget: the loops and calls of the engine that publish and ignore the reply
  (\<open>let _ = publisher.publish(..).await\<close>), and the pair of a release, which stops at an
  error.
\<close>

fun publish_all :: "'p publish \<Rightarrow> reservation_event list \<Rightarrow> 'p \<Rightarrow> 'p" where
  "publish_all P [] p = p"
| "publish_all P (e # es) p = publish_all P es (snd (P e p))"

definition emit_release_pair ::
  "ext \<Rightarrow> 'p publish \<Rightarrow> (nat \<Rightarrow> time) \<Rightarrow> uuid \<Rightarrow> string \<Rightarrow> int list \<Rightarrow> 'p \<Rightarrow>
   (engine_error + unit) \<times> 'p" where
  "emit_release_pair X P clock trip_id seat_no leg_indexes p =
     (case P (inventory_updated X (clock 0) trip_id seat_no leg_indexes) p of
        (Inl e, p1) \<Rightarrow> (Inl e, p1)
      | (Inr u, p1) \<Rightarrow>
          (case P (holds_released X (clock 1) trip_id [seat_no]) p1 of
             (Inl e, p2) \<Rightarrow> (Inl e, p2)
           | (Inr u, p2) \<Rightarrow> (Inr (), p2)))"

locale publisher =
  fixes publish :: "reservation_event \<Rightarrow> 'p \<Rightarrow> (engine_error + unit) \<times> 'p"
    and delivered :: "'p \<Rightarrow> 'm list"
    and encode :: "reservation_event \<Rightarrow> 'm"
  assumes at_most_once:
    "publish e p = (r, p') \<Longrightarrow>
     delivered p' = delivered p \<or> delivered p' = delivered p @ [encode e]"
begin

lemma publish_all_subseq:
  "\<exists>ms. delivered (publish_all publish es p) = delivered p @ ms \<and> subseq ms (map encode es)"
proof (induction es arbitrary: p)
  case Nil
  then show ?case by simp
next
  case (Cons e es)
  obtain r p' where pub: "publish e p = (r, p')" by (cases "publish e p")
  from Cons.IH [of p'] obtain ms where
    ms: "delivered (publish_all publish es p') = delivered p' @ ms" "subseq ms (map encode es)"
    by blast
  from at_most_once [OF pub] show ?case
  proof
    assume "delivered p' = delivered p"
    with ms pub show ?thesis by (auto intro: list_emb_Cons)
  next
    assume "delivered p' = delivered p @ [encode e]"
    with ms pub show ?thesis by (intro exI [of _ "encode e # ms"]) auto
  qed
qed

lemma release_pair_subseq:
  "\<exists>ms. delivered (snd (emit_release_pair X publish clock trip seat legs p)) = delivered p @ ms \<and>
        subseq ms [encode (inventory_updated X (clock 0) trip seat legs),
                   encode (holds_released X (clock 1) trip [seat])]"
proof -
  define e1 where "e1 = inventory_updated X (clock 0) trip seat legs"
  define e2 where "e2 = holds_released X (clock (Suc 0)) trip [seat]"
  obtain r1 p1 where p1: "publish e1 p = (r1, p1)" by (cases "publish e1 p")
  obtain r2 p2 where p2: "publish e2 p1 = (r2, p2)" by (cases "publish e2 p1")
  have "snd (emit_release_pair X publish clock trip seat legs p) \<in> {p1, p2}"
    using p1 p2 by (auto simp: emit_release_pair_def e1_def e2_def split: sum.splits)
  then show ?thesis
    using at_most_once [OF p1] at_most_once [OF p2]
    by (auto simp flip: e1_def e2_def intro: list_emb_Cons)
qed

end

text \<open>A publisher that never drops an event and never reports an error.\<close>

locale reliable_publisher = publisher +
  assumes accepted: "publish e p = (r, p') \<Longrightarrow> r = Inr () \<and> delivered p' = delivered p @ [encode e]"
begin

lemma publish_all_delivered:
  "delivered (publish_all publish es p) = delivered p @ map encode es"
proof (induction es arbitrary: p)
  case Nil
  then show ?case by simp
next
  case (Cons e es)
  obtain r p' where "publish e p = (r, p')" by (cases "publish e p")
  with Cons.IH [of p'] accepted show ?case by fastforce
qed

lemma release_pair_delivered:
  "delivered (snd (emit_release_pair X publish clock trip seat legs p)) =
     delivered p @ [encode (inventory_updated X (clock 0) trip seat legs),
                    encode (holds_released X (clock 1) trip [seat])]"
proof -
  define e1 where "e1 = inventory_updated X (clock 0) trip seat legs"
  define e2 where "e2 = holds_released X (clock (Suc 0)) trip [seat]"
  obtain r1 p1 where p1: "publish e1 p = (r1, p1)" by (cases "publish e1 p")
  obtain r2 p2 where p2: "publish e2 p1 = (r2, p2)" by (cases "publish e2 p1")
  show ?thesis
    using accepted [OF p1] accepted [OF p2] p1 p2
    by (auto simp: emit_release_pair_def simp flip: e1_def e2_def)
qed

end

section \<open>The publishers\<close>

definition noop_publish :: "unit publish" where
  "noop_publish e p = (Inr (), p)"

interpretation noop: publisher noop_publish "\<lambda>_. []" id
  by unfold_locales simp

text \<open>The publisher of the parity tests: a log that every event is pushed on.\<close>

definition recording_publish :: "reservation_event list publish" where
  "recording_publish e log = (Inr (), log @ [e])"

interpretation recording: reliable_publisher recording_publish id id
  by unfold_locales (auto simp: recording_publish_def)

text \<open>
  Redis. What the pool and the server do to the coming messages is a schedule: delivered,
  no connection to be had from the pool, or an error reply to \<open>PUBLISH\<close> (which may come
  after the message went out). Only a serialisation error reaches the caller.
\<close>

datatype redis_reply = PubOk | PoolUnavailable | PubError bool

record redis_state =
  redis_replies :: "redis_reply list"
  redis_channel :: "(string \<times> string) list"

definition next_reply :: "redis_state \<Rightarrow> redis_reply \<times> redis_state" where
  "next_reply p =
     (case redis_replies p of [] \<Rightarrow> (PubOk, p) | r # rs \<Rightarrow> (r, p\<lparr>redis_replies := rs\<rparr>))"

definition redis_send :: "string \<Rightarrow> redis_state \<Rightarrow> redis_state" where
  "redis_send payload p = p\<lparr>redis_channel := redis_channel p @ [(CHANNEL, payload)]\<rparr>"

definition redis_publish :: "ext \<Rightarrow> redis_state publish" where
  "redis_publish X e p =
     (case json_to_string X (event_to_json X e) of
        None \<Rightarrow> (Inl (Serde ''event''), p)
      | Some payload \<Rightarrow>
          (case next_reply p of
             (PubOk, p1) \<Rightarrow> (Inr (), redis_send payload p1)
           | (PoolUnavailable, p1) \<Rightarrow> (Inr (), p1)
           | (PubError sent, p1) \<Rightarrow> (Inr (), if sent then redis_send payload p1 else p1)))"

lemma next_reply_channel [simp]: "next_reply p = (r, p1) \<Longrightarrow> redis_channel p1 = redis_channel p"
  by (auto simp: next_reply_def split: list.splits)

definition redis_message :: "ext \<Rightarrow> reservation_event \<Rightarrow> string \<times> string" where
  "redis_message X e = (CHANNEL, the (json_to_string X (event_to_json X e)))"

interpretation redis: publisher "redis_publish X" redis_channel "redis_message X" for X
  by unfold_locales
    (auto simp: redis_publish_def redis_send_def redis_message_def split: option.splits prod.splits redis_reply.splits)

text \<open>
  Publishing a release on Redis never reorders or duplicates: whatever the pool and the
  server do, the messages that come out on the channel are a subsequence of
  \<open>inventory.updated\<close> followed by \<open>holds.released\<close>, after everything published before.
\<close>

theorem release_pair_on_redis:
  "\<exists>ms. redis_channel (snd (emit_release_pair X (redis_publish X) clock trip seat legs p)) =
          redis_channel p @ ms \<and>
        subseq ms [redis_message X (inventory_updated X (clock 0) trip seat legs),
                   redis_message X (holds_released X (clock 1) trip [seat])]"
  by (rule redis.release_pair_subseq)

end
