(* ===== verification/Inventory.thy ===== *)
theory Inventory
  imports Database Events
begin

text \<open>
  The seat as the engine's operations see it: free, held by a reference, or booked, read
  off an inventory row with the same priority as the snapshot. The consistency invariants
  between \<open>seat_inventory\<close> and \<open>seat_holds\<close>, the environment of one call (a fresh \<open>Uuid\<close>,
  the readings of the two clocks), and the lemmas on how row updates change a seat.
\<close>

section \<open>The environment of a call\<close>

text \<open>
  \<open>clock i\<close> is the \<open>i\<close>-th reading of \<open>Utc::now()\<close> in the call, \<open>db_now\<close> is PostgreSQL's
  \<open>now()\<close> (the start of the transaction), \<open>new_uuid\<close> the result of \<open>Uuid::new_v4()\<close> and
  \<open>row_id\<close> of the column default \<open>gen_random_uuid()\<close>.
\<close>

record call_env =
  new_uuid :: uuid
  row_id :: uuid
  clock :: "nat \<Rightarrow> time"
  db_now :: time

section \<open>Seats\<close>

datatype seat = SFree | SHeld string | SBooked

definition seat_of :: "inv_row \<Rightarrow> seat" where
  "seat_of r =
     (if inv_booked r then SBooked
      else case inv_hold r of None \<Rightarrow> SFree | Some h \<Rightarrow> SHeld h)"

definition row_at :: "db \<Rightarrow> seat_key \<Rightarrow> inv_row option" where
  "row_at d k = lookup_by inv_key k (seat_inventory d)"

definition seat_at :: "db \<Rightarrow> seat_key \<Rightarrow> seat option" where
  "seat_at d k = map_option seat_of (row_at d k)"

definition hold_at :: "db \<Rightarrow> string \<Rightarrow> hold_row option" where
  "hold_at d h = lookup_by hr_ref h (seat_holds d)"

text \<open>The rows \<open>WHERE trip_id = $1 AND seat_no = $2 AND leg_index = ANY($3)\<close>.\<close>

definition in_legs :: "uuid \<Rightarrow> string \<Rightarrow> int list \<Rightarrow> inv_row \<Rightarrow> bool" where
  "in_legs trip seat legs r \<longleftrightarrow>
     inv_trip r = trip \<and> inv_seat r = seat \<and> inv_leg r \<in> set legs"

definition leg_keys :: "uuid \<Rightarrow> string \<Rightarrow> int list \<Rightarrow> seat_key set" where
  "leg_keys trip seat legs = {(trip, seat, l) | l. l \<in> set legs}"

lemma in_legs_key: "in_legs trip seat legs r \<longleftrightarrow> inv_key r \<in> leg_keys trip seat legs"
  by (auto simp: in_legs_def leg_keys_def inv_key_def)

lemma leg_keys_iff [simp]:
  "(t, z, l) \<in> leg_keys trip seat legs \<longleftrightarrow> t = trip \<and> z = seat \<and> l \<in> set legs"
  by (auto simp: leg_keys_def)

lemma row_at_Some:
  "schema_ok d \<Longrightarrow> row_at d k = Some r \<longleftrightarrow> r \<in> set (seat_inventory d) \<and> inv_key r = k"
  by (simp add: row_at_def lookup_by_iff schema_ok_def)

lemma row_at_None: "row_at d k = None \<longleftrightarrow> k \<notin> inv_key ` set (seat_inventory d)"
  by (simp add: row_at_def lookup_by_None)

lemma seat_at_None: "seat_at d k = None \<longleftrightarrow> row_at d k = None"
  by (simp add: seat_at_def)

lemma hold_at_Some:
  "schema_ok d \<Longrightarrow> hold_at d h = Some r \<longleftrightarrow> r \<in> set (seat_holds d) \<and> hr_ref r = h"
  by (simp add: hold_at_def lookup_by_iff schema_ok_def)

lemma hold_at_None: "hold_at d h = None \<longleftrightarrow> h \<notin> hold_refs d"
  by (simp add: hold_at_def lookup_by_None hold_refs_def)

text \<open>Updates that keep the key columns.\<close>

lemma inv_key_upd [simp]:
  "inv_key (r\<lparr>inv_hold := h\<rparr>) = inv_key r" "inv_key (r\<lparr>inv_booked := b\<rparr>) = inv_key r"
  by (simp_all add: inv_key_def)

lemma row_at_update:
  "(\<And>r. inv_key (f r) = inv_key r) \<Longrightarrow>
   row_at (d\<lparr>seat_inventory := update_where p f (seat_inventory d)\<rparr>) k =
     map_option (\<lambda>r. if p r then f r else r) (row_at d k)"
  by (simp add: row_at_def lookup_by_update_where)

lemma in_legs_eq: "in_legs trip seat legs = (\<lambda>r. inv_key r \<in> leg_keys trip seat legs)"
  by (simp add: fun_eq_iff in_legs_key)

lemma row_at_key: "row_at d k = Some r \<Longrightarrow> inv_key r = k"
  by (auto simp: row_at_def dest: lookup_by_SomeD)

lemma row_at_update_key:
  assumes "\<And>r. inv_key (f r) = inv_key r"
  shows "row_at (d\<lparr>seat_inventory := update_where (\<lambda>r. P (inv_key r)) f (seat_inventory d)\<rparr>) k =
     map_option (\<lambda>r. if P k then f r else r) (row_at d k)"
  by (cases "row_at d k") (simp_all add: row_at_update assms row_at_key)

lemma all_rows_iff:
  "schema_ok d \<Longrightarrow>
   (\<forall>r \<in> set (seat_inventory d). Q (inv_key r) r) \<longleftrightarrow> (\<forall>k r. row_at d k = Some r \<longrightarrow> Q k r)"
  by (metis row_at_Some)

lemma row_at_frame [simp]:
  "row_at (d\<lparr>seat_holds := hs\<rparr>) k = row_at d k" "row_at (d\<lparr>idem_cache := c\<rparr>) k = row_at d k"
  by (simp_all add: row_at_def)

lemma seat_at_frame [simp]:
  "seat_at (d\<lparr>seat_holds := hs\<rparr>) k = seat_at d k" "seat_at (d\<lparr>idem_cache := c\<rparr>) k = seat_at d k"
  by (simp_all add: seat_at_def)

lemma hold_at_frame [simp]:
  "hold_at (d\<lparr>seat_inventory := rs\<rparr>) h = hold_at d h" "hold_at (d\<lparr>idem_cache := c\<rparr>) h = hold_at d h"
  by (simp_all add: hold_at_def)

lemma hold_refs_frame [simp]:
  "hold_refs (d\<lparr>seat_inventory := rs\<rparr>) = hold_refs d" "hold_refs (d\<lparr>idem_cache := c\<rparr>) = hold_refs d"
  by (simp_all add: hold_refs_def)

section \<open>Invariants\<close>

text \<open>
  \<open>linked\<close>: a reference in the inventory names an active hold (no booking) on that trip,
  seat and leg. \<open>exclusive\<close>: no leg is both booked and held. \<open>covered\<close>: an active hold
  owns every leg it lists. The first two are kept by every operation; the third by all but
  \<open>cancel_booking_seats\<close>, which clears inventory without looking at holds.
\<close>

definition linked :: "db \<Rightarrow> bool" where
  "linked d \<longleftrightarrow>
     (\<forall>r \<in> set (seat_inventory d). \<forall>h. inv_hold r = Some h \<longrightarrow>
        (\<exists>q \<in> set (seat_holds d). hr_ref q = h \<and> hr_booking q = None \<and>
           in_legs (hr_trip q) (hr_seat q) (hr_legs q) r))"

definition exclusive :: "db \<Rightarrow> bool" where
  "exclusive d \<longleftrightarrow>
     (\<forall>r \<in> set (seat_inventory d). inv_booked r \<longrightarrow> inv_hold r = None)"

definition covers :: "db \<Rightarrow> hold_row \<Rightarrow> bool" where
  "covers d q \<longleftrightarrow>
     (\<forall>k \<in> leg_keys (hr_trip q) (hr_seat q) (hr_legs q). seat_at d k = Some (SHeld (hr_ref q)))"

definition covered :: "db \<Rightarrow> bool" where
  "covered d \<longleftrightarrow> (\<forall>q \<in> set (seat_holds d). hr_booking q = None \<longrightarrow> covers d q)"

definition db_ok :: "db \<Rightarrow> bool" where
  "db_ok d \<longleftrightarrow> schema_ok d \<and> linked d \<and> exclusive d"

lemma db_okD [dest]:
  assumes "db_ok d"
  shows "schema_ok d" and "linked d" and "exclusive d"
  using assms by (simp_all add: db_ok_def)

lemma linked_hold_at:
  "db_ok d \<Longrightarrow> row_at d k = Some r \<Longrightarrow> inv_hold r = Some h \<Longrightarrow>
   \<exists>q. hold_at d h = Some q \<and> hr_booking q = None \<and>
       k \<in> leg_keys (hr_trip q) (hr_seat q) (hr_legs q)"
  unfolding db_ok_def linked_def by (fastforce simp: row_at_Some hold_at_Some in_legs_key)

text \<open>A held seat names an active hold that lists it; the reference determines the hold.\<close>

lemma seat_at_SHeld:
  assumes "db_ok d" and "seat_at d k = Some (SHeld h)"
  obtains q where "hold_at d h = Some q" and "hr_booking q = None"
    and "k \<in> leg_keys (hr_trip q) (hr_seat q) (hr_legs q)"
proof -
  from assms(2) obtain r where r: "row_at d k = Some r" and "seat_of r = SHeld h"
    by (auto simp: seat_at_def)
  then have "inv_hold r = Some h"
    by (auto simp: seat_of_def split: if_splits option.splits)
  with linked_hold_at [OF assms(1) r] that show ?thesis by blast
qed

lemma seat_at_held_iff:
  assumes "db_ok d"
  shows "seat_at d k = Some (SHeld h) \<longleftrightarrow> (\<exists>r. row_at d k = Some r \<and> inv_hold r = Some h)"
  using assms unfolding db_ok_def exclusive_def
  by (fastforce simp: seat_at_def seat_of_def row_at_Some split: option.splits if_splits)

lemma seat_at_free_iff:
  "seat_at d k = Some SFree \<longleftrightarrow>
     (\<exists>r. row_at d k = Some r \<and> \<not> inv_booked r \<and> inv_hold r = None)"
  by (auto simp: seat_at_def seat_of_def split: option.splits)

lemma seat_at_booked_iff:
  "seat_at d k = Some SBooked \<longleftrightarrow> (\<exists>r. row_at d k = Some r \<and> inv_booked r)"
  by (auto simp: seat_at_def seat_of_def split: option.splits if_splits)

section \<open>Updates and the invariants\<close>

lemma schema_ok_update_inv:
  "(\<And>r. inv_key (f r) = inv_key r) \<Longrightarrow>
   schema_ok (d\<lparr>seat_inventory := update_where p f (seat_inventory d)\<rparr>) = schema_ok d"
  by (simp add: schema_ok_def map_update_where_key)

lemma schema_ok_update_holds:
  "(\<And>r. hr_ref (f r) = hr_ref r) \<Longrightarrow>
   schema_ok (d\<lparr>seat_holds := update_where p f (seat_holds d)\<rparr>) = schema_ok d"
  by (simp add: schema_ok_def map_update_where_key)

lemma schema_ok_delete_holds:
  "schema_ok d \<Longrightarrow> schema_ok (d\<lparr>seat_holds := delete_where p (seat_holds d)\<rparr>)"
  by (simp add: schema_ok_def distinct_map_delete_where)

lemma hold_at_update:
  "(\<And>r. hr_ref (f r) = hr_ref r) \<Longrightarrow>
   hold_at (d\<lparr>seat_holds := update_where p f (seat_holds d)\<rparr>) h =
     map_option (\<lambda>r. if p r then f r else r) (hold_at d h)"
  by (simp add: hold_at_def lookup_by_update_where)

lemma hold_at_delete:
  "schema_ok d \<Longrightarrow>
   hold_at (d\<lparr>seat_holds := delete_where p (seat_holds d)\<rparr>) h =
     (case hold_at d h of None \<Rightarrow> None | Some q \<Rightarrow> if p q then None else Some q)"
  by (simp add: hold_at_def lookup_by_delete_where schema_ok_def)

text \<open>The invariants through the two lookups, the form the operations' proofs use.\<close>

lemma linked_iff:
  assumes "schema_ok d"
  shows "linked d \<longleftrightarrow>
    (\<forall>k r h. row_at d k = Some r \<longrightarrow> inv_hold r = Some h \<longrightarrow>
       (\<exists>q. hold_at d h = Some q \<and> hr_booking q = None \<and>
            k \<in> leg_keys (hr_trip q) (hr_seat q) (hr_legs q)))"
  using assms unfolding linked_def by (fastforce simp: row_at_Some hold_at_Some in_legs_key)

lemma exclusive_iff:
  assumes "schema_ok d"
  shows "exclusive d \<longleftrightarrow>
    (\<forall>k r. row_at d k = Some r \<longrightarrow> inv_booked r \<longrightarrow> inv_hold r = None)"
  using assms unfolding exclusive_def by (metis row_at_Some)

lemma covered_iff:
  assumes "schema_ok d"
  shows "covered d \<longleftrightarrow> (\<forall>h q. hold_at d h = Some q \<longrightarrow> hr_booking q = None \<longrightarrow> covers d q)"
  using assms unfolding covered_def by (auto simp: hold_at_Some)

text \<open>
  Every operation but a hold only takes references out of the inventory. Such a step keeps
  \<open>linked\<close> when the holds of the remaining references are untouched, and \<open>covered\<close> when the
  seats of the remaining active holds are.
\<close>

lemma hold_at_key: "hold_at d h = Some q \<Longrightarrow> hr_ref q = h"
  by (auto simp: hold_at_def dest: lookup_by_SomeD)

lemma linked_shrink:
  assumes "schema_ok d" and "schema_ok d'" and "linked d"
    and "\<And>k r h. row_at d' k = Some r \<Longrightarrow> inv_hold r = Some h \<Longrightarrow>
      (\<exists>r'. row_at d k = Some r' \<and> inv_hold r' = Some h) \<and> hold_at d' h = hold_at d h"
  shows "linked d'"
  using assms(3) unfolding linked_iff [OF assms(1)] linked_iff [OF assms(2)]
  by (metis assms(4))

lemma covered_shrink:
  assumes "schema_ok d" and "schema_ok d'" and "covered d"
    and "\<And>h q. hold_at d' h = Some q \<Longrightarrow> hr_booking q = None \<Longrightarrow>
      hold_at d h = Some q \<and> (\<forall>k. seat_at d k = Some (SHeld h) \<longrightarrow> seat_at d' k = Some (SHeld h))"
  shows "covered d'"
  unfolding covered_iff [OF assms(2)] covers_def
proof (intro allI impI ballI)
  fix h q k
  assume q: "hold_at d' h = Some q" "hr_booking q = None"
    and k: "k \<in> leg_keys (hr_trip q) (hr_seat q) (hr_legs q)"
  have "seat_at d k = Some (SHeld (hr_ref q))"
    using assms(3) assms(4) [OF q] q(2) k unfolding covered_iff [OF assms(1)] covers_def by blast
  then show "seat_at d' k = Some (SHeld (hr_ref q))"
    using assms(4) [OF q] hold_at_key [OF q(1)] by blast
qed

section \<open>How many rows a leg list selects\<close>

text \<open>
  The completeness check of a hold compares the number of selected rows with the number of
  requested legs. Under the unique index they agree exactly when the request lists distinct
  legs that all exist.
\<close>

lemma selected_legs:
  assumes "schema_ok d" and rs: "rs = filter (in_legs trip seat legs) (seat_inventory d)"
  shows "distinct (map inv_leg rs)"
    and "inv_leg ` set rs = {l \<in> set legs. row_at d (trip, seat, l) \<noteq> None}"
proof -
  have "distinct (map inv_key rs)"
    using assms by (auto simp: schema_ok_def distinct_map_filter)
  moreover have "inj_on inv_leg (set rs)" if "inj_on inv_key (set rs)"
    using that by (auto simp: rs in_legs_def inj_on_def inv_key_def)
  ultimately show "distinct (map inv_leg rs)"
    by (auto simp: distinct_map)
  show "inv_leg ` set rs = {l \<in> set legs. row_at d (trip, seat, l) \<noteq> None}"
    by (force simp: rs in_legs_def row_at_None inv_key_def)
qed

lemma selected_all_iff:
  assumes "schema_ok d"
  shows "length (filter (in_legs trip seat legs) (seat_inventory d)) = length legs \<longleftrightarrow>
         distinct legs \<and> (\<forall>l \<in> set legs. row_at d (trip, seat, l) \<noteq> None)"
proof -
  let ?rs = "filter (in_legs trip seat legs) (seat_inventory d)"
  let ?E = "{l \<in> set legs. row_at d (trip, seat, l) \<noteq> None}"
  have len: "length ?rs = card ?E"
    using selected_legs [OF assms refl, of trip seat legs]
    by (metis distinct_card length_map set_map)
  have sub: "card ?E \<le> card (set legs)" "card (set legs) \<le> length legs"
    by (auto intro: card_mono card_length)
  have "card ?E = length legs \<longleftrightarrow> distinct legs \<and> ?E = set legs"
  proof
    assume eq: "card ?E = length legs"
    then have "card (set legs) = length legs" and "card ?E = card (set legs)"
      using sub by linarith+
    then show "distinct legs \<and> ?E = set legs"
      by (simp add: card_distinct card_subset_eq)
  next
    assume "distinct legs \<and> ?E = set legs"
    then show "card ?E = length legs"
      by (simp add: distinct_card)
  qed
  then show ?thesis using len by auto
qed

section \<open>A concrete inventory\<close>

text \<open>One trip with two legs and two seats, nothing held, used by the witnesses.\<close>

definition free_row :: "nat \<Rightarrow> string \<Rightarrow> int \<Rightarrow> inv_row" where
  "free_row n seat leg =
     \<lparr>inv_id = of_nat n, inv_trip = 1, inv_seat = seat, inv_leg = leg, inv_booked = False, inv_hold = None\<rparr>"

definition sample_db :: db where
  "sample_db =
     \<lparr>seat_inventory =
        [free_row 1 ''1A'' 0, free_row 2 ''1A'' 1, free_row 3 ''2B'' 0, free_row 4 ''2B'' 1],
      seat_holds = [], idem_cache = []\<rparr>"

definition sample_env :: "uuid \<Rightarrow> time \<Rightarrow> call_env" where
  "sample_env u now = \<lparr>new_uuid = u, row_id = u, clock = (\<lambda>i. now), db_now = now\<rparr>"

definition fresh_session :: "db \<Rightarrow> fault list \<Rightarrow> session" where
  "fresh_session d fs = \<lparr>committed = d, work = d, faults = fs\<rparr>"

lemma fresh_session_simps [simp]:
  "committed (fresh_session d fs) = d" "no_faults (fresh_session d [])"
  by (simp_all add: fresh_session_def no_faults_def)

lemma sample_env_sel [simp]:
  "new_uuid (sample_env u now) = u" "row_id (sample_env u now) = u"
  "clock (sample_env u now) i = now" "db_now (sample_env u now) = now"
  by (simp_all add: sample_env_def)

lemma sample_ext_sel [simp]:
  "uuid_to_string sample_ext u = replicate (unat u) CHR ''u''"
  "add_seconds sample_ext t n = Some (t + n * 1000000)"
  "sub_days sample_ext t n = Some (t - n * 86400 * 1000000)"
  by (simp_all add: sample_ext_def)

lemma hold_refs_sample [simp]: "hold_refs sample_db = {}"
  by (simp add: hold_refs_def sample_db_def)

lemma seat_at_sample [simp]:
  "seat_at sample_db (1, ''1A'', 0) = Some SFree" "seat_at sample_db (1, ''1A'', 1) = Some SFree"
  "seat_at sample_db (1, ''2B'', 0) = Some SFree" "seat_at sample_db (1, ''2B'', 1) = Some SFree"
  by (simp_all add: seat_at_def row_at_def sample_db_def free_row_def inv_key_def seat_of_def)

lemmas sample_defs = sample_db_def free_row_def sample_env_def sample_ext_def fresh_session_def

lemma sample_db_ok [simp]: "db_ok sample_db" "schema_ok sample_db" "covered sample_db"
  by (simp_all add: sample_db_def free_row_def db_ok_def schema_ok_def linked_def exclusive_def
      covered_def inv_key_def)

end
