(* ===== verification/Hold.thy ===== *)
theory Hold
  imports Inventory
begin

text \<open>
  \<open>engine-core/src/hold.rs\<close>: the hold transaction, statement by statement, and
  \<open>atomic_hold\<close> around it. The serial effect of the transaction (\<open>hold_eff\<close>), the proof
  that the transaction implements it under every pattern of failures, its effect on seats
  and on the invariants, and what each reply of \<open>atomic_hold\<close> tells its caller.
\<close>

section \<open>The statements\<close>

text \<open>\<open>SELECT booked, hold_ref ... ORDER BY leg_index FOR UPDATE\<close>\<close>

definition select_legs ::
  "uuid \<Rightarrow> string \<Rightarrow> int list \<Rightarrow> db \<Rightarrow> (bool \<times> string option) list" where
  "select_legs trip seat legs d =
     map (\<lambda>r. (inv_booked r, inv_hold r))
       (sort_key inv_leg (filter (in_legs trip seat legs) (seat_inventory d)))"

text \<open>\<open>UPDATE seat_inventory SET hold_ref = $4 ...\<close>\<close>

definition mark_held :: "uuid \<Rightarrow> string \<Rightarrow> int list \<Rightarrow> string \<Rightarrow> db \<Rightarrow> db" where
  "mark_held trip seat legs hold_ref d =
     d\<lparr>seat_inventory :=
         update_where (in_legs trip seat legs) (\<lambda>r. r\<lparr>inv_hold := Some hold_ref\<rparr>) (seat_inventory d)\<rparr>"

text \<open>\<open>INSERT INTO seat_holds ...\<close>, rejected by the unique index on \<open>hold_ref\<close>.\<close>

definition insert_hold :: "hold_row \<Rightarrow> unit stmt" where
  "insert_hold q d =
     (if hr_ref q \<in> hold_refs d then Inl (UniqueViolation ''hold_ref'')
      else Inr ((), d\<lparr>seat_holds := seat_holds d @ [q]\<rparr>))"

definition new_hold_row ::
  "call_env \<Rightarrow> uuid \<Rightarrow> string \<Rightarrow> int list \<Rightarrow> string \<Rightarrow> string \<Rightarrow> string \<Rightarrow> time \<Rightarrow> hold_row" where
  "new_hold_row V trip seat legs operator cls hold_ref expires =
     \<lparr>hr_id = row_id V, hr_ref = hold_ref, hr_trip = trip, hr_seat = seat, hr_legs = legs,
      hr_class = cls, hr_operator = operator, hr_booking = None, hr_expires = expires,
      hr_created = db_now V\<rparr>"

text \<open>The loop over the locked rows: the first booked or held one is a conflict.\<close>

fun conflicting :: "(bool \<times> string option) list \<Rightarrow> bool" where
  "conflicting [] = False"
| "conflicting ((booked, existing_hold) # rows) =
     (if booked \<or> existing_hold \<noteq> None then True else conflicting rows)"

section \<open>The transaction and the operation\<close>

definition run_hold_txn ::
  "call_env \<Rightarrow> uuid \<Rightarrow> string \<Rightarrow> int list \<Rightarrow> string \<Rightarrow> string \<Rightarrow> string \<Rightarrow> time \<Rightarrow>
   (hold_failure_reason + unit) dbm" where
  "run_hold_txn V trip seat legs operator cls hold_ref expires =
     qbind tx_begin (\<lambda>_.
     qbind (tx_exec (query (select_legs trip seat legs))) (\<lambda>rows.
     if length rows \<noteq> length legs then qret (Inl IncompleteInventory)
     else if conflicting rows then qret (Inl SeatConflict)
     else
       qbind (tx_exec (command (mark_held trip seat legs hold_ref))) (\<lambda>_.
       qbind (tx_exec (insert_hold (new_hold_row V trip seat legs operator cls hold_ref expires))) (\<lambda>_.
       qbind tx_commit (\<lambda>_.
       qret (Inr ()))))))"

definition atomic_hold ::
  "ext \<Rightarrow> call_env \<Rightarrow> 'p publish \<Rightarrow> seat_hold_request \<Rightarrow> int \<Rightarrow> session \<times> 'p \<Rightarrow>
   (engine_error, atomic_hold_result) outcome \<times> session \<times> 'p" where
  "atomic_hold X V P req ttl_seconds w =
     (let (s, p) = w;
          trip_id = req_trip_id req; seat_no = req_seat_no req; legs = req_leg_indexes req;
          hold_ref = new_uuid V;
          hold_ref_str = uuid_to_string X hold_ref
      in case add_seconds X (clock V 0) ttl_seconds of
           None \<Rightarrow> (Panicked, s, p)
         | Some expires_at \<Rightarrow>
             (case run_hold_txn V trip_id seat_no legs (req_operator_id req)
                     (as_str (req_ttl_class req)) hold_ref_str expires_at s of
                (Inr (Inr u), s1) \<Rightarrow>
                  (Ok (hold_success hold_ref expires_at), s1,
                   snd (P (inventory_updated X (clock V 1) trip_id seat_no legs) p))
              | (Inr (Inl reason), s1) \<Rightarrow> (Ok (hold_failure reason [seat_no]), s1, p)
              | (Inl e, s1) \<Rightarrow> (Ok (hold_failure TransactionError [seat_no]), s1, p)))"

section \<open>The serial effect\<close>

definition place_hold :: "hold_row \<Rightarrow> db \<Rightarrow> db" where
  "place_hold q d =
     (mark_held (hr_trip q) (hr_seat q) (hr_legs q) (hr_ref q) d)\<lparr>seat_holds := seat_holds d @ [q]\<rparr>"

definition legs_present :: "hold_row \<Rightarrow> db \<Rightarrow> bool" where
  "legs_present q d \<longleftrightarrow>
     length (filter (in_legs (hr_trip q) (hr_seat q) (hr_legs q)) (seat_inventory d)) = length (hr_legs q)"

definition legs_free :: "hold_row \<Rightarrow> db \<Rightarrow> bool" where
  "legs_free q d \<longleftrightarrow>
     (\<forall>r \<in> set (seat_inventory d). in_legs (hr_trip q) (hr_seat q) (hr_legs q) r \<longrightarrow>
        \<not> inv_booked r \<and> inv_hold r = None)"

definition hold_eff :: "hold_row \<Rightarrow> db \<Rightarrow> (sqlx_error + (hold_failure_reason + unit)) \<times> db" where
  "hold_eff q d =
     (if \<not> legs_present q d then (Inr (Inl IncompleteInventory), d)
      else if \<not> legs_free q d then (Inr (Inl SeatConflict), d)
      else if hr_ref q \<in> hold_refs d then (Inl (UniqueViolation ''hold_ref''), d)
      else (Inr (Inr ()), place_hold q d))"

lemma conflicting_iff: "conflicting rows \<longleftrightarrow> (\<exists>(b, h) \<in> set rows. b \<or> h \<noteq> None)"
  by (induction rows rule: conflicting.induct) auto

lemma length_select_legs [simp]:
  "length (select_legs trip seat legs d) = length (filter (in_legs trip seat legs) (seat_inventory d))"
  by (simp add: select_legs_def)

lemma conflicting_select_legs:
  "conflicting (select_legs trip seat legs d) \<longleftrightarrow>
     (\<exists>r \<in> set (seat_inventory d). in_legs trip seat legs r \<and> (inv_booked r \<or> inv_hold r \<noteq> None))"
  by (auto simp: conflicting_iff select_legs_def)

text \<open>The transaction is its serial effect, committed or not.\<close>

lemmas hold_eff_defs =
  hold_eff_def legs_present_def legs_free_def place_hold_def new_hold_row_def insert_hold_def
  mark_held_def conflicting_select_legs

lemma hold_txn_replied:
  "run_hold_txn V trip seat legs operator cls hold_ref expires s = (Inr x, s') \<Longrightarrow>
   hold_eff (new_hold_row V trip seat legs operator cls hold_ref expires) (committed s) =
     (Inr x, committed s')"
  unfolding run_hold_txn_def
  by (auto dest!: call_dests simp: dbm_simps split: if_split_asm)
    (auto simp: hold_eff_defs split: if_splits)

lemma hold_txn_failed:
  "run_hold_txn V trip seat legs operator cls hold_ref expires s = (Inl e, s') \<Longrightarrow>
   (committed s' = committed s \<or>
    committed s' = snd (hold_eff (new_hold_row V trip seat legs operator cls hold_ref expires) (committed s))) \<and>
   (no_faults s \<longrightarrow>
    hold_eff (new_hold_row V trip seat legs operator cls hold_ref expires) (committed s) =
      (Inl e, committed s') \<and> committed s' = committed s)"
  unfolding run_hold_txn_def
  by (auto dest!: call_dests simp: dbm_simps split: if_split_asm)
    (auto simp: hold_eff_defs split: if_splits)

text \<open>The transaction is its serial effect, committed or not.\<close>

interpretation hold_txn: transaction
  "run_hold_txn V trip seat legs operator cls hold_ref expires"
  "hold_eff (new_hold_row V trip seat legs operator cls hold_ref expires)"
  for V trip seat legs operator cls hold_ref expires
  by unfold_locales (blast dest: hold_txn_replied hold_txn_failed)+

section \<open>What a hold does to seats and holds\<close>

abbreviation hold_keys :: "hold_row \<Rightarrow> seat_key set" where
  "hold_keys q \<equiv> leg_keys (hr_trip q) (hr_seat q) (hr_legs q)"

lemma legs_present_iff:
  "schema_ok d \<Longrightarrow>
   legs_present q d \<longleftrightarrow> distinct (hr_legs q) \<and> (\<forall>k \<in> hold_keys q. seat_at d k \<noteq> None)"
  by (auto simp: legs_present_def selected_all_iff seat_at_None leg_keys_def)

lemma legs_free_iff:
  "schema_ok d \<Longrightarrow>
   legs_free q d \<longleftrightarrow> (\<forall>k \<in> hold_keys q. seat_at d k \<noteq> None \<longrightarrow> seat_at d k = Some SFree)"
  using all_rows_iff [of d "\<lambda>k r. k \<in> hold_keys q \<longrightarrow> \<not> inv_booked r \<and> inv_hold r = None"]
  by (auto simp: legs_free_def in_legs_key seat_at_free_iff seat_at_None)

lemma row_at_place_hold:
  "row_at (place_hold q d) k =
     map_option (\<lambda>r. if k \<in> hold_keys q then r\<lparr>inv_hold := Some (hr_ref q)\<rparr> else r) (row_at d k)"
  using row_at_update_key [where P = "\<lambda>k. k \<in> hold_keys q"]
  by (simp add: place_hold_def mark_held_def in_legs_eq)

lemma seat_at_place_hold:
  assumes "schema_ok d" and "legs_free q d" and "seat_at d k \<noteq> None"
  shows "seat_at (place_hold q d) k = (if k \<in> hold_keys q then Some (SHeld (hr_ref q)) else seat_at d k)"
proof (cases "k \<in> hold_keys q")
  case True
  with assms have "seat_at d k = Some SFree"
    by (simp add: legs_free_iff)
  with True show ?thesis
    by (auto simp: seat_at_free_iff) (simp add: seat_at_def row_at_place_hold seat_of_def)
next
  case False
  then show ?thesis
    by (simp add: seat_at_def row_at_place_hold option.map_ident)
qed

lemma seat_at_place_hold_None:
  "seat_at (place_hold q d) k = None \<longleftrightarrow> seat_at d k = None"
  by (simp add: seat_at_def row_at_place_hold)

lemma hold_at_place_hold:
  "hold_at (place_hold q d) h =
     (case hold_at d h of None \<Rightarrow> if hr_ref q = h then Some q else None | Some x \<Rightarrow> Some x)"
  by (simp add: place_hold_def mark_held_def hold_at_def lookup_by_append split: option.splits)

lemma schema_ok_place_hold:
  "schema_ok d \<Longrightarrow> hr_ref q \<notin> hold_refs d \<Longrightarrow> schema_ok (place_hold q d)"
  by (simp add: place_hold_def mark_held_def schema_ok_def map_update_where_key hold_refs_def)

lemma db_ok_place_hold:
  assumes "db_ok d" and "legs_free q d" and new: "hr_ref q \<notin> hold_refs d" and "hr_booking q = None"
  shows "db_ok (place_hold q d)"
proof -
  have ok: "schema_ok d" "schema_ok (place_hold q d)"
    using assms by (auto intro: schema_ok_place_hold)
  have none: "hold_at d (hr_ref q) = None"
    using new by (simp add: hold_at_None)
  have lk: "linked d" and ex: "exclusive d"
    using assms(1) by auto
  have free: "\<not> inv_booked r \<and> inv_hold r = None" if "row_at d k = Some r" "k \<in> hold_keys q" for k r
    using that assms(2) ok(1) by (auto simp: legs_free_def row_at_Some in_legs_key)
  have "linked (place_hold q d)"
    using lk none assms(4) unfolding linked_iff [OF ok(1)] linked_iff [OF ok(2)]
    by (fastforce simp: row_at_place_hold hold_at_place_hold split: if_splits)
  moreover have "exclusive (place_hold q d)"
    using ex free unfolding exclusive_iff [OF ok(1)] exclusive_iff [OF ok(2)]
    by (fastforce simp: row_at_place_hold split: if_splits)
  ultimately show ?thesis
    using ok(2) by (simp add: db_ok_def)
qed

lemma covered_place_hold:
  assumes "db_ok d" and "covered d" and "legs_present q d" and "legs_free q d"
    and "hr_ref q \<notin> hold_refs d"
  shows "covered (place_hold q d)"
proof -
  have ok: "schema_ok d" "schema_ok (place_hold q d)"
    using assms by (auto intro: schema_ok_place_hold)
  have "covers (place_hold q d) x" if "hold_at d h = Some x" "hr_booking x = None" for h x
  proof -
    have "covers d x"
      using that assms(2) covered_iff [OF ok(1)] by blast
    moreover have "k \<notin> hold_keys q" if "seat_at d k = Some (SHeld h')" for k h'
      using that assms(4) by (auto simp: legs_free_iff [OF ok(1)])
    ultimately show ?thesis
      using assms(4) ok(1) by (fastforce simp: covers_def seat_at_place_hold)
  qed
  moreover have "covers (place_hold q d) q"
    using assms ok(1) by (auto simp: covers_def seat_at_place_hold legs_present_iff)
  ultimately show ?thesis
    unfolding covered_iff [OF ok(2)]
    by (auto simp: hold_at_place_hold split: option.splits if_splits)
qed

lemma hold_eff_invariants:
  assumes "db_ok d" and "hr_booking q = None"
  shows "db_ok (snd (hold_eff q d))" and "covered d \<Longrightarrow> covered (snd (hold_eff q d))"
  using assms by (auto simp: hold_eff_def intro: db_ok_place_hold covered_place_hold)

section \<open>What the caller of \<open>atomic_hold\<close> learns\<close>

definition request_row :: "ext \<Rightarrow> call_env \<Rightarrow> seat_hold_request \<Rightarrow> time \<Rightarrow> hold_row" where
  "request_row X V req expires =
     new_hold_row V (req_trip_id req) (req_seat_no req) (req_leg_indexes req) (req_operator_id req)
       (as_str (req_ttl_class req)) (uuid_to_string X (new_uuid V)) expires"

lemma request_row_sel [simp]:
  "hr_ref (request_row X V req t) = uuid_to_string X (new_uuid V)"
  "hr_trip (request_row X V req t) = req_trip_id req"
  "hr_seat (request_row X V req t) = req_seat_no req"
  "hr_legs (request_row X V req t) = req_leg_indexes req"
  "hr_booking (request_row X V req t) = None"
  "hr_expires (request_row X V req t) = t"
  by (simp_all add: request_row_def new_hold_row_def)

text \<open>The four ways an invocation ends.\<close>

lemma atomic_hold_cases:
  assumes "atomic_hold X V P req ttl (s, p) = (r, s', p')"
  obtains
    (panic) "r = Panicked" "add_seconds X (clock V 0) ttl = None" "s' = s" "p' = p"
  | (held) t where "r = Ok (hold_success (new_uuid V) t)" "add_seconds X (clock V 0) ttl = Some t"
      "hold_eff (request_row X V req t) (committed s) = (Inr (Inr ()), committed s')"
      "p' = snd (P (inventory_updated X (clock V 1) (req_trip_id req) (req_seat_no req) (req_leg_indexes req)) p)"
  | (refused) t reason where "r = Ok (hold_failure reason [req_seat_no req])" "p' = p"
      "add_seconds X (clock V 0) ttl = Some t"
      "hold_eff (request_row X V req t) (committed s) = (Inr (Inl reason), committed s')"
  | (failed) t e where "r = Ok (hold_failure TransactionError [req_seat_no req])" "p' = p"
      "add_seconds X (clock V 0) ttl = Some t"
      "committed s' = committed s \<or> committed s' = snd (hold_eff (request_row X V req t) (committed s))"
      "no_faults s \<longrightarrow> hold_eff (request_row X V req t) (committed s) = (Inl e, committed s')"
proof (cases "add_seconds X (clock V 0) ttl")
  case None
  with assms panic show ?thesis by (simp add: atomic_hold_def)
next
  case (Some t)
  obtain x s1 where run: "run_hold_txn V (req_trip_id req) (req_seat_no req) (req_leg_indexes req)
      (req_operator_id req) (as_str (req_ttl_class req)) (uuid_to_string X (new_uuid V)) t s = (x, s1)"
    by (metis surj_pair)
  show ?thesis
  proof (cases x)
    case (Inl e)
    with assms Some run
    have eqs: "r = Ok (hold_failure TransactionError [req_seat_no req])" "s1 = s'" "p' = p"
      by (simp_all add: atomic_hold_def)
    show ?thesis
      by (rule failed [OF eqs(1,3) Some])
        (use hold_txn_failed [OF run [unfolded Inl]] eqs in \<open>auto simp: request_row_def\<close>)
  next
    case (Inr y)
    note eff = hold_txn_replied [OF run [unfolded Inr], folded request_row_def]
    show ?thesis
    proof (cases y)
      case (Inl reason)
      with assms Some run Inr
      have eqs: "r = Ok (hold_failure reason [req_seat_no req])" "s1 = s'" "p' = p"
        by (simp_all add: atomic_hold_def)
      show ?thesis
        by (rule refused [OF eqs(1,3) Some]) (use eff eqs Inl in simp)
    next
      case (Inr u)
      with assms Some run \<open>x = Inr y\<close>
      have eqs: "r = Ok (hold_success (new_uuid V) t)" "s1 = s'"
        "p' = snd (P (inventory_updated X (clock V 1) (req_trip_id req) (req_seat_no req) (req_leg_indexes req)) p)"
        by (simp_all add: atomic_hold_def)
      show ?thesis
        by (rule held [OF eqs(1) Some _ eqs(3)]) (use eff eqs Inr in simp)
    qed
  qed
qed

text \<open>
  C19. On a database that does not fail, the reply of a hold is decided by the seats alone:
  \<open>INCOMPLETE_INVENTORY\<close> when the request repeats a leg or names one that has no inventory
  row, \<open>SEAT_CONFLICT\<close> when some requested leg is held or booked, and success, with the new
  reference and the expiry \<open>now + ttl\<close>, exactly when all requested legs are free.
\<close>

theorem atomic_hold_reply:
  assumes "schema_ok (committed s)" and "no_faults s"
    and "add_seconds X (clock V 0) ttl = Some t"
    and "uuid_to_string X (new_uuid V) \<notin> hold_refs (committed s)"
  shows "fst (atomic_hold X V P req ttl (s, p)) =
    Ok (let seats = map (\<lambda>l. seat_at (committed s) (req_trip_id req, req_seat_no req, l)) (req_leg_indexes req)
        in if \<not> distinct (req_leg_indexes req) \<or> None \<in> set seats
           then hold_failure IncompleteInventory [req_seat_no req]
           else if set seats \<subseteq> {Some SFree} then hold_success (new_uuid V) t
           else hold_failure SeatConflict [req_seat_no req])"
proof -
  define S where "S = (\<lambda>l. seat_at (committed s) (req_trip_id req, req_seat_no req, l)) ` set (req_leg_indexes req)"
  have present: "legs_present (request_row X V req t) (committed s) \<longleftrightarrow>
      distinct (req_leg_indexes req) \<and> None \<notin> S"
    by (force simp: S_def legs_present_iff [OF assms(1)] leg_keys_def)
  have free: "None \<notin> S \<Longrightarrow> legs_free (request_row X V req t) (committed s) \<longleftrightarrow> S \<subseteq> {Some SFree}"
    by (force simp: S_def legs_free_iff [OF assms(1)] leg_keys_def)
  obtain r s' p' where run: "atomic_hold X V P req ttl (s, p) = (r, s', p')"
    by (metis surj_pair)
  then have "r = Ok (if \<not> distinct (req_leg_indexes req) \<or> None \<in> S then hold_failure IncompleteInventory [req_seat_no req]
      else if S \<subseteq> {Some SFree} then hold_success (new_uuid V) t
      else hold_failure SeatConflict [req_seat_no req])"
    by (cases rule: atomic_hold_cases)
      (use assms present free in \<open>auto simp: hold_eff_def split: if_splits\<close>)
  with run show ?thesis
    by (simp add: S_def Let_def)
qed

definition sample_req :: "string \<Rightarrow> int list \<Rightarrow> seat_hold_request" where
  "sample_req seat legs =
     \<lparr>req_trip_id = 1, req_seat_no = seat, req_leg_indexes = legs, req_operator_id = ''op'',
      req_ttl_class = Short\<rparr>"

lemma sample_req_sel [simp]:
  "req_trip_id (sample_req z ls) = 1" "req_seat_no (sample_req z ls) = z"
  "req_leg_indexes (sample_req z ls) = ls"
  by (simp_all add: sample_req_def)

theorem atomic_hold_reply_witness:
  "fst (atomic_hold sample_ext (sample_env 7 1000) recording_publish (sample_req ''1A'' [1, 0]) 300
          (fresh_session sample_db [], [])) = Ok (hold_success 7 300001000)"
  using atomic_hold_reply [where s = "fresh_session sample_db []" and X = sample_ext
      and V = "sample_env 7 1000" and ttl = 300 and t = 300001000 and P = recording_publish
      and p = "[]" and req = "sample_req ''1A'' [1, 0]"]
  by simp

text \<open>
  C1. Under any pattern of database failures, the reply of a hold tells what was committed.
  Success means the whole hold is durable: every requested leg was free and is now held by
  the new reference, no other seat changed, the hold row carries the returned expiry, and
  \<open>inventory.updated\<close> was published afterwards. A refusal means nothing changed and nothing was
  published. \<open>TRANSACTION_ERROR\<close> means nothing changed, or the whole hold was committed and
  only the reply to the commit was lost. No database error escapes as an \<open>EngineError\<close>.
\<close>

theorem atomic_hold_durable:
  assumes "schema_ok (committed s)"
    and "atomic_hold X V P req ttl (s, p) = (r, s', p')"
  shows "case r of
      Ok (Success b h t) \<Rightarrow>
        b \<and> h = new_uuid V \<and> add_seconds X (clock V 0) ttl = Some t \<and>
        (\<forall>k. seat_at (committed s') k =
           (if k \<in> leg_keys (req_trip_id req) (req_seat_no req) (req_leg_indexes req)
            then Some (SHeld (uuid_to_string X h)) else seat_at (committed s) k)) \<and>
        (\<forall>k \<in> leg_keys (req_trip_id req) (req_seat_no req) (req_leg_indexes req).
           seat_at (committed s) k = Some SFree) \<and>
        hold_at (committed s') (uuid_to_string X h) = Some (request_row X V req t) \<and>
        p' = snd (P (inventory_updated X (clock V 1) (req_trip_id req) (req_seat_no req) (req_leg_indexes req)) p)
    | Ok (Failure b reason seats) \<Rightarrow>
        \<not> b \<and> seats = [req_seat_no req] \<and> p' = p \<and>
        (committed s' = committed s \<or>
         reason = TransactionError \<and>
         (\<exists>t. hold_eff (request_row X V req t) (committed s) = (Inr (Inr ()), committed s')))
    | Err e \<Rightarrow> False
    | Panicked \<Rightarrow> add_seconds X (clock V 0) ttl = None \<and> s' = s \<and> p' = p"
  using assms(2)
proof (cases rule: atomic_hold_cases)
  case (held t)
  let ?q = "request_row X V req t"
  from held(3) have eff: "legs_present ?q (committed s)" "legs_free ?q (committed s)"
    "hr_ref ?q \<notin> hold_refs (committed s)" "committed s' = place_hold ?q (committed s)"
    by (auto simp: hold_eff_def split: if_splits)
  have exist: "seat_at (committed s) k = Some SFree" if "k \<in> hold_keys ?q" for k
    using that eff by (simp add: legs_present_iff legs_free_iff assms(1))
  have "seat_at (committed s') k = (if k \<in> hold_keys ?q then Some (SHeld (hr_ref ?q)) else seat_at (committed s) k)" for k
    using exist [of k] seat_at_place_hold [OF assms(1) eff(2), of k] seat_at_place_hold_None [of ?q "committed s" k]
    by (cases "seat_at (committed s) k") (auto simp: eff(4))
  moreover have "hold_at (committed s') (hr_ref ?q) = Some ?q"
    using eff(3) by (simp add: eff(4) hold_at_place_hold hold_at_None [symmetric])
  ultimately show ?thesis
    using held exist by (simp add: hold_success_def)
qed (auto simp: hold_failure_def hold_eff_def split: if_splits)

theorem atomic_hold_durable_witness:
  "\<exists>s' p'. atomic_hold sample_ext (sample_env 7 1000) recording_publish (sample_req ''1A'' [0]) 300
              (fresh_session sample_db [], []) = (Ok (hold_success 7 300001000), s', p') \<and>
           seat_at (committed s') (1, ''1A'', 0) = Some (SHeld (replicate 7 CHR ''u'')) \<and>
           seat_at (committed s') (1, ''1A'', 1) = Some SFree"
proof -
  obtain r s' p' where run: "atomic_hold sample_ext (sample_env 7 1000) recording_publish
      (sample_req ''1A'' [0]) 300 (fresh_session sample_db [], []) = (r, s', p')"
    by (metis surj_pair)
  have "fst (atomic_hold sample_ext (sample_env 7 1000) recording_publish
      (sample_req ''1A'' [0]) 300 (fresh_session sample_db [], [])) = Ok (hold_success 7 300001000)"
    by code_simp
  with run have "r = Ok (hold_success 7 300001000)" by simp
  with run atomic_hold_durable [OF _ run] show ?thesis
    by (simp add: hold_success_def)
qed

text \<open>
  A hold keeps the database consistent under any pattern of failures: the unique
  indexes, every inventory reference names an active hold on that leg, no leg is both held
  and booked, and, where every active hold owned its legs before, it still does.
\<close>

theorem atomic_hold_invariants:
  assumes "db_ok (committed s)" and "atomic_hold X V P req ttl (s, p) = (r, s', p')"
  shows "db_ok (committed s') \<and> (covered (committed s) \<longrightarrow> covered (committed s'))"
proof -
  have "db_ok (snd (hold_eff (request_row X V req t) (committed s)))"
    and "covered (committed s) \<longrightarrow> covered (snd (hold_eff (request_row X V req t) (committed s)))" for t
    using hold_eff_invariants [OF assms(1)] by simp_all
  from assms(2) assms(1) this show ?thesis
    by (cases rule: atomic_hold_cases) (metis snd_conv)+
qed

theorem atomic_hold_invariants_witness:
  "db_ok sample_db \<and> covered sample_db \<and>
   db_ok (committed (fst (snd (atomic_hold sample_ext (sample_env 7 1000) recording_publish
     (sample_req ''1A'' [0]) 300 (fresh_session sample_db [], [])))))"
proof -
  obtain r s' p' where run: "atomic_hold sample_ext (sample_env 7 1000) recording_publish
      (sample_req ''1A'' [0]) 300 (fresh_session sample_db [], []) = (r, s', p')"
    by (metis surj_pair)
  with atomic_hold_invariants [OF _ run] show ?thesis by simp
qed

section \<open>Retrying\<close>

lemma hold_eff_idem: "snd (hold_eff q (snd (hold_eff q d))) = snd (hold_eff q d)"
proof (cases "snd (hold_eff q d) = d")
  case False
  then have eff: "snd (hold_eff q d) = place_hold q d"
    by (auto simp: hold_eff_def split: if_splits)
  have "hr_ref q \<in> hold_refs (place_hold q d)"
    by (simp add: place_hold_def hold_refs_def)
  then show ?thesis
    by (simp add: eff) (simp add: hold_eff_def)
qed simp

interpretation hold_retry: idempotent_transaction
  "run_hold_txn V trip seat legs operator cls hold_ref expires"
  "hold_eff (new_hold_row V trip seat legs operator cls hold_ref expires)"
  for V trip seat legs operator cls hold_ref expires
  by unfold_locales (rule hold_eff_idem)

text \<open>
  C35. The caller cannot repair a lost commit by asking again: when a hold answered
  \<open>TRANSACTION_ERROR\<close> but was committed, every later hold of one of its legs, under another
  reference and on a healthy database, is refused with \<open>SEAT_CONFLICT\<close>; the reference that
  could release the seat was never returned.
\<close>

theorem lost_commit_blocks_retry:
  assumes ok: "db_ok (committed s)"
    and first: "atomic_hold X V P req ttl (s, p) = (Ok (Failure b TransactionError seats), s1, p1)"
    and applied: "committed s1 \<noteq> committed s"
    and second: "no_faults s1" "add_seconds X (clock V2 0) ttl2 = Some t2"
      "atomic_hold X V2 P req2 ttl2 (s1, p1) = (r2, s2, p2)"
    and legs: "req_trip_id req2 = req_trip_id req" "req_seat_no req2 = req_seat_no req"
      "distinct (req_leg_indexes req2)" "set (req_leg_indexes req2) \<subseteq> set (req_leg_indexes req)"
      "req_leg_indexes req2 \<noteq> []"
  shows "r2 = Ok (hold_failure SeatConflict [req_seat_no req]) \<and> committed s2 = committed s1"
proof -
  have okd: "schema_ok (committed s)" using ok by auto
  from first applied obtain t where
    d1: "committed s1 = place_hold (request_row X V req t) (committed s)"
    and pre: "legs_present (request_row X V req t) (committed s)" "legs_free (request_row X V req t) (committed s)"
      "uuid_to_string X (new_uuid V) \<notin> hold_refs (committed s)"
    by (cases rule: atomic_hold_cases) (auto simp: hold_eff_def hold_success_def hold_failure_def split: if_splits)
  have ok1: "schema_ok (committed s1)"
    using okd pre(3) by (simp add: d1 schema_ok_place_hold)
  have held: "seat_at (committed s1) k = Some (SHeld (uuid_to_string X (new_uuid V)))"
    if "k \<in> hold_keys (request_row X V2 req2 t2)" for k
  proof -
    have "k \<in> hold_keys (request_row X V req t)" using that legs by (auto simp: leg_keys_def)
    with pre(1) have "seat_at (committed s) k \<noteq> None" by (simp add: legs_present_iff okd)
    with \<open>k \<in> hold_keys (request_row X V req t)\<close> show ?thesis
      using seat_at_place_hold [OF okd pre(2), of k] by (simp add: d1)
  qed
  have "legs_present (request_row X V2 req2 t2) (committed s1)"
    using held legs(3) by (simp add: legs_present_iff [OF ok1])
  moreover have "\<not> legs_free (request_row X V2 req2 t2) (committed s1)"
    using held legs(5) by (fastforce simp: legs_free_iff [OF ok1] neq_Nil_conv)
  ultimately have "hold_eff (request_row X V2 req2 t2) (committed s1) = (Inr (Inl SeatConflict), committed s1)"
    by (simp add: hold_eff_def)
  with second legs(2) show ?thesis
    by (cases rule: atomic_hold_cases [OF second(3)]) auto
qed

theorem lost_commit_blocks_retry_witness:
  "\<exists>s1 p1 s2 p2.
     atomic_hold sample_ext (sample_env 7 1000) recording_publish (sample_req ''1A'' [0, 1]) 300
       (fresh_session sample_db [Served, Served, Served, Served, Lost ''reset''], []) =
         (Ok (Failure False TransactionError [''1A'']), s1, p1) \<and>
     atomic_hold sample_ext (sample_env 8 2000) recording_publish (sample_req ''1A'' [0]) 300 (s1, p1) =
         (Ok (hold_failure SeatConflict [''1A'']), s2, p2) \<and> committed s2 = committed s1"
proof -
  let ?w = "(fresh_session sample_db [Served, Served, Served, Served, Lost ''reset''], [])"
  let ?run = "atomic_hold sample_ext (sample_env 7 1000) recording_publish (sample_req ''1A'' [0, 1]) 300 ?w"
  obtain r1 s1 p1 where run1: "?run = (r1, s1, p1)" by (metis surj_pair)
  have "fst ?run = Ok (Failure False TransactionError [''1A''])" by code_simp
  with run1 have first: "?run = (Ok (Failure False TransactionError [''1A'']), s1, p1)" by simp
  have "no_faults (fst (snd ?run))" and "seat_at (committed (fst (snd ?run))) (1, ''1A'', 0) \<noteq> Some SFree"
    by code_simp+
  with run1 have nf: "no_faults s1" and ne: "committed s1 \<noteq> committed (fst ?w)" by auto
  obtain r2 s2 p2 where run2: "atomic_hold sample_ext (sample_env 8 2000) recording_publish
      (sample_req ''1A'' [0]) 300 (s1, p1) = (r2, s2, p2)" by (metis surj_pair)
  from lost_commit_blocks_retry [OF _ first _ nf _ run2] ne
  have "r2 = Ok (hold_failure SeatConflict [''1A'']) \<and> committed s2 = committed s1" by simp
  with first run2 show ?thesis by blast
qed

section \<open>A database with one hold\<close>

text \<open>Both legs of seat 1A held by \<open>h\<close> until time 500, used by the witnesses.\<close>

definition sample_hold :: hold_row where
  "sample_hold = new_hold_row (sample_env 7 0) 1 ''1A'' [0, 1] ''op'' ''short'' ''h'' 500"

definition held_db :: db where
  "held_db = place_hold sample_hold sample_db"

lemma sample_hold_sel [simp]:
  "hr_ref sample_hold = ''h''" "hr_trip sample_hold = 1" "hr_seat sample_hold = ''1A''"
  "hr_legs sample_hold = [0, 1]" "hr_booking sample_hold = None" "hr_expires sample_hold = 500"
  by (simp_all add: sample_hold_def new_hold_row_def)

lemma sample_hold_fits: "legs_present sample_hold sample_db" "legs_free sample_hold sample_db"
  by (auto simp: legs_present_iff legs_free_iff leg_keys_def)

lemma held_db_ok [simp]: "db_ok held_db" "schema_ok held_db" "covered held_db"
proof -
  show "db_ok held_db"
    using sample_hold_fits by (simp add: held_db_def db_ok_place_hold)
  then show "schema_ok held_db" by auto
  show "covered held_db"
    using sample_hold_fits by (simp add: held_db_def covered_place_hold)
qed

lemma hold_at_held_db [simp]: "hold_at held_db ''h'' = Some sample_hold"
  by (simp add: held_db_def hold_at_place_hold) (simp add: hold_at_def sample_db_def)

lemma seat_at_held_db [simp]:
  "seat_at held_db (1, ''1A'', 0) = Some (SHeld ''h'')" "seat_at held_db (1, ''1A'', 1) = Some (SHeld ''h'')"
  "seat_at held_db (1, ''2B'', 0) = Some SFree" "seat_at held_db (1, ''2B'', 1) = Some SFree"
  using sample_hold_fits by (simp_all add: held_db_def seat_at_place_hold)

end
