(* ===== verification/Confirm.thy ===== *)
theory Confirm
  imports Hold
begin

text \<open>
  \<open>engine-core/src/confirm.rs\<close>: promoting a live hold to a booking. The transaction, its
  serial effect, what it does to seats and to the invariants, and what the caller learns.
\<close>

section \<open>The statements\<close>

text \<open>\<open>SELECT ... WHERE hold_ref = $1 AND expires_at > now() FOR UPDATE\<close>, at most one row.\<close>

definition select_live_hold :: "string \<Rightarrow> time \<Rightarrow> db \<Rightarrow> hold_row option" where
  "select_live_hold hold_ref now d =
     find (\<lambda>q. hr_ref q = hold_ref \<and> hr_expires q > now) (seat_holds d)"

definition select_held_ids :: "string \<Rightarrow> db \<Rightarrow> uuid list" where
  "select_held_ids hold_ref d =
     map inv_id (filter (\<lambda>r. inv_hold r = Some hold_ref) (seat_inventory d))"

definition book_held :: "string \<Rightarrow> db \<Rightarrow> db" where
  "book_held hold_ref d =
     d\<lparr>seat_inventory :=
         update_where (\<lambda>r. inv_hold r = Some hold_ref)
           (\<lambda>r. r\<lparr>inv_booked := True, inv_hold := None\<rparr>) (seat_inventory d)\<rparr>"

definition consume_hold :: "string \<Rightarrow> string \<Rightarrow> db \<Rightarrow> db" where
  "consume_hold hold_ref booking_id d =
     d\<lparr>seat_holds :=
         update_where (\<lambda>q. hr_ref q = hold_ref) (\<lambda>q. q\<lparr>hr_booking := Some booking_id\<rparr>)
           (seat_holds d)\<rparr>"

section \<open>The transaction and the operation\<close>

definition confirm_txn :: "call_env \<Rightarrow> string \<Rightarrow> string \<Rightarrow> (string + hold_row) dbm" where
  "confirm_txn V hold_ref booking_id =
     qbind tx_begin (\<lambda>_.
     qbind (tx_exec (query (select_live_hold hold_ref (db_now V)))) (\<lambda>hold.
     case hold of
       None \<Rightarrow> qret (Inl ''HOLD_EXPIRED_OR_MISSING'')
     | Some q \<Rightarrow>
         if hr_booking q \<noteq> None then qret (Inl ''HOLD_ALREADY_CONSUMED'')
         else
           qbind (tx_exec (query (select_held_ids hold_ref))) (\<lambda>_.
           qbind (tx_exec (command (book_held hold_ref))) (\<lambda>_.
           qbind (tx_exec (command (consume_hold hold_ref booking_id))) (\<lambda>_.
           qbind tx_commit (\<lambda>_.
           qret (Inr q)))))))"

definition confirm_booking ::
  "ext \<Rightarrow> call_env \<Rightarrow> 'p publish \<Rightarrow> string \<Rightarrow> string \<Rightarrow> session \<times> 'p \<Rightarrow>
   (engine_error, confirm_result) outcome \<times> session \<times> 'p" where
  "confirm_booking X V P hold_ref booking_id w =
     (let (s, p) = w
      in case confirm_txn V hold_ref booking_id s of
           (Inl e, s1) \<Rightarrow> (Err (Db e), s1, p)
         | (Inr (Inl reason), s1) \<Rightarrow> (Ok \<lparr>conf_success = False, conf_conflict = Some reason\<rparr>, s1, p)
         | (Inr (Inr q), s1) \<Rightarrow>
             (Ok \<lparr>conf_success = True, conf_conflict = None\<rparr>, s1,
              snd (P (inventory_updated X (clock V 0) (hr_trip q) (hr_seat q) (hr_legs q)) p)))"

section \<open>The serial effect\<close>

definition book_hold :: "string \<Rightarrow> string \<Rightarrow> db \<Rightarrow> db" where
  "book_hold hold_ref booking_id d = consume_hold hold_ref booking_id (book_held hold_ref d)"

definition confirm_eff ::
  "string \<Rightarrow> string \<Rightarrow> time \<Rightarrow> db \<Rightarrow> (sqlx_error + (string + hold_row)) \<times> db" where
  "confirm_eff hold_ref booking_id now d =
     (case select_live_hold hold_ref now d of
        None \<Rightarrow> (Inr (Inl ''HOLD_EXPIRED_OR_MISSING''), d)
      | Some q \<Rightarrow>
          if hr_booking q \<noteq> None then (Inr (Inl ''HOLD_ALREADY_CONSUMED''), d)
          else (Inr (Inr q), book_hold hold_ref booking_id d))"

lemma total_confirm_txn: "total (confirm_txn V h b)"
  unfolding confirm_txn_def by (intro total_intros)

lemma confirm_txn_replied:
  "confirm_txn V h b s = (Inr x, s') \<Longrightarrow>
   confirm_eff h b (db_now V) (committed s) = (Inr x, committed s')"
  unfolding confirm_txn_def
  by (auto dest!: call_frames simp: dbm_simps confirm_eff_def book_hold_def)

lemma confirm_txn_failed:
  "confirm_txn V h b s = (Inl e, s') \<Longrightarrow>
   (committed s' = committed s \<or> committed s' = snd (confirm_eff h b (db_now V) (committed s))) \<and>
   \<not> no_faults s"
  using totalD [OF total_confirm_txn] unfolding confirm_txn_def
  by (auto dest!: call_frames simp: dbm_simps confirm_eff_def book_hold_def)

lemma select_live_hold_eq:
  "schema_ok d \<Longrightarrow>
   select_live_hold h now d =
     (case hold_at d h of None \<Rightarrow> None | Some q \<Rightarrow> if now < hr_expires q then Some q else None)"
  by (simp add: select_live_hold_def hold_at_def find_key_and schema_ok_def)

interpretation confirm_txn: transaction
  "confirm_txn V h b" "confirm_eff h b (db_now V)" for V h b
  by unfold_locales (use confirm_txn_replied confirm_txn_failed in \<open>fast\<close>)+

section \<open>What a confirmation does to seats and holds\<close>

lemma row_at_book_hold:
  "row_at (book_hold h b d) k =
     map_option (\<lambda>r. if inv_hold r = Some h then r\<lparr>inv_booked := True, inv_hold := None\<rparr> else r) (row_at d k)"
  by (simp add: book_hold_def consume_hold_def book_held_def row_at_update)

lemma hold_at_book_hold:
  "hold_at (book_hold h b d) g =
     map_option (\<lambda>q. if hr_ref q = h then q\<lparr>hr_booking := Some b\<rparr> else q) (hold_at d g)"
  by (simp add: book_hold_def consume_hold_def book_held_def hold_at_def lookup_by_update_where)

lemma book_hold_row:
  "row_at (book_hold h b d) k = Some r \<Longrightarrow> inv_hold r = Some g \<Longrightarrow> row_at d k = Some r \<and> g \<noteq> h"
  by (cases "row_at d k"; cases "inv_hold (the (row_at d k)) = Some h")
    (auto simp: row_at_book_hold)

lemma hold_at_book_hold_other: "g \<noteq> h \<Longrightarrow> hold_at (book_hold h b d) g = hold_at d g"
  by (cases "hold_at d g") (auto simp: hold_at_book_hold dest: hold_at_key)

lemma hold_at_book_hold_active:
  "hold_at (book_hold h b d) g = Some q \<Longrightarrow> hr_booking q = None \<Longrightarrow> hold_at d g = Some q \<and> g \<noteq> h"
  by (cases "hold_at d g") (auto simp: hold_at_book_hold split: if_splits dest: hold_at_key)

lemma schema_ok_book_hold [simp]: "schema_ok (book_hold h b d) = schema_ok d"
  by (simp add: book_hold_def consume_hold_def book_held_def schema_ok_def map_update_where_key)

lemma seat_at_book_hold:
  assumes "db_ok d"
  shows "seat_at (book_hold h b d) k =
    (if seat_at d k = Some (SHeld h) then Some SBooked else seat_at d k)"
  using seat_at_held_iff [OF assms, of k h]
  by (cases "row_at d k") (auto simp: seat_at_def row_at_book_hold seat_of_def)

lemma db_ok_book_hold:
  assumes "db_ok d"
  shows "db_ok (book_hold h b d)"
proof -
  have ok: "schema_ok d" "schema_ok (book_hold h b d)" and lk: "linked d" and ex: "exclusive d"
    using assms by auto
  have "linked (book_hold h b d)"
    by (rule linked_shrink [OF ok lk])
      (auto dest: book_hold_row simp: hold_at_book_hold_other)
  moreover have "exclusive (book_hold h b d)"
    using ex unfolding exclusive_iff [OF ok(1)] exclusive_iff [OF ok(2)]
    by (auto simp: row_at_book_hold split: if_splits)
  ultimately show ?thesis
    using ok(2) by (simp add: db_ok_def)
qed

lemma covered_book_hold:
  assumes "db_ok d" and "covered d"
  shows "covered (book_hold h b d)"
proof (rule covered_shrink)
  show "schema_ok d" "schema_ok (book_hold h b d)" "covered d"
    using assms by auto
  show "hold_at d g = Some q \<and> (\<forall>k. seat_at d k = Some (SHeld g) \<longrightarrow> seat_at (book_hold h b d) k = Some (SHeld g))"
    if "hold_at (book_hold h b d) g = Some q" "hr_booking q = None" for g q
    using hold_at_book_hold_active [OF that] by (simp add: seat_at_book_hold assms(1))
qed

lemma confirm_eff_invariants:
  assumes "db_ok d"
  shows "db_ok (snd (confirm_eff h b now d))" and "covered d \<Longrightarrow> covered (snd (confirm_eff h b now d))"
  using assms by (auto simp: confirm_eff_def intro: db_ok_book_hold covered_book_hold split: option.splits)

lemma confirm_eff_idem: "snd (confirm_eff h b now (snd (confirm_eff h b now d))) = snd (confirm_eff h b now d)"
proof (cases "snd (confirm_eff h b now d) = d")
  case False
  then have eff: "snd (confirm_eff h b now d) = book_hold h b d"
    by (auto simp: confirm_eff_def split: option.splits if_splits)
  have "hr_booking q \<noteq> None" if "select_live_hold h now (book_hold h b d) = Some q" for q
    using that
    by (auto simp: select_live_hold_def book_hold_def consume_hold_def book_held_def
        find_Some_iff update_where_def split: if_splits)
  then show ?thesis
    by (auto simp: eff) (auto simp: confirm_eff_def split: option.splits)
qed simp

interpretation confirm_retry: idempotent_transaction
  "confirm_txn V h b" "confirm_eff h b (db_now V)" for V h b
  by unfold_locales (rule confirm_eff_idem)

section \<open>What the caller of \<open>confirm_booking\<close> learns\<close>

lemma confirm_booking_cases:
  assumes "confirm_booking X V P h b (s, p) = (r, s', p')"
  obtains
    (booked) q where "r = Ok \<lparr>conf_success = True, conf_conflict = None\<rparr>"
      "confirm_eff h b (db_now V) (committed s) = (Inr (Inr q), committed s')"
      "p' = snd (P (inventory_updated X (clock V 0) (hr_trip q) (hr_seat q) (hr_legs q)) p)"
  | (refused) reason where "r = Ok \<lparr>conf_success = False, conf_conflict = Some reason\<rparr>" "p' = p"
      "confirm_eff h b (db_now V) (committed s) = (Inr (Inl reason), committed s')"
  | (failed) e where "r = Err (Db e)" "p' = p" "\<not> no_faults s"
      "committed s' = committed s \<or> committed s' = snd (confirm_eff h b (db_now V) (committed s))"
proof -
  obtain x s1 where run: "confirm_txn V h b s = (x, s1)" by (metis surj_pair)
  show ?thesis
  proof (cases x)
    case (Inl e)
    with assms run have eqs: "r = Err (Db e)" "s1 = s'" "p' = p"
      by (simp_all add: confirm_booking_def)
    show ?thesis
      by (rule failed [OF eqs(1,3)]) (use confirm_txn_failed [OF run [unfolded Inl]] eqs in simp_all)
  next
    case (Inr y)
    note eff = confirm_txn_replied [OF run [unfolded Inr]]
    show ?thesis
    proof (cases y)
      case (Inl reason)
      with assms run Inr
      have eqs: "r = Ok \<lparr>conf_success = False, conf_conflict = Some reason\<rparr>" "s1 = s'" "p' = p"
        by (simp_all add: confirm_booking_def)
      show ?thesis by (rule refused [OF eqs(1,3)]) (use eff eqs Inl in simp)
    next
      case (Inr q)
      with assms run \<open>x = Inr y\<close>
      have eqs: "r = Ok \<lparr>conf_success = True, conf_conflict = None\<rparr>" "s1 = s'"
        "p' = snd (P (inventory_updated X (clock V 0) (hr_trip q) (hr_seat q) (hr_legs q)) p)"
        by (simp_all add: confirm_booking_def)
      show ?thesis by (rule booked [OF eqs(1) _ eqs(3)]) (use eff eqs Inr in simp)
    qed
  qed
qed

lemma confirm_eff_booked:
  assumes "schema_ok d"
  shows "confirm_eff h b now d = (Inr (Inr q), d') \<longleftrightarrow>
    hold_at d h = Some q \<and> now < hr_expires q \<and> hr_booking q = None \<and> d' = book_hold h b d"
  by (auto simp: confirm_eff_def select_live_hold_eq assms split: option.splits if_splits)

text \<open>
  C20. On a database that does not fail, a confirmation is decided by the hold row alone:
  \<open>HOLD_EXPIRED_OR_MISSING\<close> when there is none or its expiry is not in the future (even if
  the reaper has not run), \<open>HOLD_ALREADY_CONSUMED\<close> when it already carries a booking, success
  otherwise.
\<close>

theorem confirm_booking_reply:
  assumes "schema_ok (committed s)" and "no_faults s"
  shows "fst (confirm_booking X V P h b (s, p)) =
    Ok (case hold_at (committed s) h of
          None \<Rightarrow> \<lparr>conf_success = False, conf_conflict = Some ''HOLD_EXPIRED_OR_MISSING''\<rparr>
        | Some q \<Rightarrow>
            if hr_expires q \<le> db_now V
            then \<lparr>conf_success = False, conf_conflict = Some ''HOLD_EXPIRED_OR_MISSING''\<rparr>
            else if hr_booking q \<noteq> None
            then \<lparr>conf_success = False, conf_conflict = Some ''HOLD_ALREADY_CONSUMED''\<rparr>
            else \<lparr>conf_success = True, conf_conflict = None\<rparr>)"
proof -
  obtain r s' p' where run: "confirm_booking X V P h b (s, p) = (r, s', p')"
    by (metis surj_pair)
  then show ?thesis
    by (cases rule: confirm_booking_cases)
      (use assms run in \<open>auto simp: confirm_eff_def select_live_hold_eq split: option.splits if_splits\<close>)
qed

theorem confirm_booking_reply_witness:
  "fst (confirm_booking sample_ext (sample_env 1 100) recording_publish ''h'' ''BK''
          (fresh_session held_db [], [])) = Ok \<lparr>conf_success = True, conf_conflict = None\<rparr>"
  using confirm_booking_reply [where s = "fresh_session held_db []" and V = "sample_env 1 100" and h = "''h''"
      and X = sample_ext and P = recording_publish and p = "[]" and b = "''BK''"]
  by simp

text \<open>
  C5. Under any pattern of database failures, a confirmation that answers success has booked
  every seat the hold owned and nothing else, has written the booking into the hold row, and
  published \<open>inventory.updated\<close> after the commit; the hold was live. A refusal changed and
  published nothing. An error means nothing changed or the whole confirmation was committed.
\<close>

theorem confirm_booking_durable:
  assumes "db_ok (committed s)"
    and "confirm_booking X V P h b (s, p) = (r, s', p')"
  shows "case r of
      Ok c \<Rightarrow>
        if conf_success c then
          (\<exists>q. hold_at (committed s) h = Some q \<and> db_now V < hr_expires q \<and> hr_booking q = None \<and>
               hold_at (committed s') h = Some (q\<lparr>hr_booking := Some b\<rparr>) \<and>
               (covered (committed s) \<longrightarrow>
                  (\<forall>k \<in> hold_keys q. seat_at (committed s') k = Some SBooked)) \<and>
               p' = snd (P (inventory_updated X (clock V 0) (hr_trip q) (hr_seat q) (hr_legs q)) p)) \<and>
          (\<forall>k. seat_at (committed s') k =
             (if seat_at (committed s) k = Some (SHeld h) then Some SBooked else seat_at (committed s) k))
        else committed s' = committed s \<and> p' = p
    | Err e \<Rightarrow>
        p' = p \<and> (\<exists>m. e = Db m) \<and>
        (committed s' = committed s \<or> committed s' = book_hold h b (committed s))
    | Panicked \<Rightarrow> False"
  using assms(2)
proof (cases rule: confirm_booking_cases)
  case (booked q)
  have ok: "schema_ok (committed s)" using assms(1) by auto
  from booked(2) have q: "hold_at (committed s) h = Some q" "db_now V < hr_expires q" "hr_booking q = None"
    and d': "committed s' = book_hold h b (committed s)"
    by (simp_all add: confirm_eff_booked ok)
  have "seat_at (committed s) k = Some (SHeld h)" if "covered (committed s)" "k \<in> hold_keys q" for k
    using that q hold_at_key [OF q(1)] by (auto simp: covered_iff [OF ok] covers_def)
  then show ?thesis
    using booked q hold_at_key [OF q(1)]
    by (auto simp: d' seat_at_book_hold [OF assms(1)] hold_at_book_hold)
qed (auto simp: confirm_eff_def split: option.splits if_splits)

theorem confirm_booking_durable_witness:
  "\<exists>s' p'. confirm_booking sample_ext (sample_env 1 100) recording_publish ''h'' ''BK''
      (fresh_session held_db [], []) = (Ok \<lparr>conf_success = True, conf_conflict = None\<rparr>, s', p') \<and>
     seat_at (committed s') (1, ''1A'', 0) = Some SBooked \<and>
     seat_at (committed s') (1, ''2B'', 0) = Some SFree"
proof -
  let ?run = "confirm_booking sample_ext (sample_env 1 100) recording_publish ''h'' ''BK''
      (fresh_session held_db [], [])"
  obtain r s' p' where run: "?run = (r, s', p')" by (metis surj_pair)
  have "fst ?run = Ok \<lparr>conf_success = True, conf_conflict = None\<rparr>" by code_simp
  with run have "r = Ok \<lparr>conf_success = True, conf_conflict = None\<rparr>" by simp
  with run confirm_booking_durable [OF _ run] show ?thesis by simp
qed

text \<open>
  A confirmation keeps the database consistent under any pattern of failures, and asking
  again with the same arguments after an error, at the same time and on a healthy database,
  leaves exactly the state of one confirmation.
\<close>

theorem confirm_booking_invariants:
  assumes "db_ok (committed s)" and "confirm_booking X V P h b (s, p) = (r, s', p')"
  shows "db_ok (committed s') \<and> (covered (committed s) \<longrightarrow> covered (committed s')) \<and>
    ((\<exists>e. r = Err e) \<and> no_faults s' \<longrightarrow>
       committed (fst (snd (confirm_booking X V P h b (s', p')))) =
         snd (confirm_eff h b (db_now V) (committed s)))"
proof -
  have run: "s' = snd (confirm_txn V h b s)" "(\<exists>e. r = Err e) \<longrightarrow> (\<exists>e. confirm_txn V h b s = (Inl e, s'))"
    using assms(2) by (auto simp: confirm_booking_def split: prod.splits sum.splits)
  have again: "fst (snd (confirm_booking X V P h b (t, p'))) = snd (confirm_txn V h b t)" for t
    by (auto simp: confirm_booking_def split: prod.splits sum.splits)
  show ?thesis
    using run confirm_txn.preserves [where I = db_ok, OF assms(1) confirm_eff_invariants(1)]
      confirm_txn.preserves [where I = "\<lambda>d. db_ok d \<and> covered d" and s = s and V = V and h = h and b = b]
      confirm_eff_invariants [OF assms(1)] confirm_retry.retried assms(1)
    by (auto simp: again)
qed

theorem confirm_booking_invariants_witness:
  "\<exists>e s' p'. confirm_booking sample_ext (sample_env 1 100) recording_publish ''h'' ''BK''
        (fresh_session held_db [Served, Served, Refused ''timeout''], []) = (Err e, s', p') \<and>
      db_ok (committed s') \<and>
      committed (fst (snd (confirm_booking sample_ext (sample_env 1 100) recording_publish ''h'' ''BK'' (s', p')))) =
        snd (confirm_eff ''h'' ''BK'' 100 held_db)"
proof -
  let ?run = "confirm_booking sample_ext (sample_env 1 100) recording_publish ''h'' ''BK''
        (fresh_session held_db [Served, Served, Refused ''timeout''], [])"
  obtain r s' p' where run: "?run = (r, s', p')" by (metis surj_pair)
  have "fst ?run = Err (Db (DriverError ''timeout''))" and "no_faults (fst (snd ?run))" by code_simp+
  with run have r: "r = Err (Db (DriverError ''timeout''))" and nf: "no_faults s'" by simp_all
  with run confirm_booking_invariants [OF _ run] show ?thesis by simp
qed

end
