(* ===== verification/Cancel.thy ===== *)
theory Cancel
  imports Hold
begin

text \<open>
  \<open>engine-core/src/cancel.rs\<close>: clearing seats of a passenger or booking. The operation
  looks at the inventory only: whatever was booked or held on the named legs is free
  afterwards.
\<close>

definition clear_legs :: "uuid \<Rightarrow> string \<Rightarrow> int list \<Rightarrow> db \<Rightarrow> db" where
  "clear_legs trip seat legs d =
     d\<lparr>seat_inventory :=
         update_where (in_legs trip seat legs)
           (\<lambda>r. r\<lparr>inv_booked := False, inv_hold := None\<rparr>) (seat_inventory d)\<rparr>"

definition cancel_txn :: "uuid \<Rightarrow> string \<Rightarrow> int list \<Rightarrow> unit dbm" where
  "cancel_txn trip seat legs =
     qbind tx_begin (\<lambda>_.
     qbind (tx_exec (command (clear_legs trip seat legs))) (\<lambda>_.
     qbind tx_commit (\<lambda>_.
     qret ())))"

definition cancel_booking_seats ::
  "ext \<Rightarrow> call_env \<Rightarrow> 'p publish \<Rightarrow> uuid \<Rightarrow> string \<Rightarrow> int list \<Rightarrow> session \<times> 'p \<Rightarrow>
   (engine_error, cancel_result) outcome \<times> session \<times> 'p" where
  "cancel_booking_seats X V P trip_id seat_no leg_indexes w =
     (let (s, p) = w
      in case cancel_txn trip_id seat_no leg_indexes s of
           (Inl e, s1) \<Rightarrow> (Err (Db e), s1, p)
         | (Inr u, s1) \<Rightarrow>
             (Ok \<lparr>can_success = True\<rparr>, s1,
              snd (P (inventory_updated X (clock V 0) trip_id seat_no leg_indexes) p)))"

definition cancel_eff :: "uuid \<Rightarrow> string \<Rightarrow> int list \<Rightarrow> db \<Rightarrow> (sqlx_error + unit) \<times> db" where
  "cancel_eff trip seat legs d = (Inr (), clear_legs trip seat legs d)"

lemma total_cancel_txn: "total (cancel_txn trip seat legs)"
  unfolding cancel_txn_def by (intro total_intros)

lemma cancel_txn_replied:
  "cancel_txn trip seat legs s = (Inr x, s') \<Longrightarrow>
   cancel_eff trip seat legs (committed s) = (Inr x, committed s')"
  unfolding cancel_txn_def by (auto dest!: call_frames simp: dbm_simps cancel_eff_def)

lemma cancel_txn_failed:
  "cancel_txn trip seat legs s = (Inl e, s') \<Longrightarrow>
   (committed s' = committed s \<or> committed s' = snd (cancel_eff trip seat legs (committed s))) \<and>
   \<not> no_faults s"
  using totalD [OF total_cancel_txn] unfolding cancel_txn_def
  by (auto dest!: call_frames simp: dbm_simps cancel_eff_def)

lemma row_at_clear_legs:
  "row_at (clear_legs trip seat legs d) k =
     map_option (\<lambda>r. if k \<in> leg_keys trip seat legs then r\<lparr>inv_booked := False, inv_hold := None\<rparr> else r)
       (row_at d k)"
  using row_at_update_key [where P = "\<lambda>k. k \<in> leg_keys trip seat legs"]
  by (simp add: clear_legs_def in_legs_eq)

lemma seat_at_clear_legs:
  "seat_at (clear_legs trip seat legs d) k =
     (if k \<in> leg_keys trip seat legs then map_option (\<lambda>_. SFree) (seat_at d k) else seat_at d k)"
  by (cases "row_at d k") (auto simp: seat_at_def row_at_clear_legs seat_of_def)

lemma hold_at_clear_legs [simp]: "hold_at (clear_legs trip seat legs d) h = hold_at d h"
  by (simp add: clear_legs_def)

lemma seat_holds_clear_legs [simp]: "seat_holds (clear_legs trip seat legs d) = seat_holds d"
  by (simp add: clear_legs_def)

lemma schema_ok_clear_legs [simp]: "schema_ok (clear_legs trip seat legs d) = schema_ok d"
  by (simp add: clear_legs_def schema_ok_update_inv)

lemma clear_legs_row:
  "row_at (clear_legs trip seat legs d) k = Some r \<Longrightarrow> inv_hold r = Some g \<Longrightarrow> row_at d k = Some r"
  by (cases "row_at d k"; cases "k \<in> leg_keys trip seat legs") (auto simp: row_at_clear_legs)

lemma db_ok_clear_legs:
  assumes "db_ok d"
  shows "db_ok (clear_legs trip seat legs d)"
proof -
  have ok: "schema_ok d" "schema_ok (clear_legs trip seat legs d)" and lk: "linked d" and ex: "exclusive d"
    using assms by auto
  have "linked (clear_legs trip seat legs d)"
    by (rule linked_shrink [OF ok lk]) (auto dest: clear_legs_row)
  moreover have "exclusive (clear_legs trip seat legs d)"
    using ex unfolding exclusive_iff [OF ok(1)] exclusive_iff [OF ok(2)]
    by (auto simp: row_at_clear_legs split: if_splits)
  ultimately show ?thesis
    using ok(2) by (simp add: db_ok_def)
qed

lemma covered_clear_legs:
  assumes "db_ok d" and "covered d"
    and "\<And>k h. k \<in> leg_keys trip seat legs \<Longrightarrow> seat_at d k \<noteq> Some (SHeld h)"
  shows "covered (clear_legs trip seat legs d)"
proof (rule covered_shrink)
  show "schema_ok d" "schema_ok (clear_legs trip seat legs d)" "covered d"
    using assms by auto
qed (use assms(3) in \<open>auto simp: seat_at_clear_legs\<close>)

lemma clear_legs_idem: "clear_legs trip seat legs (clear_legs trip seat legs d) = clear_legs trip seat legs d"
  by (simp add: clear_legs_def update_where_def in_legs_def cong: map_cong)

interpretation cancel_txn: idempotent_transaction
  "cancel_txn trip seat legs" "cancel_eff trip seat legs" for trip seat legs
proof unfold_locales
  show "snd (cancel_eff trip seat legs (snd (cancel_eff trip seat legs d))) =
      snd (cancel_eff trip seat legs d)" for d
    by (simp add: cancel_eff_def clear_legs_idem)
qed (use cancel_txn_replied cancel_txn_failed in \<open>blast+\<close>)

lemma cancel_committed:
  "cancel_booking_seats X V P trip seat legs (s, p) = (r, s', p') \<Longrightarrow>
   committed s' = committed s \<or> committed s' = clear_legs trip seat legs (committed s)"
  using cancel_txn.all_or_nothing [of trip seat legs s]
  by (auto simp: cancel_booking_seats_def cancel_eff_def split: prod.splits sum.splits)

text \<open>
  C22. A cancellation that answers success has made every named leg that exists free and
  changed no other seat and no hold row, under any pattern of failures; an error leaves
  everything as it was or as the whole cancellation leaves it. It keeps the database
  consistent, and where no named leg was held every active hold still owns its legs.
\<close>

theorem cancel_booking_seats_effect:
  assumes "db_ok (committed s)"
    and "cancel_booking_seats X V P trip seat legs (s, p) = (r, s', p')"
  shows "db_ok (committed s') \<and>
    (covered (committed s) \<and> (\<forall>k \<in> leg_keys trip seat legs. \<forall>h. seat_at (committed s) k \<noteq> Some (SHeld h)) \<longrightarrow>
       covered (committed s')) \<and>
    seat_holds (committed s') = seat_holds (committed s) \<and>
    (case r of
       Ok c \<Rightarrow> can_success c \<and>
         (\<forall>k. seat_at (committed s') k =
            (if k \<in> leg_keys trip seat legs \<and> seat_at (committed s) k \<noteq> None
             then Some SFree else seat_at (committed s) k)) \<and>
         p' = snd (P (inventory_updated X (clock V 0) trip seat legs) p)
     | Err e \<Rightarrow> p' = p \<and>
         (committed s' = committed s \<or> committed s' = clear_legs trip seat legs (committed s))
     | Panicked \<Rightarrow> False)"
proof -
  obtain x s1 where run: "cancel_txn trip seat legs s = (x, s1)" by (metis surj_pair)
  have d': "committed s' = committed s \<and> (\<exists>e. x = Inl e) \<or> committed s' = clear_legs trip seat legs (committed s)"
    and s1: "s1 = s'"
    using assms(2) run cancel_txn_replied [of trip seat legs s _ s1] cancel_txn_failed [of trip seat legs s _ s1]
    by (cases x; auto simp: cancel_booking_seats_def cancel_eff_def)+
  have seats: "map_option (\<lambda>_. SFree) y = (if y \<noteq> None then Some SFree else None)" for y :: "seat option"
    by (cases y) simp_all
  show ?thesis
    using assms d' s1 run db_ok_clear_legs [OF assms(1), of trip seat legs] covered_clear_legs [OF assms(1), of trip seat legs]
    by (cases x) (auto simp: cancel_booking_seats_def seat_at_clear_legs seats)
qed

theorem cancel_booking_seats_effect_witness:
  "\<exists>s' p'. cancel_booking_seats sample_ext (sample_env 1 100) recording_publish 1 ''2B'' [0, 7]
      (fresh_session held_db [], []) = (Ok \<lparr>can_success = True\<rparr>, s', p') \<and>
     db_ok (committed s') \<and> covered (committed s') \<and>
     seat_at (committed s') (1, ''2B'', 7) = None \<and>
     seat_at (committed s') (1, ''1A'', 0) = Some (SHeld ''h'')"
proof -
  let ?run = "cancel_booking_seats sample_ext (sample_env 1 100) recording_publish 1 ''2B'' [0, 7]
      (fresh_session held_db [], [])"
  obtain r s' p' where run: "?run = (r, s', p')" by (metis surj_pair)
  have "fst ?run = Ok \<lparr>can_success = True\<rparr>" by code_simp
  with run have r: "r = Ok \<lparr>can_success = True\<rparr>" by simp
  have "seat_at held_db (1, ''2B'', 7) = None" by code_simp
  with r run cancel_booking_seats_effect [OF _ run] show ?thesis
    by (auto simp: leg_keys_def)
qed

end
