(* ===== verification/Release.thy ===== *)
theory Release
  imports Hold
begin

text \<open>
  \<open>engine-core/src/release.rs\<close>: releasing an active hold by its reference. A consumed hold
  (one with a booking) is treated as missing. The transaction, its serial effect, and what
  the caller and the subscribers of the event channel see.
\<close>

section \<open>The statements\<close>

text \<open>\<open>SELECT ... WHERE hold_ref = $1 AND booking_id IS NULL FOR UPDATE\<close>\<close>

definition select_active_hold :: "string \<Rightarrow> db \<Rightarrow> hold_row option" where
  "select_active_hold hold_ref d =
     find (\<lambda>q. hr_ref q = hold_ref \<and> hr_booking q = None) (seat_holds d)"

definition clear_ref :: "string \<Rightarrow> db \<Rightarrow> db" where
  "clear_ref hold_ref d =
     d\<lparr>seat_inventory :=
         update_where (\<lambda>r. inv_hold r = Some hold_ref) (\<lambda>r. r\<lparr>inv_hold := None\<rparr>) (seat_inventory d)\<rparr>"

definition delete_hold :: "string \<Rightarrow> db \<Rightarrow> db" where
  "delete_hold hold_ref d =
     d\<lparr>seat_holds := delete_where (\<lambda>q. hr_ref q = hold_ref) (seat_holds d)\<rparr>"

section \<open>The transaction and the operation\<close>

definition release_txn :: "string \<Rightarrow> (hold_row option) dbm" where
  "release_txn hold_ref =
     qbind tx_begin (\<lambda>_.
     qbind (tx_exec (query (select_active_hold hold_ref))) (\<lambda>hold.
     case hold of
       None \<Rightarrow> qret None
     | Some q \<Rightarrow>
         qbind (tx_exec (command (clear_ref hold_ref))) (\<lambda>_.
         qbind (tx_exec (command (delete_hold hold_ref))) (\<lambda>_.
         qbind tx_commit (\<lambda>_.
         qret (Some q))))))"

definition release_hold_by_ref ::
  "ext \<Rightarrow> call_env \<Rightarrow> 'p publish \<Rightarrow> string \<Rightarrow> session \<times> 'p \<Rightarrow>
   (engine_error, release_result) outcome \<times> session \<times> 'p" where
  "release_hold_by_ref X V P hold_ref w =
     (let (s, p) = w
      in case release_txn hold_ref s of
           (Inl e, s1) \<Rightarrow> (Err (Db e), s1, p)
         | (Inr None, s1) \<Rightarrow> (Ok \<lparr>rel_success = False\<rparr>, s1, p)
         | (Inr (Some q), s1) \<Rightarrow>
             (Ok \<lparr>rel_success = True\<rparr>, s1,
              snd (emit_release_pair X P (clock V) (hr_trip q) (hr_seat q) (hr_legs q) p)))"

section \<open>The serial effect\<close>

definition free_hold :: "string \<Rightarrow> db \<Rightarrow> db" where
  "free_hold hold_ref d = delete_hold hold_ref (clear_ref hold_ref d)"

definition release_eff :: "string \<Rightarrow> db \<Rightarrow> (sqlx_error + hold_row option) \<times> db" where
  "release_eff hold_ref d =
     (case select_active_hold hold_ref d of
        None \<Rightarrow> (Inr None, d)
      | Some q \<Rightarrow> (Inr (Some q), free_hold hold_ref d))"

lemma total_release_txn: "total (release_txn h)"
  unfolding release_txn_def by (intro total_intros)

lemma release_txn_replied:
  "release_txn h s = (Inr x, s') \<Longrightarrow> release_eff h (committed s) = (Inr x, committed s')"
  unfolding release_txn_def
  by (auto dest!: call_frames simp: dbm_simps release_eff_def free_hold_def)

lemma release_txn_failed:
  "release_txn h s = (Inl e, s') \<Longrightarrow>
   (committed s' = committed s \<or> committed s' = snd (release_eff h (committed s))) \<and> \<not> no_faults s"
  using totalD [OF total_release_txn] unfolding release_txn_def
  by (auto dest!: call_frames simp: dbm_simps release_eff_def free_hold_def)

section \<open>What a release does to seats and holds\<close>

lemma select_active_hold_eq:
  "schema_ok d \<Longrightarrow>
   select_active_hold h d =
     (case hold_at d h of None \<Rightarrow> None | Some q \<Rightarrow> if hr_booking q = None then Some q else None)"
  by (simp add: select_active_hold_def hold_at_def find_key_and schema_ok_def)

lemma row_at_free_hold:
  "row_at (free_hold h d) k =
     map_option (\<lambda>r. if inv_hold r = Some h then r\<lparr>inv_hold := None\<rparr> else r) (row_at d k)"
  by (simp add: free_hold_def delete_hold_def clear_ref_def row_at_update)

lemma hold_at_free_hold:
  "schema_ok d \<Longrightarrow> hold_at (free_hold h d) g = (if g = h then None else hold_at d g)"
  by (auto simp: free_hold_def delete_hold_def clear_ref_def hold_at_def lookup_by_delete_where
      schema_ok_def split: option.splits dest: lookup_by_SomeD)

lemma schema_ok_free_hold: "schema_ok d \<Longrightarrow> schema_ok (free_hold h d)"
  by (simp add: free_hold_def delete_hold_def clear_ref_def schema_ok_def map_update_where_key
      distinct_map_delete_where)

lemma free_hold_row:
  "row_at (free_hold h d) k = Some r \<Longrightarrow> inv_hold r = Some g \<Longrightarrow> row_at d k = Some r \<and> g \<noteq> h"
  by (cases "row_at d k"; cases "inv_hold (the (row_at d k)) = Some h") (auto simp: row_at_free_hold)

lemma seat_at_free_hold:
  assumes "db_ok d"
  shows "seat_at (free_hold h d) k =
    (if seat_at d k = Some (SHeld h) then Some SFree else seat_at d k)"
  using seat_at_held_iff [OF assms, of k h] assms
  by (cases "row_at d k")
    (auto simp: seat_at_def row_at_free_hold seat_of_def split: option.splits)

lemma db_ok_free_hold:
  assumes "db_ok d"
  shows "db_ok (free_hold h d)"
proof -
  have ok: "schema_ok d" and lk: "linked d" and ex: "exclusive d"
    using assms by auto
  have ok': "schema_ok (free_hold h d)"
    using ok by (rule schema_ok_free_hold)
  have "linked (free_hold h d)"
    by (rule linked_shrink [OF ok ok' lk]) (auto dest: free_hold_row simp: hold_at_free_hold ok)
  moreover have "exclusive (free_hold h d)"
    using ex unfolding exclusive_iff [OF ok] exclusive_iff [OF ok']
    by (auto simp: row_at_free_hold split: if_splits)
  ultimately show ?thesis
    using ok' by (simp add: db_ok_def)
qed

lemma covered_free_hold:
  assumes "db_ok d" and "covered d"
  shows "covered (free_hold h d)"
proof (rule covered_shrink)
  show "schema_ok d" "schema_ok (free_hold h d)" "covered d"
    using assms by (auto intro: schema_ok_free_hold)
  show "hold_at d g = Some q \<and> (\<forall>k. seat_at d k = Some (SHeld g) \<longrightarrow> seat_at (free_hold h d) k = Some (SHeld g))"
    if "hold_at (free_hold h d) g = Some q" "hr_booking q = None" for g q
    using that assms(1) by (auto simp: seat_at_free_hold hold_at_free_hold split: if_splits)
qed

lemma release_eff_invariants:
  assumes "db_ok d"
  shows "db_ok (snd (release_eff h d))" and "covered d \<Longrightarrow> covered (snd (release_eff h d))"
  using assms by (auto simp: release_eff_def intro: db_ok_free_hold covered_free_hold split: option.splits)

lemma select_active_free_hold [simp]: "select_active_hold h (free_hold h d) = None"
  by (auto simp: select_active_hold_def free_hold_def delete_hold_def find_None_iff)

lemma release_eff_idem: "snd (release_eff h (snd (release_eff h d))) = snd (release_eff h d)"
  by (cases "select_active_hold h d") (simp_all add: release_eff_def)

interpretation release_txn: idempotent_transaction "release_txn h" "release_eff h" for h
proof unfold_locales
  show "snd (release_eff h (snd (release_eff h d))) = snd (release_eff h d)" for d
    by (rule release_eff_idem)
qed (use release_txn_replied release_txn_failed in \<open>fast\<close>)+

section \<open>What the caller of \<open>release_hold_by_ref\<close> learns\<close>

lemma release_cases:
  assumes "release_hold_by_ref X V P h (s, p) = (r, s', p')"
  obtains
    (released) q where "r = Ok \<lparr>rel_success = True\<rparr>"
      "release_eff h (committed s) = (Inr (Some q), committed s')"
      "p' = snd (emit_release_pair X P (clock V) (hr_trip q) (hr_seat q) (hr_legs q) p)"
  | (missing) "r = Ok \<lparr>rel_success = False\<rparr>" "p' = p"
      "release_eff h (committed s) = (Inr None, committed s')"
  | (failed) e where "r = Err (Db e)" "p' = p" "\<not> no_faults s"
      "committed s' = committed s \<or> committed s' = snd (release_eff h (committed s))"
proof -
  obtain x s1 where run: "release_txn h s = (x, s1)" by (metis surj_pair)
  show ?thesis
  proof (cases x)
    case (Inl e)
    with assms run have eqs: "r = Err (Db e)" "s1 = s'" "p' = p"
      by (simp_all add: release_hold_by_ref_def)
    show ?thesis
      by (rule failed [OF eqs(1,3)]) (use release_txn_failed [OF run [unfolded Inl]] eqs in simp_all)
  next
    case (Inr y)
    note eff = release_txn_replied [OF run [unfolded Inr]]
    show ?thesis
      using assms run Inr eff
      by (cases y) (auto simp: release_hold_by_ref_def intro: missing released)
  qed
qed

lemma release_eff_Some:
  "schema_ok d \<Longrightarrow>
   release_eff h d = (Inr (Some q), d') \<longleftrightarrow>
     hold_at d h = Some q \<and> hr_booking q = None \<and> d' = free_hold h d"
  by (auto simp: release_eff_def select_active_hold_eq split: option.splits if_splits)

lemma release_eff_None:
  "schema_ok d \<Longrightarrow>
   release_eff h d = (Inr None, d') \<longleftrightarrow>
     (\<forall>q. hold_at d h = Some q \<longrightarrow> hr_booking q \<noteq> None) \<and> d' = d"
  by (auto simp: release_eff_def select_active_hold_eq split: option.splits if_splits)

text \<open>
  C8. Under any pattern of database failures, a release that answers success has freed every
  leg the hold owned and nothing else and removed the hold row. It answers \<open>false\<close> exactly
  for a reference that names no active hold, and then nothing changed. An error means that
  nothing changed or the whole release was committed. The database stays consistent in
  every case.
\<close>

theorem release_durable:
  assumes "db_ok (committed s)"
    and "release_hold_by_ref X V P h (s, p) = (r, s', p')"
  shows "db_ok (committed s') \<and> (covered (committed s) \<longrightarrow> covered (committed s')) \<and>
    (case r of
       Ok c \<Rightarrow>
         if rel_success c then
           (\<exists>q. hold_at (committed s) h = Some q \<and> hr_booking q = None \<and>
              (covered (committed s) \<longrightarrow> (\<forall>k \<in> hold_keys q. seat_at (committed s') k = Some SFree))) \<and>
           (\<forall>g. hold_at (committed s') g = (if g = h then None else hold_at (committed s) g)) \<and>
           (\<forall>k. seat_at (committed s') k =
              (if seat_at (committed s) k = Some (SHeld h) then Some SFree else seat_at (committed s) k))
         else
           committed s' = committed s \<and>
           (\<forall>q. hold_at (committed s) h = Some q \<longrightarrow> hr_booking q \<noteq> None)
     | Err e \<Rightarrow>
         (\<exists>m. e = Db m) \<and> \<not> no_faults s \<and>
         (committed s' = committed s \<or> committed s' = snd (release_eff h (committed s)))
     | Panicked \<Rightarrow> False)"
proof -
  have ok: "schema_ok (committed s)" using assms(1) by auto
  note inv = release_eff_invariants [OF assms(1), of h]
  from assms(2) show ?thesis
  proof (cases rule: release_cases)
    case (released q)
    from released(2) have q: "hold_at (committed s) h = Some q" "hr_booking q = None"
      and d': "committed s' = free_hold h (committed s)"
      by (simp_all add: release_eff_Some ok)
    have "seat_at (committed s) k = Some (SHeld h)" if "covered (committed s)" "k \<in> hold_keys q" for k
      using that q hold_at_key [OF q(1)] by (auto simp: covered_iff [OF ok] covers_def)
    then show ?thesis
      using released(1,2) q inv
      by (auto simp: d' seat_at_free_hold [OF assms(1)] hold_at_free_hold ok)
  next
    case missing
    then show ?thesis
      using assms(1) by (simp add: release_eff_None ok)
  next
    case failed
    then show ?thesis
      using inv assms(1) by auto
  qed
qed

theorem release_durable_witness:
  "\<exists>s' p'. release_hold_by_ref sample_ext (sample_env 1 900) recording_publish ''h''
      (fresh_session held_db [], []) = (Ok \<lparr>rel_success = True\<rparr>, s', p') \<and>
     db_ok (committed s') \<and> hold_at (committed s') ''h'' = None \<and>
     seat_at (committed s') (1, ''1A'', 1) = Some SFree"
proof -
  let ?run = "release_hold_by_ref sample_ext (sample_env 1 900) recording_publish ''h''
      (fresh_session held_db [], [])"
  obtain r s' p' where run: "?run = (r, s', p')" by (metis surj_pair)
  have "fst ?run = Ok \<lparr>rel_success = True\<rparr>" by code_simp
  with run have "r = Ok \<lparr>rel_success = True\<rparr>" by simp
  with run release_durable [OF _ run] show ?thesis by simp
qed

text \<open>
  What subscribers see of a release: a successful one appends exactly the pair
  \<open>inventory.updated\<close>, \<open>holds.released\<close>, in this order and with the trip, seat and legs of the
  hold row. A reference that is unknown, or already consumed by a booking, and a failed
  transaction append nothing. Observed through the recording publisher.
\<close>

theorem release_events:
  assumes "schema_ok (committed s)"
    and "release_hold_by_ref X V recording_publish h (s, log) = (r, s', log')"
  shows "if r = Ok \<lparr>rel_success = True\<rparr> then
      (\<exists>q. hold_at (committed s) h = Some q \<and> hr_booking q = None \<and>
         log' = log @ [inventory_updated X (clock V 0) (hr_trip q) (hr_seat q) (hr_legs q),
                       holds_released X (clock V 1) (hr_trip q) [hr_seat q]])
    else log' = log"
  using assms(2)
proof (cases rule: release_cases)
  case (released q)
  then show ?thesis
    using assms(1) recording.release_pair_delivered [of X "clock V" "hr_trip q" "hr_seat q" "hr_legs q" log]
    by (simp add: release_eff_Some)
qed simp_all

theorem release_events_witness:
  "\<exists>s'. release_hold_by_ref sample_ext (sample_env 1 900) recording_publish ''h''
      (fresh_session held_db [], []) =
     (Ok \<lparr>rel_success = True\<rparr>, s',
      [inventory_updated sample_ext 900 1 ''1A'' [0, 1], holds_released sample_ext 900 1 [''1A'']])"
proof -
  let ?run = "release_hold_by_ref sample_ext (sample_env 1 900) recording_publish ''h''
      (fresh_session held_db [], [])"
  obtain r s' p' where run: "?run = (r, s', p')" by (metis surj_pair)
  have "fst ?run = Ok \<lparr>rel_success = True\<rparr>" by code_simp
  with run have "r = Ok \<lparr>rel_success = True\<rparr>" by simp
  with run release_events [OF _ run] show ?thesis by auto
qed

end
