(* ===== verification/Reaper.thy ===== *)
theory Reaper
  imports Hold
begin

text \<open>
  \<open>engine-core/src/reaper.rs\<close>: the background release of expired holds. One pass takes a
  cluster-wide advisory lock, purges old confirmed holds, frees at most 500 expired active
  holds in one transaction, gives the lock back and publishes one \<open>holds.released\<close> per hold.
\<close>

section \<open>The statements\<close>

definition BATCH_LIMIT :: nat where
  "BATCH_LIMIT = 500"

definition DEFAULT_CONFIRMED_HOLDS_RETENTION_DAYS :: int where
  "DEFAULT_CONFIRMED_HOLDS_RETENTION_DAYS = 30"

text \<open>\<open>DELETE FROM seat_holds WHERE booking_id IS NOT NULL AND expires_at < $1\<close>\<close>

definition purge_confirmed :: "time \<Rightarrow> db \<Rightarrow> db" where
  "purge_confirmed cutoff d =
     d\<lparr>seat_holds :=
         delete_where (\<lambda>q. hr_booking q \<noteq> None \<and> hr_expires q < cutoff) (seat_holds d)\<rparr>"

text \<open>
  \<open>SELECT ... WHERE expires_at <= now() AND booking_id IS NULL FOR UPDATE SKIP LOCKED LIMIT 500\<close>.
  Without \<open>ORDER BY\<close> the server picks the rows: \<open>visit\<close> is the order in which it meets
  the qualifying rows that no other transaction has locked.
\<close>

definition expired :: "time \<Rightarrow> hold_row \<Rightarrow> bool" where
  "expired now q \<longleftrightarrow> hr_expires q \<le> now \<and> hr_booking q = None"

definition select_expired :: "(hold_row list \<Rightarrow> hold_row list) \<Rightarrow> time \<Rightarrow> db \<Rightarrow> hold_row list" where
  "select_expired visit now d = take BATCH_LIMIT (visit (filter (expired now) (seat_holds d)))"

definition clear_refs :: "string list \<Rightarrow> db \<Rightarrow> db" where
  "clear_refs refs d =
     d\<lparr>seat_inventory :=
         update_where (\<lambda>r. \<exists>h \<in> set refs. inv_hold r = Some h) (\<lambda>r. r\<lparr>inv_hold := None\<rparr>)
           (seat_inventory d)\<rparr>"

definition delete_active :: "string list \<Rightarrow> db \<Rightarrow> db" where
  "delete_active refs d =
     d\<lparr>seat_holds :=
         delete_where (\<lambda>q. hr_ref q \<in> set refs \<and> hr_booking q = None) (seat_holds d)\<rparr>"

text \<open>What a server may do with the rows of a \<open>SELECT\<close> without \<open>ORDER BY\<close> and with
  \<open>SKIP LOCKED\<close>: return some of them, each at most once, in any order.\<close>

definition visits :: "(hold_row list \<Rightarrow> hold_row list) \<Rightarrow> bool" where
  "visits visit \<longleftrightarrow> (\<forall>qs. mset (visit qs) \<subseteq># mset qs)"

section \<open>The transaction and the pass\<close>

definition reap_txn ::
  "(hold_row list \<Rightarrow> hold_row list) \<Rightarrow> call_env \<Rightarrow> (uuid \<times> string \<times> int list) list dbm" where
  "reap_txn visit V =
     qbind tx_begin (\<lambda>_.
     qbind (tx_exec (query (select_expired visit (db_now V)))) (\<lambda>expired_rows.
     if expired_rows = [] then
       qbind tx_commit (\<lambda>_. qret [])
     else
       (let refs = map hr_ref expired_rows;
            released = map (\<lambda>q. (hr_trip q, hr_seat q, hr_legs q)) expired_rows
        in
       qbind (tx_exec (command (clear_refs refs))) (\<lambda>_.
       qbind (tx_exec (command (delete_active refs))) (\<lambda>_.
       qbind tx_commit (\<lambda>_.
       qret released))))))"

text \<open>\<open>None\<close> is the panic of \<open>Duration::days\<close> or of the subtraction.\<close>

definition run_reaper ::
  "ext \<Rightarrow> (hold_row list \<Rightarrow> hold_row list) \<Rightarrow> call_env \<Rightarrow> int \<Rightarrow> session \<Rightarrow>
   (sqlx_error + (uuid \<times> string \<times> int list) list) option \<times> session" where
  "run_reaper X visit V confirmed_retention_days s =
     (if confirmed_retention_days > 0 then
        (case sub_days X (clock V 0) confirmed_retention_days of
           None \<Rightarrow> (None, s)
         | Some cutoff \<Rightarrow>
             (case pool_exec (command (purge_confirmed cutoff)) s of
                (Inl e, s1) \<Rightarrow> (Some (Inl e), s1)
              | (Inr u, s1) \<Rightarrow> (case reap_txn visit V s1 of (r, s2) \<Rightarrow> (Some r, s2))))
      else (case reap_txn visit V s of (r, s2) \<Rightarrow> (Some r, s2)))"

text \<open>
  The advisory lock of the database server belongs to a connection and counts: the owner
  may take it again, \<open>n\<close> times after the first (\<open>Some (c, n)\<close>), and gives it back once per
  take. \<open>c\<close> is the connection that the pool hands to the pass; a lock that is not given back
  stays with it when it returns to the pool.
\<close>

type_synonym advisory = "(nat \<times> nat) option"

definition lock_taken :: "nat \<Rightarrow> advisory \<Rightarrow> advisory" where
  "lock_taken c l =
     (case l of None \<Rightarrow> Some (c, 0) | Some (owner, n) \<Rightarrow> if owner = c then Some (c, Suc n) else l)"

definition lock_given_back :: "nat \<Rightarrow> advisory \<Rightarrow> advisory" where
  "lock_given_back c l =
     (case l of None \<Rightarrow> None
      | Some (owner, n) \<Rightarrow>
          if owner = c then (case n of 0 \<Rightarrow> None | Suc m \<Rightarrow> Some (c, m)) else l)"

definition lockable :: "nat \<Rightarrow> advisory \<Rightarrow> bool" where
  "lockable c l \<longleftrightarrow> (case l of None \<Rightarrow> True | Some (owner, n) \<Rightarrow> owner = c)"

definition try_advisory_lock ::
  "nat \<Rightarrow> advisory \<Rightarrow> session \<Rightarrow> (sqlx_error + bool) \<times> advisory \<times> session" where
  "try_advisory_lock c l s =
     (case next_fault s of
        (Served, s1) \<Rightarrow> (Inr (lockable c l), lock_taken c l, s1)
      | (Refused m, s1) \<Rightarrow> (Inl (DriverError m), l, s1)
      | (Lost m, s1) \<Rightarrow> (Inl (DriverError m), lock_taken c l, s1))"

text \<open>The reply of the unlock is ignored (\<open>unwrap_or(false)\<close>).\<close>

definition advisory_unlock :: "nat \<Rightarrow> advisory \<Rightarrow> session \<Rightarrow> advisory \<times> session" where
  "advisory_unlock c l s =
     (case next_fault s of
        (Served, s1) \<Rightarrow> (lock_given_back c l, s1)
      | (Refused m, s1) \<Rightarrow> (l, s1)
      | (Lost m, s1) \<Rightarrow> (lock_given_back c l, s1))"

definition pool_acquire :: "unit dbm" where
  "pool_acquire s =
     (case next_fault s of
        (Served, s1) \<Rightarrow> (Inr (), s1)
      | (Refused m, s1) \<Rightarrow> (Inl (DriverError m), s1)
      | (Lost m, s1) \<Rightarrow> (Inl (DriverError m), s1))"

fun released_events ::
  "ext \<Rightarrow> call_env \<Rightarrow> nat \<Rightarrow> (uuid \<times> string \<times> int list) list \<Rightarrow> reservation_event list" where
  "released_events X V i [] = []"
| "released_events X V i ((trip_id, seat_no, legs) # rest) =
     holds_released X (clock V i) trip_id [seat_no] # released_events X V (Suc i) rest"

definition expire_holds ::
  "ext \<Rightarrow> (hold_row list \<Rightarrow> hold_row list) \<Rightarrow> call_env \<Rightarrow> nat \<Rightarrow> 'p publish \<Rightarrow> int \<Rightarrow>
   advisory \<times> session \<times> 'p \<Rightarrow> (engine_error, reaper_result) outcome \<times> advisory \<times> session \<times> 'p" where
  "expire_holds X visit V c P confirmed_retention_days w =
     (let (l, s, p) = w
      in case pool_acquire s of
           (Inl e, s1) \<Rightarrow> (Err (Db e), l, s1, p)
         | (Inr u, s1) \<Rightarrow>
      (case try_advisory_lock c l s1 of
           (Inl e, l2, s2) \<Rightarrow> (Err (Db e), l2, s2, p)
         | (Inr lock_acquired, l2, s2) \<Rightarrow>
      if \<not> lock_acquired then (Ok \<lparr>released_count = 0\<rparr>, l2, s2, p)
      else
      (case run_reaper X visit V confirmed_retention_days s2 of
           (None, s3) \<Rightarrow> (Panicked, l2, s3, p)
         | (Some result, s3) \<Rightarrow>
      (let (l4, s4) = advisory_unlock c l2 s3
       in case result of
            Inl e \<Rightarrow> (Err (Db e), l4, s4, p)
          | Inr rows \<Rightarrow>
              (Ok \<lparr>released_count = length rows\<rparr>, l4, s4,
               publish_all P (released_events X V 1 rows) p)))))"

section \<open>The serial effect\<close>

definition free_holds :: "string list \<Rightarrow> db \<Rightarrow> db" where
  "free_holds refs d = delete_active refs (clear_refs refs d)"

definition reap_eff ::
  "(hold_row list \<Rightarrow> hold_row list) \<Rightarrow> time \<Rightarrow> db \<Rightarrow>
   (sqlx_error + (uuid \<times> string \<times> int list) list) \<times> db" where
  "reap_eff visit now d =
     (let qs = select_expired visit now d
      in (Inr (map (\<lambda>q. (hr_trip q, hr_seat q, hr_legs q)) qs), free_holds (map hr_ref qs) d))"

lemma clear_refs_Nil [simp]: "clear_refs [] d = d"
  by (simp add: clear_refs_def update_where_id)

lemma delete_active_Nil [simp]: "delete_active [] d = d"
  by (simp add: delete_active_def delete_where_id)

lemma free_holds_Nil [simp]: "free_holds [] d = d"
  by (simp add: free_holds_def)

lemma total_reap_txn: "total (reap_txn visit V)"
  unfolding reap_txn_def Let_def by (intro total_intros)

lemma reap_txn_replied:
  "reap_txn visit V s = (Inr x, s') \<Longrightarrow> reap_eff visit (db_now V) (committed s) = (Inr x, committed s')"
  unfolding reap_txn_def
  by (auto dest!: call_frames simp: dbm_simps Let_def reap_eff_def free_holds_def)

lemma reap_txn_failed:
  "reap_txn visit V s = (Inl e, s') \<Longrightarrow>
   (committed s' = committed s \<or> committed s' = snd (reap_eff visit (db_now V) (committed s))) \<and>
   \<not> no_faults s"
  using totalD [OF total_reap_txn] unfolding reap_txn_def
  by (auto dest!: call_frames simp: dbm_simps Let_def reap_eff_def free_holds_def)

interpretation reap_txn: transaction "reap_txn visit V" "reap_eff visit (db_now V)" for visit V
  by unfold_locales (use reap_txn_replied reap_txn_failed in \<open>fast\<close>)+


section \<open>What a pass does to seats and holds\<close>

lemma select_expired_purge [simp]:
  "select_expired visit now (purge_confirmed cutoff d) = select_expired visit now d"
proof -
  have "filter (expired now) (delete_where (\<lambda>q. hr_booking q \<noteq> None \<and> hr_expires q < cutoff) qs) =
      filter (expired now) qs" for qs
    by (induction qs) (auto simp: expired_def)
  then show ?thesis by (simp add: select_expired_def purge_confirmed_def)
qed

lemma seat_at_purge [simp]: "seat_at (purge_confirmed cutoff d) k = seat_at d k"
  by (simp add: purge_confirmed_def)

lemma row_at_purge [simp]: "row_at (purge_confirmed cutoff d) k = row_at d k"
  by (simp add: purge_confirmed_def)

lemma schema_ok_purge: "schema_ok d \<Longrightarrow> schema_ok (purge_confirmed cutoff d)"
  by (simp add: purge_confirmed_def schema_ok_delete_holds)

lemma hold_at_purge:
  "schema_ok d \<Longrightarrow>
   hold_at (purge_confirmed cutoff d) h =
     (case hold_at d h of None \<Rightarrow> None
      | Some q \<Rightarrow> if hr_booking q \<noteq> None \<and> hr_expires q < cutoff then None else Some q)"
  by (simp add: purge_confirmed_def hold_at_delete split: option.split)

lemma db_ok_purge:
  assumes "db_ok d"
  shows "db_ok (purge_confirmed cutoff d)"
proof -
  have ok: "schema_ok d" and lk: "linked d" and ex: "exclusive d"
    using assms by auto
  have ok': "schema_ok (purge_confirmed cutoff d)"
    using ok by (rule schema_ok_purge)
  have "linked (purge_confirmed cutoff d)"
    using lk unfolding linked_iff [OF ok] linked_iff [OF ok']
    by (fastforce simp: hold_at_purge ok)
  moreover have "exclusive (purge_confirmed cutoff d)"
    using ex unfolding exclusive_iff [OF ok] exclusive_iff [OF ok'] by simp
  ultimately show ?thesis
    using ok' by (simp add: db_ok_def)
qed

lemma covered_purge:
  assumes "db_ok d" and "covered d"
  shows "covered (purge_confirmed cutoff d)"
proof (rule covered_shrink)
  show "schema_ok d" "schema_ok (purge_confirmed cutoff d)" "covered d"
    using assms by (auto intro: schema_ok_purge)
qed (use assms in \<open>auto simp: hold_at_purge db_okD(1) split: option.splits if_splits\<close>)

lemma row_at_free_holds:
  "row_at (free_holds refs d) k =
     map_option (\<lambda>r. if \<exists>h \<in> set refs. inv_hold r = Some h then r\<lparr>inv_hold := None\<rparr> else r) (row_at d k)"
  by (simp add: free_holds_def delete_active_def clear_refs_def row_at_update)

lemma hold_at_free_holds:
  "schema_ok d \<Longrightarrow>
   hold_at (free_holds refs d) h =
     (case hold_at d h of None \<Rightarrow> None
      | Some q \<Rightarrow> if h \<in> set refs \<and> hr_booking q = None then None else Some q)"
  by (auto simp: free_holds_def delete_active_def clear_refs_def hold_at_def lookup_by_delete_where
      schema_ok_def split: option.splits dest: lookup_by_SomeD)

lemma schema_ok_free_holds: "schema_ok d \<Longrightarrow> schema_ok (free_holds refs d)"
  by (simp add: free_holds_def delete_active_def clear_refs_def schema_ok_def map_update_where_key
      distinct_map_delete_where)

lemma free_holds_row:
  "row_at (free_holds refs d) k = Some r \<Longrightarrow> inv_hold r = Some g \<Longrightarrow> row_at d k = Some r \<and> g \<notin> set refs"
  by (cases "row_at d k") (auto simp: row_at_free_holds split: if_splits)

lemma seat_at_free_holds:
  assumes "db_ok d"
  shows "seat_at (free_holds refs d) k =
    (if \<exists>h \<in> set refs. seat_at d k = Some (SHeld h) then Some SFree else seat_at d k)"
proof (cases "row_at d k")
  case None
  then show ?thesis by (simp add: seat_at_def row_at_free_holds)
next
  case (Some r)
  have "\<not> inv_booked r" if "inv_hold r = Some h" for h
    using that Some db_okD(3) [OF assms] exclusive_iff [OF db_okD(1) [OF assms]]
    by (metis option.distinct(1))
  with Some show ?thesis
    by (auto simp: seat_at_def row_at_free_holds seat_of_def split: option.splits)
qed

lemma db_ok_free_holds:
  assumes "db_ok d"
  shows "db_ok (free_holds refs d)"
proof -
  have ok: "schema_ok d" and lk: "linked d" and ex: "exclusive d"
    using assms by auto
  have ok': "schema_ok (free_holds refs d)"
    using ok by (rule schema_ok_free_holds)
  have "linked (free_holds refs d)"
    by (rule linked_shrink [OF ok ok' lk])
      (auto dest!: free_holds_row simp: hold_at_free_holds ok split: option.splits)
  moreover have "exclusive (free_holds refs d)"
    using ex unfolding exclusive_iff [OF ok] exclusive_iff [OF ok']
    by (auto simp: row_at_free_holds split: if_splits)
  ultimately show ?thesis
    using ok' by (simp add: db_ok_def)
qed

lemma covered_free_holds:
  assumes "db_ok d" and "covered d"
  shows "covered (free_holds refs d)"
proof (rule covered_shrink)
  show "schema_ok d" "schema_ok (free_holds refs d)" "covered d"
    using assms by (auto intro: schema_ok_free_holds)
qed (use assms in \<open>auto simp: seat_at_free_holds hold_at_free_holds db_okD(1) split: option.splits if_splits\<close>)

lemma select_expired_sound:
  assumes "visits visit" and "q \<in> set (select_expired visit now d)"
  shows "q \<in> set (seat_holds d)" and "hr_expires q \<le> now" and "hr_booking q = None"
proof -
  have "q \<in> set (visit (filter (expired now) (seat_holds d)))"
    using assms(2) by (auto simp: select_expired_def dest: in_set_takeD)
  then have "q \<in># mset (filter (expired now) (seat_holds d))"
    using assms(1) unfolding visits_def by (metis mset_subset_eqD set_mset_mset)
  then show "q \<in> set (seat_holds d)" "hr_expires q \<le> now" "hr_booking q = None"
    by (simp_all add: expired_def)
qed

lemma select_expired_distinct:
  assumes "visits visit" and "schema_ok d"
  shows "distinct (map hr_ref (select_expired visit now d))"
proof -
  let ?qs = "filter (expired now) (seat_holds d)"
  have "distinct (map hr_ref ?qs)"
    using assms(2) by (auto simp: schema_ok_def distinct_map_filter)
  moreover have "mset (map hr_ref (visit ?qs)) \<subseteq># mset (map hr_ref ?qs)"
    using assms(1) unfolding visits_def mset_map by (blast intro: image_mset_subseteq_mono)
  ultimately have "distinct (map hr_ref (visit ?qs))"
    by (rule distinct_sub_mset [rotated])
  then show ?thesis
    by (simp add: select_expired_def take_map [symmetric])
qed


section \<open>One pass\<close>

text \<open>The tables after the purge a pass runs with this retention.\<close>

definition purged :: "ext \<Rightarrow> call_env \<Rightarrow> int \<Rightarrow> db \<Rightarrow> db" where
  "purged X V days d =
     (case sub_days X (clock V 0) days of
        Some cutoff \<Rightarrow> if days > 0 then purge_confirmed cutoff d else d
      | None \<Rightarrow> d)"

lemma reap_eff_Inr: "reap_eff visit now d = (Inr rows, d') \<longleftrightarrow>
    rows = map (\<lambda>q. (hr_trip q, hr_seat q, hr_legs q)) (select_expired visit now d) \<and>
    d' = free_holds (map hr_ref (select_expired visit now d)) d"
  by (auto simp: reap_eff_def Let_def)

lemma reap_txn_run:
  assumes "reap_txn visit V s = (x, s')"
  shows "(case x of
      Inl e \<Rightarrow> \<not> no_faults s \<and>
        (committed s' = committed s \<or> committed s' = snd (reap_eff visit (db_now V) (committed s)))
    | Inr rows \<Rightarrow> reap_eff visit (db_now V) (committed s) = (Inr rows, committed s')) \<and>
    (no_faults s \<longrightarrow> no_faults s')"
  using assms reap_txn_replied [of visit V s _ s'] reap_txn_failed [of visit V s _ s']
    total_reap_txn [of visit V, unfolded total_def, rule_format, of s x s']
  by (cases x) simp_all

lemma run_reaper_effect:
  assumes "run_reaper X visit V days s = (r, s')"
  shows "\<exists>d \<in> {committed s, purged X V days (committed s)}.
      (case r of
         None \<Rightarrow> s' = s \<and> days > 0 \<and> sub_days X (clock V 0) days = None
       | Some (Inl e) \<Rightarrow> \<not> no_faults s \<and>
           (committed s' = d \<or> committed s' = snd (reap_eff visit (db_now V) d))
       | Some (Inr rows) \<Rightarrow> (days > 0 \<longrightarrow> sub_days X (clock V 0) days \<noteq> None) \<and>
           d = purged X V days (committed s) \<and>
           reap_eff visit (db_now V) d = (Inr rows, committed s')) \<and>
      (no_faults s \<longrightarrow> no_faults s')"
proof (cases "days > 0")
  case False
  then obtain x where "reap_txn visit V s = (x, s')" "r = Some x"
    using assms by (auto simp: run_reaper_def split: prod.splits)
  with False show ?thesis
    using reap_txn_run [of visit V s x s'] by (cases x) (auto simp: purged_def split: option.split)
next
  case True
  show ?thesis
  proof (cases "sub_days X (clock V 0) days")
    case None
    with True assms show ?thesis by (auto simp: run_reaper_def)
  next
    case (Some cutoff)
    obtain x s1 where pur: "pool_exec (command (purge_confirmed cutoff)) s = (x, s1)"
      by (metis surj_pair)
    show ?thesis
    proof (cases x)
      case (Inl e)
      then have "r = Some (Inl e)" "s' = s1"
        using assms True Some pur by (simp_all add: run_reaper_def)
      with pool_exec_Inl [OF pur [unfolded Inl]] True Some show ?thesis
        by (auto simp: purged_def )
    next
      case (Inr u)
      then obtain y where run: "reap_txn visit V s1 = (y, s')" "r = Some y"
        using assms True Some pur by (auto simp: run_reaper_def split: prod.splits)
      with pool_exec_Inr [OF pur [unfolded Inr]] reap_txn_run [OF run(1)] True Some show ?thesis
        by (cases y) (auto simp: purged_def)
    qed
  qed
qed


lemma lock_balanced [simp]: "lockable c l \<Longrightarrow> lock_given_back c (lock_taken c l) = l"
  by (auto simp: lockable_def lock_taken_def lock_given_back_def split: option.splits)

lemma lock_taken_other: "\<not> lockable c l \<Longrightarrow> lock_taken c l = l"
  by (auto simp: lockable_def lock_taken_def split: option.splits)

lemma pool_acquire_frame:
  "pool_acquire s = (x, s1) \<Longrightarrow>
   committed s1 = committed s \<and> (case x of Inl e \<Rightarrow> \<not> no_faults s | Inr u \<Rightarrow> no_faults s \<longrightarrow> no_faults s1)"
  by (auto simp: pool_acquire_def split: prod.splits fault.splits dest!: next_fault_frame)

lemma try_lock_frame:
  "try_advisory_lock c l s = (x, l1, s1) \<Longrightarrow>
   committed s1 = committed s \<and>
   (case x of
      Inl e \<Rightarrow> \<not> no_faults s \<and> l1 \<in> {l, lock_taken c l}
    | Inr b \<Rightarrow> b = lockable c l \<and> l1 = lock_taken c l \<and> (no_faults s \<longrightarrow> no_faults s1))"
  by (auto simp: try_advisory_lock_def split: prod.splits fault.splits dest!: next_fault_frame)

lemma unlock_frame:
  "advisory_unlock c l s = (l1, s1) \<Longrightarrow>
   committed s1 = committed s \<and> l1 \<in> {l, lock_given_back c l} \<and>
   (no_faults s \<longrightarrow> l1 = lock_given_back c l \<and> no_faults s1)"
  by (auto simp: advisory_unlock_def split: prod.splits fault.splits dest!: next_fault_frame)

lemma expire_holds_cases:
  assumes "expire_holds X visit V c P days (l, s, p) = (r, l', s', p')"
  obtains
    (unreached) e where "r = Err (Db e)" "\<not> no_faults s" "committed s' = committed s" "p' = p"
      "l' \<in> {l, lock_taken c l}"
  | (locked) "r = Ok \<lparr>released_count = 0\<rparr>" "\<not> lockable c l" "committed s' = committed s" "p' = p" "l' = l"
  | (panic) "r = Panicked" "lockable c l" "days > 0" "sub_days X (clock V 0) days = None"
      "committed s' = committed s" "p' = p" "l' = lock_taken c l"
  | (failed) e d where "r = Err (Db e)" "\<not> no_faults s" "lockable c l" "p' = p" "l' \<in> {l, lock_taken c l}"
      "d \<in> {committed s, purged X V days (committed s)}"
      "committed s' = d \<or> committed s' = snd (reap_eff visit (db_now V) d)"
  | (ran) rows where "r = Ok \<lparr>released_count = length rows\<rparr>" "lockable c l"
      "l' \<in> {l, lock_taken c l}" "no_faults s \<Longrightarrow> l' = l"
      "days > 0 \<longrightarrow> sub_days X (clock V 0) days \<noteq> None"
      "reap_eff visit (db_now V) (purged X V days (committed s)) = (Inr rows, committed s')"
      "p' = publish_all P (released_events X V 1 rows) p"
proof -
  obtain x1 s1 where acq: "pool_acquire s = (x1, s1)" by (metis surj_pair)
  obtain x2 l2 s2 where lock: "try_advisory_lock c l s1 = (x2, l2, s2)" by (metis surj_pair)
  obtain x3 s3 where run: "run_reaper X visit V days s2 = (x3, s3)" by (metis surj_pair)
  obtain l4 s4 where unlock: "advisory_unlock c l2 s3 = (l4, s4)" by (metis surj_pair)
  note frames = pool_acquire_frame [OF acq] try_lock_frame [OF lock] unlock_frame [OF unlock]
  show ?thesis
  proof (cases x1)
    case (Inl e)
    then show ?thesis
      using assms acq frames by (auto simp: expire_holds_def intro!: unreached)
  next
    case x1: (Inr u)
    show ?thesis
    proof (cases x2)
      case (Inl e)
      then show ?thesis
        using assms acq lock frames x1 by (auto simp: expire_holds_def intro!: unreached)
    next
      case x2: (Inr b)
      show ?thesis
      proof (cases b)
        case False
        then show ?thesis
          using assms acq lock frames x1 x2
          by (auto simp: expire_holds_def lock_taken_other intro!: locked)
      next
        case True
        note eff = run_reaper_effect [OF run]
        show ?thesis
        proof (cases x3)
          case None
          then show ?thesis
            using assms acq lock run frames x1 x2 True eff
            by (auto simp: expire_holds_def intro!: panic)
        next
          case x3: (Some y)
          show ?thesis
          proof (cases y)
            case (Inl e)
            have "r = Err (Db e)" "p' = p" "s' = s4" "l' = l4"
              using assms acq lock run unlock x1 x2 True x3 Inl by (simp_all add: expire_holds_def)
            then show ?thesis
              using frames x1 x2 True eff x3 Inl by (auto intro: failed)
          next
            case (Inr rows)
            have eqs: "r = Ok \<lparr>released_count = length rows\<rparr>" "s' = s4" "l' = l4"
              "p' = publish_all P (released_events X V 1 rows) p"
              using assms acq lock run unlock x1 x2 True x3 Inr by (simp_all add: expire_holds_def)
            show ?thesis
              by (rule ran [OF eqs(1) _ _ _ _ _ eqs(4)])
                (use eqs frames x1 x2 True eff x3 Inr in auto)
          qed
        qed
      qed
    qed
  qed
qed


section \<open>What a pass guarantees\<close>

lemma hold_at_purged:
  "schema_ok d \<Longrightarrow>
   hold_at (purged X V days d) h = hold_at d h \<or>
   (\<exists>q cutoff. hold_at d h = Some q \<and> hold_at (purged X V days d) h = None \<and> hr_booking q \<noteq> None \<and>
      days > 0 \<and> sub_days X (clock V 0) days = Some cutoff \<and> hr_expires q < cutoff)"
  by (cases "sub_days X (clock V 0) days"; cases "hold_at d h") (auto simp: purged_def hold_at_purge)

lemma seat_at_purged [simp]: "seat_at (purged X V days d) k = seat_at d k"
  by (simp add: purged_def split: option.split)

lemma select_expired_purged [simp]: "select_expired visit now (purged X V days d) = select_expired visit now d"
  by (simp add: purged_def split: option.split)

lemma purged_invariants:
  assumes "db_ok d"
  shows "db_ok (purged X V days d)" and "covered d \<Longrightarrow> covered (purged X V days d)"
  using assms by (simp_all add: purged_def db_ok_purge covered_purge split: option.split)

text \<open>The facts on a pass that stopped anywhere, with or without the purge.\<close>

lemma reaped_step:
  assumes ok: "db_ok d" and v: "visits visit"
    and d1: "d1 \<in> {d, purged X V days d}"
    and d': "d' = d1 \<or> d' = snd (reap_eff visit now d1)"
  shows "db_ok d'" and "covered d \<Longrightarrow> covered d'"
    and "seat_at d' k = seat_at d k \<or>
      (\<exists>h q. seat_at d k = Some (SHeld h) \<and> seat_at d' k = Some SFree \<and> hold_at d' h = None \<and>
         hold_at d h = Some q \<and> hr_booking q = None \<and> hr_expires q \<le> now)"
    and "hold_at d' h = hold_at d h \<or>
      (\<exists>q. hold_at d h = Some q \<and> hold_at d' h = None \<and>
         (if hr_booking q = None then hr_expires q \<le> now
          else days > 0 \<and> (\<exists>cutoff. sub_days X (clock V 0) days = Some cutoff \<and> hr_expires q < cutoff)))"
proof -
  let ?refs = "map hr_ref (select_expired visit now d)"
  have ok1: "db_ok d1" and cov1: "covered d \<Longrightarrow> covered d1" and seat1: "seat_at d1 k = seat_at d k" for k
    using d1 ok purged_invariants [OF ok] by auto
  have sch: "schema_ok d" "schema_ok d1"
    using ok ok1 by auto
  have d'_cases: "d' = d1 \<or> d' = free_holds ?refs d1"
    using d' d1 by (auto simp: reap_eff_def Let_def)
  then show "db_ok d'" and "covered d \<Longrightarrow> covered d'"
    using ok1 cov1 by (auto intro: db_ok_free_holds covered_free_holds)
  have ref: "\<exists>q. hold_at d g = Some q \<and> hr_booking q = None \<and> hr_expires q \<le> now" if "g \<in> set ?refs" for g
    using that select_expired_sound [OF v] by (fastforce simp: hold_at_Some [OF sch(1)])
  have hold1: "hold_at d1 h = hold_at d h \<or>
      (\<exists>q cutoff. hold_at d h = Some q \<and> hold_at d1 h = None \<and> hr_booking q \<noteq> None \<and>
         days > 0 \<and> sub_days X (clock V 0) days = Some cutoff \<and> hr_expires q < cutoff)" for h
    using d1 hold_at_purged [OF sch(1)] by auto
  have gone: "hold_at (free_holds ?refs d1) g = None" if "g \<in> set ?refs" for g
    using ref [OF that] that hold1 [of g]
    by (auto simp: hold_at_free_holds [OF sch(2)] simp del: set_map split: option.split)
  show "seat_at d' k = seat_at d k \<or>
      (\<exists>h q. seat_at d k = Some (SHeld h) \<and> seat_at d' k = Some SFree \<and> hold_at d' h = None \<and>
         hold_at d h = Some q \<and> hr_booking q = None \<and> hr_expires q \<le> now)"
    using d'_cases
  proof
    assume d': "d' = free_holds ?refs d1"
    show ?thesis
    proof (cases "\<exists>h \<in> set ?refs. seat_at d k = Some (SHeld h)")
      case True
      then obtain g where g: "g \<in> set ?refs" "seat_at d k = Some (SHeld g)" by blast
      with ref [OF g(1)] gone [OF g(1)] have "seat_at d' k = Some SFree"
        by (auto simp: d' seat_at_free_holds [OF ok1] seat1)
      with g ref [OF g(1)] gone [OF g(1)] show ?thesis by (auto simp: d')
    next
      case False
      then show ?thesis by (auto simp: d' seat_at_free_holds [OF ok1] seat1)
    qed
  qed (simp add: seat1)
  show "hold_at d' h = hold_at d h \<or>
      (\<exists>q. hold_at d h = Some q \<and> hold_at d' h = None \<and>
         (if hr_booking q = None then hr_expires q \<le> now
          else days > 0 \<and> (\<exists>cutoff. sub_days X (clock V 0) days = Some cutoff \<and> hr_expires q < cutoff)))"
    using d'_cases
  proof
    assume d': "d' = free_holds ?refs d1"
    have "hold_at d' h = hold_at d1 h \<or> h \<in> set ?refs \<and> hold_at d' h = None"
      by (simp add: d' hold_at_free_holds [OF sch(2)] del: set_map split: option.split)
    then show ?thesis
    proof
      assume "h \<in> set ?refs \<and> hold_at d' h = None"
      with ref [of h] obtain q where "hold_at d h = Some q" "hr_booking q = None" "hr_expires q \<le> now"
          "hold_at d' h = None" by blast
      then show ?thesis by simp
    qed (use hold1 [of h] in auto)
  qed (use hold1 [of h] in auto)
qed

lemma expire_holds_reaped:
  assumes "expire_holds X visit V c P days (l, s, p) = (r, l', s', p')"
  obtains d1 where "d1 \<in> {committed s, purged X V days (committed s)}"
    and "committed s' = d1 \<or> committed s' = snd (reap_eff visit (db_now V) d1)"
  using assms
proof (cases rule: expire_holds_cases)
  case (failed e d)
  with that [of d] show ?thesis by simp
next
  case (ran rows)
  with that [of "purged X V days (committed s)"] show ?thesis by (metis insertCI snd_conv)
qed (use that [of "committed s"] in simp_all)

text \<open>
  C9. Whatever fails and wherever a pass stops, the reaper is safe: the database stays
  consistent; the only seats it changes are held by an active hold whose expiry has passed,
  and they become free; the only hold rows it removes are expired active ones and, with a
  positive retention, confirmed ones that expired before the cutoff. It never touches a
  booked seat or an unexpired hold.
\<close>

theorem reaper_safe:
  assumes "db_ok (committed s)" and "visits visit"
    and "expire_holds X visit V c P days (l, s, p) = (r, l', s', p')"
  shows "db_ok (committed s') \<and> (covered (committed s) \<longrightarrow> covered (committed s')) \<and>
    (\<forall>k. seat_at (committed s') k = seat_at (committed s) k \<or>
      (\<exists>h q. seat_at (committed s) k = Some (SHeld h) \<and> seat_at (committed s') k = Some SFree \<and>
         hold_at (committed s') h = None \<and>
         hold_at (committed s) h = Some q \<and> hr_booking q = None \<and> hr_expires q \<le> db_now V)) \<and>
    (\<forall>h. hold_at (committed s') h = hold_at (committed s) h \<or>
      (\<exists>q. hold_at (committed s) h = Some q \<and> hold_at (committed s') h = None \<and>
         (if hr_booking q = None then hr_expires q \<le> db_now V
          else days > 0 \<and>
            (\<exists>cutoff. sub_days X (clock V 0) days = Some cutoff \<and> hr_expires q < cutoff))))"
proof -
  obtain d1 where d1: "d1 \<in> {committed s, purged X V days (committed s)}"
    and d': "committed s' = d1 \<or> committed s' = snd (reap_eff visit (db_now V) d1)"
    by (rule expire_holds_reaped [OF assms(3)])
  from reaped_step [OF assms(1,2) d1 d'] show ?thesis
    by blast
qed

theorem reaper_safe_witness:
  "\<exists>r l' s' p'. expire_holds sample_ext (\<lambda>qs. qs) (sample_env 1 500) 3 recording_publish 30
      (None, fresh_session held_db [], []) = (r, l', s', p') \<and>
     db_ok (committed s') \<and> covered (committed s') \<and> seat_at (committed s') (1, ''2B'', 0) = Some SFree"
proof -
  obtain r l' s' p' where run: "expire_holds sample_ext (\<lambda>qs. qs) (sample_env 1 500) 3 recording_publish 30
      (None, fresh_session held_db [], []) = (r, l', s', p')" by (metis surj_pair)
  have "visits (\<lambda>qs. qs)" by (simp add: visits_def)
  note safe = reaper_safe [OF _ this run, simplified fresh_session_simps, OF held_db_ok(1)]
  then have "seat_at (committed s') (1, ''2B'', 0) = seat_at held_db (1, ''2B'', 0) \<or>
      (\<exists>h. seat_at held_db (1, ''2B'', 0) = Some (SHeld h))"
    by blast
  then have "seat_at (committed s') (1, ''2B'', 0) = Some SFree" by simp
  with run safe held_db_ok(3) show ?thesis by blast
qed


definition reapable :: "time \<Rightarrow> db \<Rightarrow> hold_row list" where
  "reapable now d = filter (expired now) (seat_holds d)"

definition described :: "hold_row list \<Rightarrow> (uuid \<times> string \<times> int list) list" where
  "described qs = map (\<lambda>q. (hr_trip q, hr_seat q, hr_legs q)) qs"

lemma ran_rows:
  assumes "reap_eff visit now (purged X V days d) = (Inr rows, d')"
  shows "rows = described (select_expired visit now d)"
    and "d' = free_holds (map hr_ref (select_expired visit now d)) (purged X V days d)"
  using assms by (simp_all add: reap_eff_Inr described_def)

text \<open>
  C17. What a pass reports: when it answers \<open>n\<close>, then \<open>n \<le> 500\<close> and there are exactly \<open>n\<close>
  holds, all active and expired before, whose rows are gone afterwards and whose legs are
  free; the recording publisher has seen one \<open>holds.released\<close> per hold, in the order of the
  rows, and nothing else (no \<open>inventory.updated\<close>).
\<close>

theorem reaper_reply:
  assumes "db_ok (committed s)" and "visits visit"
    and "expire_holds X visit V c recording_publish days (l, s, log) =
      (Ok \<lparr>released_count = n\<rparr>, l', s', log')"
  shows "n \<le> BATCH_LIMIT \<and>
    (\<exists>qs. length qs = n \<and> distinct (map hr_ref qs) \<and>
       log' = log @ released_events X V 1 (described qs) \<and>
       (\<forall>q \<in> set qs. hold_at (committed s) (hr_ref q) = Some q \<and> hr_booking q = None \<and>
          hr_expires q \<le> db_now V \<and> hold_at (committed s') (hr_ref q) = None \<and>
          (covered (committed s) \<longrightarrow> (\<forall>k \<in> hold_keys q. seat_at (committed s') k = Some SFree))))"
  using assms(3)
proof (cases rule: expire_holds_cases)
  case locked
  then show ?thesis by (intro conjI exI [of _ "[]"]) (simp_all add: described_def)
next
  case (ran rows)
  let ?qs = "select_expired visit (db_now V) (committed s)"
  have ok: "schema_ok (committed s)" using assms(1) by auto
  have pok: "db_ok (purged X V days (committed s))"
    using assms(1) by (rule purged_invariants)
  note rows = ran_rows [OF ran(6)]
  have log: "log' = log @ released_events X V 1 rows"
    using ran(7) recording.publish_all_delivered [of "released_events X V 1 rows" log] by simp
  have q: "hold_at (committed s) (hr_ref q) = Some q \<and> hr_booking q = None \<and> hr_expires q \<le> db_now V \<and>
      hold_at (committed s') (hr_ref q) = None \<and>
      (covered (committed s) \<longrightarrow> (\<forall>k \<in> hold_keys q. seat_at (committed s') k = Some SFree))"
    if "q \<in> set ?qs" for q
  proof -
    note snd = select_expired_sound [OF assms(2) that]
    have at: "hold_at (committed s) (hr_ref q) = Some q"
      using snd(1) by (simp add: hold_at_Some ok)
    have "hold_at (purged X V days (committed s)) (hr_ref q) = Some q"
      using hold_at_purged [OF ok, of X V days "hr_ref q"] at snd(3) by auto
    then have "hold_at (committed s') (hr_ref q) = None"
      using snd(3) that pok by (simp add: rows(2) hold_at_free_holds db_okD(1))
    moreover have "seat_at (committed s') k = Some SFree" if "covered (committed s)" "k \<in> hold_keys q" for k
    proof -
      have "seat_at (committed s) k = Some (SHeld (hr_ref q))"
        using that at snd(3) by (auto simp: covered_iff [OF ok] covers_def)
      then show ?thesis
        using \<open>q \<in> set ?qs\<close> by (auto simp: rows(2) seat_at_free_holds [OF pok])
    qed
    ultimately show ?thesis using at snd by simp
  qed
  show ?thesis
  proof (intro conjI exI [of _ ?qs] ballI)
    show "n \<le> BATCH_LIMIT" "length ?qs = n"
      using ran(1) by (simp_all add: rows(1) described_def select_expired_def)
    show "distinct (map hr_ref ?qs)"
      using assms(2) ok by (rule select_expired_distinct)
    show "log' = log @ released_events X V 1 (described ?qs)"
      using log by (simp add: rows(1))
  qed (use q in blast)+
qed simp_all

theorem reaper_reply_witness:
  "\<exists>l' s'. expire_holds sample_ext (\<lambda>qs. qs) (sample_env 1 500) 3 recording_publish 30
      (None, fresh_session held_db [], []) =
        (Ok \<lparr>released_count = 1\<rparr>, l', s', [holds_released sample_ext 500 1 [''1A'']]) \<and>
     (\<exists>q. hold_at held_db (hr_ref q) = Some q \<and> hold_at (committed s') (hr_ref q) = None)"
proof -
  let ?run = "expire_holds sample_ext (\<lambda>qs. qs) (sample_env 1 500) 3 recording_publish 30
      (None, fresh_session held_db [], [])"
  obtain r l' s' p' where run: "?run = (r, l', s', p')" by (metis surj_pair)
  have "fst ?run = Ok \<lparr>released_count = 1\<rparr>" and "snd (snd (snd ?run)) = [holds_released sample_ext 500 1 [''1A'']]"
    by code_simp+
  with run have r: "r = Ok \<lparr>released_count = 1\<rparr>" "p' = [holds_released sample_ext 500 1 [''1A'']]" by simp_all
  have "visits (\<lambda>qs. qs)" by (simp add: visits_def)
  from reaper_reply [OF _ this run [unfolded r(1)]]
  obtain qs where "length qs = 1"
    "\<forall>q \<in> set qs. hold_at held_db (hr_ref q) = Some q \<and> hold_at (committed s') (hr_ref q) = None"
    by auto
  then have "\<exists>q. hold_at held_db (hr_ref q) = Some q \<and> hold_at (committed s') (hr_ref q) = None"
    by (metis length_greater_0_conv nth_mem zero_less_one)
  with run r show ?thesis by blast
qed

lemma reapable_free_holds:
  "reapable now (free_holds refs d) = filter (\<lambda>q. hr_ref q \<notin> set refs) (reapable now d)"
proof -
  have "filter (expired now) (delete_where (\<lambda>q. hr_ref q \<in> set refs \<and> hr_booking q = None) qs) =
      filter (\<lambda>q. hr_ref q \<notin> set refs) (filter (expired now) qs)" for qs
    by (induction qs) (auto simp: expired_def)
  then show ?thesis
    by (simp add: reapable_def free_holds_def delete_active_def clear_refs_def)
qed

lemma reapable_purged [simp]: "reapable now (purged X V days d) = reapable now d"
proof -
  have "filter (expired now) (delete_where (\<lambda>q. hr_booking q \<noteq> None \<and> hr_expires q < cutoff) qs) =
      filter (expired now) qs" for cutoff qs
    by (induction qs) (auto simp: expired_def)
  then show ?thesis
    by (simp add: reapable_def purged_def purge_confirmed_def split: option.split)
qed







text \<open>
  C38. A retention for which \<open>Duration::days\<close> or the subtraction overflows is not harmless:
  the pass panics after taking the lock, so the connection keeps it, and from then on a pass
  on any other connection (of this or of another instance) releases nothing.
\<close>

theorem reaper_panic_keeps_lock:
  assumes "days > 0" and "sub_days X (clock V 0) days = None" and "lockable c l" and "no_faults s"
    and "expire_holds X visit V c P days (l, s, p) = (r, l', s', p')"
    and "c' \<noteq> c" and "expire_holds X2 visit2 V2 c' P days2 (l', s2, q) = (r2, l2, s2', q')"
  shows "r = Panicked \<and> committed s' = committed s \<and>
    l2 = l' \<and> committed s2' = committed s2 \<and> q' = q \<and> (no_faults s2 \<longrightarrow> r2 = Ok \<lparr>released_count = 0\<rparr>)"
proof -
  have first: "r = Panicked \<and> committed s' = committed s \<and> l' = lock_taken c l"
    using assms(5) by (cases rule: expire_holds_cases) (use assms(1-4) in auto)
  then have "\<not> lockable c' l'"
    using assms(3,6) by (auto simp: lockable_def lock_taken_def split: option.splits)
  with first assms(7) show ?thesis
    by (cases rule: expire_holds_cases [OF assms(7)]) (auto dest: lock_taken_other)
qed

definition narrow_ext :: ext where
  "narrow_ext = sample_ext\<lparr>sub_days := (\<lambda>t n. if n \<le> 106751991167 then Some (t - n * 86400 * 1000000) else None)\<rparr>"

theorem reaper_panic_keeps_lock_witness:
  "\<exists>r l' s' p' l2 s2' q'.
     expire_holds narrow_ext (\<lambda>qs. qs) (sample_env 1 500) 3 recording_publish 9223372036854775807
       (None, fresh_session held_db [], []) = (r, l', s', p') \<and> r = Panicked \<and>
     expire_holds narrow_ext (\<lambda>qs. qs) (sample_env 1 500) 4 recording_publish 30 (l', s', p') =
       (Ok \<lparr>released_count = 0\<rparr>, l2, s2', q') \<and> committed s2' = held_db"
proof -
  let ?run = "expire_holds narrow_ext (\<lambda>qs. qs) (sample_env 1 500) 3 recording_publish 9223372036854775807
       (None, fresh_session held_db [], [])"
  obtain r l' s' p' where run: "?run = (r, l', s', p')" by (metis surj_pair)
  have "no_faults (fst (snd (snd ?run)))" by code_simp
  with run have nf: "no_faults s'" by simp
  obtain r2 l2 s2' q' where run2: "expire_holds narrow_ext (\<lambda>qs. qs) (sample_env 1 500) 4 recording_publish 30
      (l', s', p') = (r2, l2, s2', q')" by (metis surj_pair)
  have "r = Panicked \<and> committed s' = held_db \<and> committed s2' = committed s' \<and> r2 = Ok \<lparr>released_count = 0\<rparr>"
    using reaper_panic_keeps_lock [OF _ _ _ _ run _ run2] nf by (simp add: narrow_ext_def lockable_def)
  with run run2 show ?thesis by auto
qed

end
