(* ===== verification/Snapshot.thy ===== *)
theory Snapshot
  imports Hold "HOL-Library.List_Lexorder" "HOL-Library.Char_ord"
begin

text \<open>
  \<open>engine-core/src/snapshot.rs\<close>: the read-only seat map of a trip. The joined and ordered
  rows of the query, the grouping in a \<open>BTreeMap\<close> (an association list sorted by the byte
  order of its keys), and the proof that the result shows every seat of the trip, once, in
  the state the operations see.
\<close>

section \<open>The query\<close>

text \<open>\<open>seat_inventory i LEFT JOIN seat_holds h ON h.hold_ref = i.hold_ref\<close>\<close>

record snapshot_row =
  sr_seat_no :: string
  sr_leg_index :: int
  sr_booked :: bool
  sr_hold_ref :: "string option"
  sr_hold_expires_at :: "time option"

definition join_row :: "inv_row \<Rightarrow> time option \<Rightarrow> snapshot_row" where
  "join_row i e =
     \<lparr>sr_seat_no = inv_seat i, sr_leg_index = inv_leg i, sr_booked = inv_booked i,
      sr_hold_ref = inv_hold i, sr_hold_expires_at = e\<rparr>"

definition left_join :: "db \<Rightarrow> inv_row \<Rightarrow> snapshot_row list" where
  "left_join d i =
     (case filter (\<lambda>h. inv_hold i = Some (hr_ref h)) (seat_holds d) of
        [] \<Rightarrow> [join_row i None]
      | hs \<Rightarrow> map (\<lambda>h. join_row i (Some (hr_expires h))) hs)"

text \<open>
  \<open>WHERE i.trip_id = $1 ORDER BY i.seat_no, i.leg_index\<close>. The server orders seat numbers by
  its collation; \<open>collate\<close> is the sort key of that collation.
\<close>

definition select_snapshot :: "(string \<Rightarrow> string) \<Rightarrow> uuid \<Rightarrow> db \<Rightarrow> snapshot_row list" where
  "select_snapshot collate trip d =
     sort_key (\<lambda>r. collate (sr_seat_no r)) (sort_key sr_leg_index
       (concat (map (left_join d) (filter (\<lambda>i. inv_trip i = trip) (seat_inventory d)))))"

section \<open>Grouping by seat\<close>

fun status_of :: "snapshot_row \<Rightarrow> seat_status_kind" where
  "status_of r =
     (if sr_booked r then Booked else if sr_hold_ref r \<noteq> None then Held else Free)"

definition leg_state_of :: "snapshot_row \<Rightarrow> leg_state" where
  "leg_state_of r =
     \<lparr>ls_leg_index = sr_leg_index r, ls_status = status_of r,
      ls_hold_expires_at = (if status_of r = Held then sr_hold_expires_at r else None)\<rparr>"

text \<open>\<open>by_seat.entry(k).or_default().push(x)\<close> on a \<open>BTreeMap\<close>\<close>

fun btree_push :: "string \<Rightarrow> 'a \<Rightarrow> (string \<times> 'a list) list \<Rightarrow> (string \<times> 'a list) list" where
  "btree_push k x [] = [(k, [x])]"
| "btree_push k x ((j, xs) # m) =
     (if k = j then (j, xs @ [x]) # m
      else if k < j then (k, [x]) # (j, xs) # m
      else (j, xs) # btree_push k x m)"

fun group_rows :: "snapshot_row list \<Rightarrow> (string \<times> leg_state list) list \<Rightarrow> (string \<times> leg_state list) list" where
  "group_rows [] by_seat = by_seat"
| "group_rows (r # rows) by_seat = group_rows rows (btree_push (sr_seat_no r) (leg_state_of r) by_seat)"

definition get_inventory_snapshot ::
  "(string \<Rightarrow> string) \<Rightarrow> uuid \<Rightarrow> session \<Rightarrow> (engine_error, inventory_snapshot) outcome \<times> session" where
  "get_inventory_snapshot collate trip_id s =
     (case pool_exec (query (select_snapshot collate trip_id)) s of
        (Inl e, s1) \<Rightarrow> (Err (Db e), s1)
      | (Inr rows, s1) \<Rightarrow>
          (Ok \<lparr>snap_trip_id = trip_id,
               snap_seats = map (\<lambda>(seat_no, leg_states). \<lparr>ss_seat_no = seat_no, ss_leg_states = leg_states\<rparr>)
                 (group_rows rows [])\<rparr>, s1))"

section \<open>The \<open>BTreeMap\<close>\<close>

definition btree_ok :: "(string \<times> 'a list) list \<Rightarrow> bool" where
  "btree_ok m \<longleftrightarrow> sorted_wrt (<) (map fst m)"

lemma btree_push_keys: "fst ` set (btree_push k x m) = insert k (fst ` set m)"
  by (induction k x m rule: btree_push.induct) auto

lemma btree_ok_push: "btree_ok m \<Longrightarrow> btree_ok (btree_push k x m)"
proof (induction k x m rule: btree_push.induct)
  case (1 k x)
  then show ?case by (simp add: btree_ok_def)
next
  case (2 k x j xs m)
  have "fst ` set (btree_push k x m) = insert k (fst ` set m)"
    by (rule btree_push_keys)
  with 2 show ?case
    by (auto simp: btree_ok_def simp flip: set_map)
qed

lemma map_of_btree_push:
  "btree_ok m \<Longrightarrow>
   map_of (btree_push k x m) j =
     (if j = k then Some ((case map_of m k of None \<Rightarrow> [] | Some xs \<Rightarrow> xs) @ [x]) else map_of m j)"
proof (induction k x m rule: btree_push.induct)
  case (1 k x)
  then show ?case by simp
next
  case (2 k x i xs m)
  have "map_of m k = None" if "k < i"
    using 2(2) that by (force simp: btree_ok_def map_of_eq_None_iff)
  with 2 show ?case
    by (auto simp: btree_ok_def)
qed

lemma group_rows_ok: "btree_ok m \<Longrightarrow> btree_ok (group_rows rows m)"
  by (induction rows m rule: group_rows.induct) (simp_all add: btree_ok_push)

lemma map_of_group_rows:
  "btree_ok m \<Longrightarrow>
   map_of (group_rows rows m) j =
     (let xs = map leg_state_of (filter (\<lambda>r. sr_seat_no r = j) rows)
      in case map_of m j of None \<Rightarrow> if xs = [] then None else Some xs | Some ys \<Rightarrow> Some (ys @ xs))"
  by (induction rows m rule: group_rows.induct)
    (auto simp: btree_ok_push map_of_btree_push Let_def split: option.split)

section \<open>The rows of one seat\<close>

definition expiry_of :: "db \<Rightarrow> inv_row \<Rightarrow> time option" where
  "expiry_of d i = (case inv_hold i of None \<Rightarrow> None | Some h \<Rightarrow> map_option hr_expires (hold_at d h))"

lemma filter_unique_key:
  "distinct (map k rs) \<Longrightarrow>
   filter (\<lambda>r. k r = x) rs = (case lookup_by k x rs of None \<Rightarrow> [] | Some r \<Rightarrow> [r])"
proof (induction rs)
  case Nil
  then show ?case by simp
next
  case (Cons r rs)
  have "lookup_by k (k r) rs = None"
    using Cons.prems by (simp add: lookup_by_None)
  with Cons show ?case by (auto split: option.splits)
qed

lemma left_join_eq:
  assumes "schema_ok d"
  shows "left_join d i = [join_row i (expiry_of d i)]"
proof (cases "inv_hold i")
  case None
  then show ?thesis by (simp add: left_join_def expiry_of_def)
next
  case (Some h)
  then have "filter (\<lambda>q. inv_hold i = Some (hr_ref q)) (seat_holds d) =
      filter (\<lambda>q. hr_ref q = h) (seat_holds d)"
    by (auto intro: filter_cong)
  also have "\<dots> = (case hold_at d h of None \<Rightarrow> [] | Some q \<Rightarrow> [q])"
    using assms by (simp add: filter_unique_key hold_at_def schema_ok_def)
  finally show ?thesis
    using Some by (simp add: left_join_def expiry_of_def split: option.split)
qed

definition seat_rows :: "uuid \<Rightarrow> string \<Rightarrow> db \<Rightarrow> snapshot_row list" where
  "seat_rows trip z d =
     sort_key sr_leg_index (map (\<lambda>i. join_row i (expiry_of d i))
       (filter (\<lambda>i. inv_trip i = trip \<and> inv_seat i = z) (seat_inventory d)))"

lemma snapshot_seat_rows:
  assumes "schema_ok d"
  shows "filter (\<lambda>r. sr_seat_no r = z) (select_snapshot collate trip d) = seat_rows trip z d"
proof -
  define xs where "xs = map (\<lambda>i. join_row i (expiry_of d i)) (filter (\<lambda>i. inv_trip i = trip) (seat_inventory d))"
  have "concat (map (left_join d) is) = map (\<lambda>i. join_row i (expiry_of d i)) is" for "is"
    by (induction "is") (simp_all add: left_join_eq [OF assms])
  then have eq: "select_snapshot collate trip d = sort_key (\<lambda>r. collate (sr_seat_no r)) (sort_key sr_leg_index xs)"
    by (simp add: select_snapshot_def xs_def)
  have "filter (\<lambda>r. sr_seat_no r = z) ys =
      filter (\<lambda>r. sr_seat_no r = z) (filter (\<lambda>r. collate (sr_seat_no r) = collate z) ys)" for ys
    by (auto intro: filter_cong)
  then have "filter (\<lambda>r. sr_seat_no r = z) (select_snapshot collate trip d) =
      filter (\<lambda>r. sr_seat_no r = z) (sort_key sr_leg_index xs)"
    unfolding eq by (metis sort_key_stable)
  also have "\<dots> = sort_key sr_leg_index (filter (\<lambda>r. sr_seat_no r = z) xs)"
    by (rule filter_sort)
  also have "filter (\<lambda>r. sr_seat_no r = z) xs =
      map (\<lambda>i. join_row i (expiry_of d i))
        (filter (\<lambda>i. inv_trip i = trip \<and> inv_seat i = z) (seat_inventory d))"
    by (simp add: xs_def filter_map o_def join_row_def conj_commute)
  finally show ?thesis by (simp add: seat_rows_def)
qed


section \<open>What a snapshot shows\<close>

text \<open>The abstract seat map: what a client should see at a leg.\<close>

definition shown :: "db \<Rightarrow> seat_key \<Rightarrow> leg_state option" where
  "shown d k =
     (case seat_at d k of
        None \<Rightarrow> None
      | Some SFree \<Rightarrow> Some \<lparr>ls_leg_index = snd (snd k), ls_status = Free, ls_hold_expires_at = None\<rparr>
      | Some SBooked \<Rightarrow> Some \<lparr>ls_leg_index = snd (snd k), ls_status = Booked, ls_hold_expires_at = None\<rparr>
      | Some (SHeld h) \<Rightarrow>
          Some \<lparr>ls_leg_index = snd (snd k), ls_status = Held,
                ls_hold_expires_at = map_option hr_expires (hold_at d h)\<rparr>)"

lemma leg_state_of_row:
  assumes "row_at d k = Some i"
  shows "shown d k = Some (leg_state_of (join_row i (expiry_of d i)))"
  using row_at_key [OF assms] assms
  by (auto simp: shown_def seat_at_def seat_of_def leg_state_of_def join_row_def expiry_of_def inv_key_def
      split: option.split)

lemma seat_rows_shown:
  assumes "schema_ok d"
  shows "st \<in> leg_state_of ` set (seat_rows trip z d) \<longleftrightarrow> (\<exists>l. shown d (trip, z, l) = Some st)"
proof -
  have "st \<in> leg_state_of ` set (seat_rows trip z d) \<longleftrightarrow>
      (\<exists>l i. row_at d (trip, z, l) = Some i \<and> st = leg_state_of (join_row i (expiry_of d i)))"
    by (auto simp: seat_rows_def row_at_Some [OF assms] inv_key_def)
  also have "\<dots> \<longleftrightarrow> (\<exists>l. shown d (trip, z, l) = Some st)"
    using leg_state_of_row by (metis (no_types, lifting) not_None_eq option.case(1) option.inject seat_at_None shown_def)
  finally show ?thesis .
qed

lemma seat_rows_sorted:
  assumes "schema_ok d"
  shows "sorted_wrt (<) (map ls_leg_index (map leg_state_of (seat_rows trip z d)))"
proof -
  let ?is = "filter (\<lambda>i. inv_trip i = trip \<and> inv_seat i = z) (seat_inventory d)"
  have "distinct (map inv_key ?is)"
    using assms by (auto simp: schema_ok_def distinct_map_filter)
  moreover have "inj_on inv_leg (set ?is)" if "inj_on inv_key (set ?is)"
    using that by (auto simp: inj_on_def inv_key_def)
  ultimately have "distinct (map inv_leg ?is)"
    by (auto simp: distinct_map)
  then have "distinct (map sr_leg_index (map (\<lambda>i. join_row i (expiry_of d i)) ?is))"
    by (simp add: o_def join_row_def)
  then have "distinct (map sr_leg_index (seat_rows trip z d))"
    unfolding seat_rows_def distinct_map [of sr_leg_index] by simp
  moreover have "sorted (map sr_leg_index (seat_rows trip z d))"
    by (simp add: seat_rows_def)
  ultimately have "sorted_wrt (<) (map sr_leg_index (seat_rows trip z d))"
    by (simp add: strict_sorted_iff)
  then show ?thesis by (simp add: o_def leg_state_of_def)
qed

text \<open>
  C21. A snapshot is the seat map: seats in strictly increasing byte order, none empty, the
  legs of a seat in strictly increasing order, and at every leg of the trip exactly the status
  the operations see, with the expiry of the hold where the leg is held and nowhere else.
  Taking it changes nothing.
\<close>

theorem snapshot_exact:
  assumes "schema_ok (committed s)"
    and "get_inventory_snapshot collate trip s = (Ok snap, s')"
  shows "committed s' = committed s \<and> snap_trip_id snap = trip \<and>
    sorted_wrt (<) (map ss_seat_no (snap_seats snap)) \<and>
    (\<forall>seat \<in> set (snap_seats snap).
       ss_leg_states seat \<noteq> [] \<and> sorted_wrt (<) (map ls_leg_index (ss_leg_states seat))) \<and>
    (\<forall>z st. (\<exists>seat \<in> set (snap_seats snap). ss_seat_no seat = z \<and> st \<in> set (ss_leg_states seat)) \<longleftrightarrow>
            shown (committed s) (trip, z, ls_leg_index st) = Some st)"
proof -
  let ?d = "committed s"
  let ?g = "group_rows (select_snapshot collate trip ?d) []"
  have s': "committed s' = ?d" and snap: "snap = \<lparr>snap_trip_id = trip,
      snap_seats = map (\<lambda>(z, ls). \<lparr>ss_seat_no = z, ss_leg_states = ls\<rparr>) ?g\<rparr>"
    using assms(2) by (auto simp: get_inventory_snapshot_def dest!: pool_exec_Inr split: prod.splits sum.splits)
  have ok: "btree_ok ?g"
    by (rule group_rows_ok) (simp add: btree_ok_def)
  have g: "map_of ?g z = (if seat_rows trip z ?d = [] then None else Some (map leg_state_of (seat_rows trip z ?d)))" for z
    using map_of_group_rows [of "[]" "select_snapshot collate trip ?d" z]
    by (simp add: btree_ok_def snapshot_seat_rows [OF assms(1)] Let_def)
  have dist: "distinct (map fst ?g)"
    using ok by (simp add: btree_ok_def strict_sorted_iff)
  have mem: "(z, ls) \<in> set ?g \<longleftrightarrow> seat_rows trip z ?d \<noteq> [] \<and> ls = map leg_state_of (seat_rows trip z ?d)" for z ls
    using map_of_eq_Some_iff [OF dist, of z ls] g [of z] by (auto split: if_splits)
  have leg: "shown ?d (trip, z, l) = Some st \<Longrightarrow> ls_leg_index st = l" for z l st
    by (auto simp: shown_def split: option.splits seat.splits)
  have "(\<exists>seat \<in> set (snap_seats snap). ss_seat_no seat = z \<and> st \<in> set (ss_leg_states seat)) \<longleftrightarrow>
      shown ?d (trip, z, ls_leg_index st) = Some st" for z st
  proof -
    have "(\<exists>seat \<in> set (snap_seats snap). ss_seat_no seat = z \<and> st \<in> set (ss_leg_states seat)) \<longleftrightarrow>
        (\<exists>ls. (z, ls) \<in> set ?g \<and> st \<in> set ls)"
      by (auto simp: snap intro!: bexI [of _ "(_, _)"])
    also have "\<dots> \<longleftrightarrow> st \<in> leg_state_of ` set (seat_rows trip z ?d)"
      by (auto simp: mem)
    also have "\<dots> \<longleftrightarrow> shown ?d (trip, z, ls_leg_index st) = Some st"
      using leg by (auto simp: seat_rows_shown [OF assms(1)])
    finally show ?thesis .
  qed
  moreover have "sorted_wrt (<) (map ss_seat_no (snap_seats snap))"
    using ok by (simp add: snap btree_ok_def o_def case_prod_unfold)
  moreover have "ss_leg_states seat \<noteq> [] \<and> sorted_wrt (<) (map ls_leg_index (ss_leg_states seat))"
    if "seat \<in> set (snap_seats snap)" for seat
    using that mem seat_rows_sorted [OF assms(1)] by (auto simp: snap)
  ultimately show ?thesis
    using s' by (simp add: snap)
qed


theorem snapshot_exact_witness:
  "\<exists>snap s'. get_inventory_snapshot id 1 (fresh_session held_db []) = (Ok snap, s') \<and>
     map ss_seat_no (snap_seats snap) = [''1A'', ''2B''] \<and>
     (\<exists>seat \<in> set (snap_seats snap). ss_seat_no seat = ''1A'' \<and>
        \<lparr>ls_leg_index = 1, ls_status = Held, ls_hold_expires_at = Some 500\<rparr> \<in> set (ss_leg_states seat))"
proof -
  let ?run = "get_inventory_snapshot id 1 (fresh_session held_db [])"
  obtain r s' where run: "?run = (r, s')" by (metis surj_pair)
  have "\<forall>e. fst ?run \<noteq> Err e" and "fst ?run \<noteq> Panicked"
    by (simp_all add: get_inventory_snapshot_def pool_exec_def next_fault_def fresh_session_def query_def)
  moreover have "(case fst ?run of Ok s \<Rightarrow> map ss_seat_no (snap_seats s) | _ \<Rightarrow> []) = [''1A'', ''2B'']"
    by code_simp
  ultimately obtain snap where r: "r = Ok snap" and names: "map ss_seat_no (snap_seats snap) = [''1A'', ''2B'']"
    using run by (cases r) auto
  have "shown held_db (1, ''1A'', 1) = Some \<lparr>ls_leg_index = 1, ls_status = Held, ls_hold_expires_at = Some 500\<rparr>"
    by (simp add: shown_def)
  with snapshot_exact [OF _ run [unfolded r]]
  have "\<exists>seat \<in> set (snap_seats snap). ss_seat_no seat = ''1A'' \<and>
      \<lparr>ls_leg_index = 1, ls_status = Held, ls_hold_expires_at = Some 500\<rparr> \<in> set (ss_leg_states seat)"
    by simp
  moreover have "?run = (Ok snap, s')" using run r by simp
  ultimately show ?thesis using names by (intro exI conjI)
qed

end
