(* ===== verification/Engine.thy ===== *)
theory Engine
  imports Confirm Cancel Release Reaper Snapshot
begin

text \<open>
  The engine as a whole: every operation of \<open>engine-core\<close> as a labelled step between
  committed databases, under any failures, clock readings and publisher. An abstract seat
  automaton, the proof that each step of the engine is a move of the automaton at every seat
  (a simulation), and what follows for whole histories: consistency of every reachable
  database, exclusive ownership of a held leg, permanence of a booking.
\<close>

section \<open>Steps of the engine\<close>

text \<open>A call with what it was given and what it answered.\<close>

datatype engine_call =
    HoldCall call_env seat_hold_request "(engine_error, atomic_hold_result) outcome"
  | ConfirmCall call_env string string "(engine_error, confirm_result) outcome"
  | ReleaseCall string "(engine_error, release_result) outcome"
  | CancelCall uuid string "int list" "(engine_error, cancel_result) outcome"
  | ReaperCall call_env "(engine_error, reaper_result) outcome"
  | SnapshotCall uuid "(engine_error, inventory_snapshot) outcome"
  | SeedCall inv_row

text \<open>
  Inventory rows are inserted by the terminal that shares the database, free and unheld.
\<close>

definition seed_row :: "inv_row \<Rightarrow> db \<Rightarrow> db" where
  "seed_row r d = d\<lparr>seat_inventory := seat_inventory d @ [r]\<rparr>"

definition empty_db :: db where
  "empty_db = \<lparr>seat_inventory = [], seat_holds = [], idem_cache = []\<rparr>"

inductive engine_step :: "ext \<Rightarrow> 'p publish \<Rightarrow> db \<Rightarrow> engine_call \<Rightarrow> db \<Rightarrow> bool" for X P where
  hold: "atomic_hold X V P req ttl (s, p) = (r, s', p') \<Longrightarrow>
    engine_step X P (committed s) (HoldCall V req r) (committed s')"
| confirm: "confirm_booking X V P h b (s, p) = (r, s', p') \<Longrightarrow>
    engine_step X P (committed s) (ConfirmCall V h b r) (committed s')"
| release: "release_hold_by_ref X V P h (s, p) = (r, s', p') \<Longrightarrow>
    engine_step X P (committed s) (ReleaseCall h r) (committed s')"
| cancel: "cancel_booking_seats X V P trip seat legs (s, p) = (r, s', p') \<Longrightarrow>
    engine_step X P (committed s) (CancelCall trip seat legs r) (committed s')"
| reaper: "visits visit \<Longrightarrow> expire_holds X visit V c P days (l, s, p) = (r, l', s', p') \<Longrightarrow>
    engine_step X P (committed s) (ReaperCall V r) (committed s')"
| snapshot: "get_inventory_snapshot collate trip s = (r, s') \<Longrightarrow>
    engine_step X P (committed s) (SnapshotCall trip r) (committed s')"
| seed: "row_at d (inv_key r) = None \<Longrightarrow> \<not> inv_booked r \<Longrightarrow> inv_hold r = None \<Longrightarrow>
    engine_step X P d (SeedCall r) (seed_row r d)"

inductive engine_run :: "ext \<Rightarrow> 'p publish \<Rightarrow> db \<Rightarrow> engine_call list \<Rightarrow> db \<Rightarrow> bool" for X P where
  stop: "engine_run X P d [] d"
| call: "engine_step X P d c d1 \<Longrightarrow> engine_run X P d1 cs d' \<Longrightarrow> engine_run X P d (c # cs) d'"

inductive_simps engine_run_simps: "engine_run X P d [] d'" "engine_run X P d (c # cs) d'"

section \<open>The seat automaton\<close>

text \<open>
  A leg of a seat: free, held by a reference until an expiry, or booked, and the only moves
  that a call may make there.
\<close>

datatype aseat = AFree | AHeld string time | ABooked

inductive seat_move :: "ext \<Rightarrow> engine_call \<Rightarrow> seat_key \<Rightarrow> aseat \<Rightarrow> aseat \<Rightarrow> bool" for X where
  stay: "seat_move X c k a a"
| hold: "k \<in> leg_keys (req_trip_id req) (req_seat_no req) (req_leg_indexes req) \<Longrightarrow>
    seat_move X (HoldCall V req r) k AFree (AHeld (uuid_to_string X (new_uuid V)) t)"
| confirm: "db_now V < t \<Longrightarrow> seat_move X (ConfirmCall V h b r) k (AHeld h t) ABooked"
| release: "seat_move X (ReleaseCall h r) k (AHeld h t) AFree"
| cancel: "k \<in> leg_keys trip seat legs \<Longrightarrow> seat_move X (CancelCall trip seat legs r) k a AFree"
| expire: "t \<le> db_now V \<Longrightarrow> seat_move X (ReaperCall V r) k (AHeld h t) AFree"


definition abs_seat :: "db \<Rightarrow> seat_key \<Rightarrow> aseat option" where
  "abs_seat d k =
     (case seat_at d k of
        None \<Rightarrow> None
      | Some SFree \<Rightarrow> Some AFree
      | Some SBooked \<Rightarrow> Some ABooked
      | Some (SHeld h) \<Rightarrow> Some (AHeld h (hr_expires (the (hold_at d h)))))"

lemma abs_seat_cong:
  "seat_at d' k = seat_at d k \<Longrightarrow>
   (\<And>h. seat_at d k = Some (SHeld h) \<Longrightarrow> hold_at d' h = hold_at d h) \<Longrightarrow> abs_seat d' k = abs_seat d k"
  by (auto simp: abs_seat_def split: option.split seat.split)

lemma abs_seat_None: "abs_seat d k = None \<longleftrightarrow> seat_at d k = None"
  by (auto simp: abs_seat_def split: option.split seat.split)

lemma abs_seat_simps:
  "seat_at d k = Some SFree \<Longrightarrow> abs_seat d k = Some AFree"
  "seat_at d k = Some SBooked \<Longrightarrow> abs_seat d k = Some ABooked"
  "seat_at d k = Some (SHeld h) \<Longrightarrow> hold_at d h = Some q \<Longrightarrow> abs_seat d k = Some (AHeld h (hr_expires q))"
  by (simp_all add: abs_seat_def)

text \<open>What a step has to show at one seat.\<close>

definition moves :: "ext \<Rightarrow> engine_call \<Rightarrow> db \<Rightarrow> db \<Rightarrow> bool" where
  "moves X c d d' \<longleftrightarrow>
     (\<forall>k. case abs_seat d k of
            None \<Rightarrow> abs_seat d' k \<noteq> None \<longrightarrow> (\<exists>r. c = SeedCall r) \<and> abs_seat d' k = Some AFree
          | Some a \<Rightarrow> (\<exists>a'. abs_seat d' k = Some a' \<and> seat_move X c k a a'))"

lemma moves_Some:
  assumes "moves X c d d'" and "abs_seat d k = Some a"
  shows "\<exists>a'. abs_seat d' k = Some a' \<and> seat_move X c k a a'"
  using assms(1) [unfolded moves_def, rule_format, of k] assms(2) by simp

lemma moves_None:
  assumes "moves X c d d'" and "abs_seat d k = None" and "abs_seat d' k \<noteq> None"
  shows "(\<exists>r. c = SeedCall r) \<and> abs_seat d' k = Some AFree"
  using assms(1) [unfolded moves_def, rule_format, of k] assms(2,3) by simp

lemma moves_refl [simp]: "moves X c d d"
  by (auto simp: moves_def intro: seat_move.stay split: option.split)

lemma movesI:
  assumes "\<And>k. seat_at d k = None \<Longrightarrow> seat_at d' k = None"
    and "\<And>k a. abs_seat d k = Some a \<Longrightarrow> \<exists>a'. abs_seat d' k = Some a' \<and> seat_move X c k a a'"
  shows "moves X c d d'"
  using assms by (auto simp: moves_def abs_seat_None split: option.split)

section \<open>Each operation is a move\<close>

lemma moves_place_hold:
  assumes "db_ok d" and free: "legs_free q d" and new: "hr_ref q \<notin> hold_refs d"
    and "hr_ref q = uuid_to_string X (new_uuid V)"
    and "hold_keys q = leg_keys (req_trip_id req) (req_seat_no req) (req_leg_indexes req)"
  shows "moves X (HoldCall V req r) d (place_hold q d)"
proof (rule movesI)
  fix k a assume a: "abs_seat d k = Some a"
  then have ex: "seat_at d k \<noteq> None" by (simp flip: abs_seat_None)
  have ok: "schema_ok d" using assms(1) by auto
  note seat = seat_at_place_hold [OF ok free ex]
  have self: "hold_at (place_hold q d) (hr_ref q) = Some q"
    using new by (simp add: hold_at_place_hold flip: hold_at_None)
  show "\<exists>a'. abs_seat (place_hold q d) k = Some a' \<and> seat_move X (HoldCall V req r) k a a'"
  proof (cases "k \<in> hold_keys q")
    case True
    then have "seat_at d k = Some SFree" using free ex by (simp add: legs_free_iff [OF ok])
    then have "a = AFree" using a by (simp add: abs_seat_simps)
    moreover have "abs_seat (place_hold q d) k = Some (AHeld (hr_ref q) (hr_expires q))"
      using seat True by (intro abs_seat_simps(3) [OF _ self]) simp
    moreover have "seat_move X (HoldCall V req r) k AFree (AHeld (hr_ref q) (hr_expires q))"
      using True unfolding assms(4,5) by (rule seat_move.hold)
    ultimately show ?thesis by blast
  next
    case False
    have "abs_seat (place_hold q d) k = abs_seat d k"
    proof (rule abs_seat_cong)
      show "seat_at (place_hold q d) k = seat_at d k" using seat False by simp
      fix h assume "seat_at d k = Some (SHeld h)"
      then obtain x where "hold_at d h = Some x" by (rule seat_at_SHeld [OF assms(1)])
      then show "hold_at (place_hold q d) h = hold_at d h" by (simp add: hold_at_place_hold)
    qed
    with a show ?thesis by (auto intro: seat_move.stay)
  qed
qed (simp add: seat_at_place_hold_None)

lemma moves_book_hold:
  assumes "db_ok d" and "hold_at d h = Some q" and "db_now V < hr_expires q"
  shows "moves X (ConfirmCall V h b r) d (book_hold h b d)"
proof (rule movesI)
  fix k a assume a: "abs_seat d k = Some a"
  show "\<exists>a'. abs_seat (book_hold h b d) k = Some a' \<and> seat_move X (ConfirmCall V h b r) k a a'"
  proof (cases "seat_at d k = Some (SHeld h)")
    case True
    with assms a show ?thesis
      by (auto simp: abs_seat_simps(3) [OF _ assms(2)] abs_seat_simps(2) seat_at_book_hold intro: seat_move.confirm)
  next
    case False
    have "abs_seat (book_hold h b d) k = abs_seat d k"
      by (rule abs_seat_cong) (use False assms in \<open>auto simp: seat_at_book_hold hold_at_book_hold_other\<close>)
    with a show ?thesis by (auto intro: seat_move.stay)
  qed
qed (simp add: seat_at_book_hold assms)

lemma moves_free_hold:
  assumes "db_ok d"
  shows "moves X (ReleaseCall h r) d (free_hold h d)"
proof (rule movesI)
  fix k a assume a: "abs_seat d k = Some a"
  show "\<exists>a'. abs_seat (free_hold h d) k = Some a' \<and> seat_move X (ReleaseCall h r) k a a'"
  proof (cases "seat_at d k = Some (SHeld h)")
    case True
    then obtain q where "hold_at d h = Some q" by (rule seat_at_SHeld [OF assms])
    with True assms a show ?thesis
      by (auto simp: abs_seat_simps seat_at_free_hold intro: seat_move.release)
  next
    case False
    have "abs_seat (free_hold h d) k = abs_seat d k"
      by (rule abs_seat_cong) (use False assms in \<open>auto simp: seat_at_free_hold hold_at_free_hold db_okD(1)\<close>)
    with a show ?thesis by (auto intro: seat_move.stay)
  qed
qed (simp add: seat_at_free_hold assms)

lemma moves_clear_legs:
  "moves X (CancelCall trip seat legs r) d (clear_legs trip seat legs d)"
proof (rule movesI)
  fix k a assume a: "abs_seat d k = Some a"
  show "\<exists>a'. abs_seat (clear_legs trip seat legs d) k = Some a' \<and> seat_move X (CancelCall trip seat legs r) k a a'"
  proof (cases "k \<in> leg_keys trip seat legs")
    case True
    then have "seat_at (clear_legs trip seat legs d) k = Some SFree"
      using a by (cases "seat_at d k") (auto simp: seat_at_clear_legs abs_seat_def)
    with True a show ?thesis by (auto simp: abs_seat_simps intro: seat_move.cancel)
  next
    case False
    have "abs_seat (clear_legs trip seat legs d) k = abs_seat d k"
      by (rule abs_seat_cong) (use False in \<open>auto simp: seat_at_clear_legs\<close>)
    with a show ?thesis by (auto intro: seat_move.stay)
  qed
qed (simp add: seat_at_clear_legs)


lemma moves_seed:
  assumes "row_at d (inv_key r) = None" and "\<not> inv_booked r" and "inv_hold r = None"
  shows "moves X (SeedCall r) d (seed_row r d)"
proof -
  have seat: "seat_at (seed_row r d) k = (if k = inv_key r then Some SFree else seat_at d k)" for k
    using assms by (auto simp: seed_row_def seat_at_def row_at_def lookup_by_append seat_of_def split: option.split)
  have "abs_seat (seed_row r d) k = (if k = inv_key r then Some AFree else abs_seat d k)" for k
    by (auto simp: abs_seat_def seat split: option.split seat.split) (simp_all add: seed_row_def)
  moreover have "abs_seat d (inv_key r) = None"
    using assms(1) by (simp add: abs_seat_None seat_at_None)
  ultimately show ?thesis
    by (auto simp: moves_def intro: seat_move.stay split: option.split)
qed

lemma moves_reaped:
  assumes "db_ok d" and "visits visit"
    and "d1 \<in> {d, purged X2 V2 days d}" and "d' = d1 \<or> d' = snd (reap_eff visit (db_now V) d1)"
  shows "moves X (ReaperCall V r) d d'"
proof (rule movesI)
  note step = reaped_step [OF assms]
  fix k a assume a: "abs_seat d k = Some a"
  from step(3) [of k]
  show "\<exists>a'. abs_seat d' k = Some a' \<and> seat_move X (ReaperCall V r) k a a'"
  proof
    assume same: "seat_at d' k = seat_at d k"
    have "abs_seat d' k = abs_seat d k"
    proof (rule abs_seat_cong [OF same])
      fix h assume h: "seat_at d k = Some (SHeld h)"
      obtain q where q: "hold_at d h = Some q" "hr_booking q = None" by (rule seat_at_SHeld [OF assms(1) h])
      obtain q' where "hold_at d' h = Some q'" using same h by (auto elim: seat_at_SHeld [OF step(1)])
      with step(4) [of h] show "hold_at d' h = hold_at d h" by auto
    qed
    with a show ?thesis by (auto intro: seat_move.stay)
  next
    assume "\<exists>h q. seat_at d k = Some (SHeld h) \<and> seat_at d' k = Some SFree \<and> hold_at d' h = None \<and>
       hold_at d h = Some q \<and> hr_booking q = None \<and> hr_expires q \<le> db_now V"
    with a show ?thesis by (auto simp: abs_seat_simps intro: seat_move.expire)
  qed
next
  fix k assume none: "seat_at d k = None"
  show "seat_at d' k = None"
    using none reaped_step(3) [OF assms, of k] by auto
qed

lemma db_ok_seed:
  assumes "db_ok d" and "row_at d (inv_key r) = None" and "\<not> inv_booked r" and "inv_hold r = None"
  shows "db_ok (seed_row r d)"
  using assms
  by (auto simp: db_ok_def schema_ok_def linked_def exclusive_def seed_row_def row_at_None)

lemma engine_step_moves:
  assumes "engine_step X P d c d'" and "db_ok d"
  shows "db_ok d' \<and> moves X c d d'"
  using assms
proof cases
  case (hold V req ttl s p r s' p')
  have inv: "db_ok (snd (hold_eff (request_row X V req t) d))" for t
    using hold_eff_invariants(1) [OF assms(2)] by simp
  have move: "moves X (HoldCall V req r) d (snd (hold_eff (request_row X V req t) d))" for t
    using moves_place_hold [OF assms(2), of "request_row X V req t"] by (simp add: hold_eff_def)
  from hold(4) show ?thesis
    by (cases rule: atomic_hold_cases) (use hold assms(2) inv move in \<open>metis moves_refl snd_conv\<close>)+
next
  case (confirm V h b s p r s' p')
  have inv: "db_ok (snd (confirm_eff h b (db_now V) d))"
    using confirm_eff_invariants(1) [OF assms(2)] by simp
  have move: "moves X (ConfirmCall V h b r) d (snd (confirm_eff h b (db_now V) d))"
    using moves_book_hold [OF assms(2)] assms(2)
    by (auto simp: confirm_eff_def select_live_hold_eq db_okD(1) split: option.split)
  from confirm(4) show ?thesis
    by (cases rule: confirm_booking_cases) (use confirm assms(2) inv move in \<open>metis moves_refl snd_conv\<close>)+
next
  case (release V h s p r s' p')
  have inv: "db_ok (snd (release_eff h d))"
    using release_eff_invariants(1) [OF assms(2)] by simp
  have move: "moves X (ReleaseCall h r) d (snd (release_eff h d))"
    using moves_free_hold [OF assms(2)] by (auto simp: release_eff_def split: option.split)
  from release(4) show ?thesis
    by (cases rule: release_cases) (use release assms(2) inv move in \<open>metis moves_refl snd_conv\<close>)+
next
  case (cancel V trip seat legs s p r s' p')
  then have "committed s' = d \<or> committed s' = clear_legs trip seat legs d"
    using cancel_committed [OF cancel(4)] by simp
  with cancel assms(2) show ?thesis
    using db_ok_clear_legs [OF assms(2)] moves_clear_legs by auto
next
  case (reaper visit V c days l s p r l' s' p')
  obtain d1 where d1: "d1 \<in> {d, purged X V days d}"
    and d': "committed s' = d1 \<or> committed s' = snd (reap_eff visit (db_now V) d1)"
    by (rule expire_holds_reaped [OF reaper(5)]) (use reaper in simp)
  show ?thesis
    using reaper reaped_step(1) [OF assms(2) reaper(4) d1 d'] moves_reaped [OF assms(2) reaper(4) d1 d'] by simp
next
  case (snapshot collate trip s r s')
  then have "committed s' = committed s"
    by (auto simp: get_inventory_snapshot_def split: prod.splits sum.splits dest!: pool_exec_Inr pool_exec_Inl)
  with snapshot assms(2) show ?thesis by simp
next
  case (seed r)
  then show ?thesis
    using db_ok_seed [OF assms(2)] moves_seed by simp
qed


section \<open>The ledger of one leg\<close>

text \<open>
  The holds that list a leg, active or consumed: at most one, and it agrees with the seat.
  Only \<open>cancel_booking_seats\<close> can break this, by clearing a leg under the hold that lists it.
\<close>

definition ledger :: "seat_key \<Rightarrow> db \<Rightarrow> bool" where
  "ledger k d \<longleftrightarrow>
     (\<forall>h q. hold_at d h = Some q \<longrightarrow> k \<in> hold_keys q \<longrightarrow>
        seat_at d k = Some (if hr_booking q = None then SHeld h else SBooked) \<and>
        (\<forall>g p. hold_at d g = Some p \<longrightarrow> k \<in> hold_keys p \<longrightarrow> g = h))"

definition cancels :: "engine_call \<Rightarrow> seat_key \<Rightarrow> bool" where
  "cancels c k \<longleftrightarrow> (\<exists>trip seat legs r. c = CancelCall trip seat legs r \<and> k \<in> leg_keys trip seat legs)"

lemma ledger_place_hold:
  assumes "schema_ok d" and led: "ledger k d" and "legs_present q d" and "legs_free q d"
    and "hr_ref q \<notin> hold_refs d" and "hr_booking q = None"
  shows "ledger k (place_hold q d)"
proof (cases "k \<in> hold_keys q")
  case True
  with assms have free: "seat_at d k = Some SFree" and seat: "seat_at (place_hold q d) k = Some (SHeld (hr_ref q))"
    by (simp_all add: legs_present_iff legs_free_iff seat_at_place_hold)
  have old: "k \<notin> hold_keys x" if "hold_at d h = Some x" for h x
  proof
    assume "k \<in> hold_keys x"
    with led that have "seat_at d k = Some (if hr_booking x = None then SHeld h else SBooked)"
      unfolding ledger_def by blast
    with free show False by (simp split: if_splits)
  qed
  have new: "h = hr_ref q \<and> x = q" if "hold_at (place_hold q d) h = Some x" "k \<in> hold_keys x" for h x
    using that old by (auto simp: hold_at_place_hold split: option.splits if_splits)
  show ?thesis unfolding ledger_def
  proof (intro allI impI conjI)
    fix h x assume "hold_at (place_hold q d) h = Some x" "k \<in> hold_keys x"
    from new [OF this] show "seat_at (place_hold q d) k = Some (if hr_booking x = None then SHeld h else SBooked)"
      using seat assms(6) by simp
  qed (use new in blast)
next
  case False
  have "hold_at d h = Some x" if "hold_at (place_hold q d) h = Some x" "k \<in> hold_keys x" for h x
    using that False by (auto simp: hold_at_place_hold split: option.splits if_splits)
  moreover have "seat_at (place_hold q d) k = seat_at d k"
    using seat_at_place_hold [OF assms(1,4), of k] seat_at_place_hold_None [of q d k] False
    by (cases "seat_at d k") auto
  ultimately show ?thesis using led unfolding ledger_def by metis
qed

lemma ledger_shrink:
  assumes led: "ledger k d"
    and "\<And>h q. hold_at d' h = Some q \<Longrightarrow> k \<in> hold_keys q \<Longrightarrow> hold_at d h = Some q \<and> seat_at d' k = seat_at d k"
  shows "ledger k d'"
  using assms unfolding ledger_def by metis

lemma ledger_book_hold:
  assumes "db_ok d" and led: "ledger k d" and h: "hold_at d h = Some q" "hr_booking q = None"
  shows "ledger k (book_hold h b d)"
  unfolding ledger_def
proof (intro allI impI)
  fix g x assume x: "hold_at (book_hold h b d) g = Some x" "k \<in> hold_keys x"
  have old: "\<exists>y. hold_at d g = Some y \<and> hold_keys y = hold_keys x \<and> x = (if g = h then y\<lparr>hr_booking := Some b\<rparr> else y)"
    if "hold_at (book_hold h b d) g = Some x" for g x
    using that by (cases "hold_at d g") (auto simp: hold_at_book_hold dest: hold_at_key)
  from old [OF x(1)] obtain y where y: "hold_at d g = Some y" "hold_keys y = hold_keys x"
    "x = (if g = h then y\<lparr>hr_booking := Some b\<rparr> else y)" by blast
  with led x(2) have seat: "seat_at d k = Some (if hr_booking y = None then SHeld g else SBooked)"
    and uniq: "\<And>g' p. hold_at d g' = Some p \<Longrightarrow> k \<in> hold_keys p \<Longrightarrow> g' = g"
    unfolding ledger_def by blast+
  have "seat_at (book_hold h b d) k = Some (if hr_booking x = None then SHeld g else SBooked)"
    using seat y h by (auto simp: seat_at_book_hold [OF assms(1)])
  moreover have "g' = g" if "hold_at (book_hold h b d) g' = Some p" "k \<in> hold_keys p" for g' p
    using old [OF that(1)] that(2) uniq by auto
  ultimately show "seat_at (book_hold h b d) k = Some (if hr_booking x = None then SHeld g else SBooked) \<and>
      (\<forall>g' p. hold_at (book_hold h b d) g' = Some p \<longrightarrow> k \<in> hold_keys p \<longrightarrow> g' = g)"
    by blast
qed

lemma ledger_free_hold:
  assumes "db_ok d" and led: "ledger k d"
  shows "ledger k (free_hold h d)"
proof (rule ledger_shrink [OF led])
  fix g q assume q: "hold_at (free_hold h d) g = Some q" "k \<in> hold_keys q"
  then have at: "hold_at d g = Some q" "g \<noteq> h"
    using assms(1) by (auto simp: hold_at_free_hold db_okD(1) split: if_splits)
  with led q(2) have "seat_at d k \<noteq> Some (SHeld h)"
    unfolding ledger_def by (auto split: if_splits)
  with at show "hold_at d g = Some q \<and> seat_at (free_hold h d) k = seat_at d k"
    using assms(1) by (simp add: seat_at_free_hold)
qed

lemma ledger_reaped:
  assumes "db_ok d" and "visits visit"
    and "d1 \<in> {d, purged X V days d}" and "d' = d1 \<or> d' = snd (reap_eff visit now d1)"
    and led: "ledger k d"
  shows "ledger k d'"
proof (rule ledger_shrink [OF led])
  note step = reaped_step [OF assms(1-4)]
  fix g q assume q: "hold_at d' g = Some q" "k \<in> hold_keys q"
  with step(4) [of g] have at: "hold_at d g = Some q" by auto
  have "seat_at d' k = seat_at d k"
    using step(3) [of k] q led at unfolding ledger_def by (auto split: if_splits)
  with at show "hold_at d g = Some q \<and> seat_at d' k = seat_at d k" ..
qed

lemma engine_step_ledger:
  assumes "engine_step X P d c d'" and "db_ok d" and led: "ledger k d" and nc: "\<not> cancels c k"
  shows "ledger k d'"
  using assms(1)
proof cases
  case (hold V req ttl s p r s' p')
  have "ledger k (snd (hold_eff (request_row X V req t) d))" for t
    using ledger_place_hold [OF _ led, of "request_row X V req t"] led assms(2) by (auto simp: hold_eff_def)
  with hold(4) show ?thesis
    by (cases rule: atomic_hold_cases) (use hold led in \<open>metis snd_conv\<close>)+
next
  case (confirm V h b s p r s' p')
  have "ledger k (snd (confirm_eff h b (db_now V) d))"
    using ledger_book_hold [OF assms(2) led] led assms(2)
    by (auto simp: confirm_eff_def select_live_hold_eq db_okD(1) split: option.split)
  with confirm(4) show ?thesis
    by (cases rule: confirm_booking_cases) (use confirm led in \<open>metis snd_conv\<close>)+
next
  case (release V h s p r s' p')
  have "ledger k (snd (release_eff h d))"
    using ledger_free_hold [OF assms(2) led] led by (auto simp: release_eff_def split: option.split)
  with release(4) show ?thesis
    by (cases rule: release_cases) (use release led in \<open>metis snd_conv\<close>)+
next
  case (cancel V trip seat legs s p r s' p')
  then have "k \<notin> leg_keys trip seat legs" using nc by (auto simp: cancels_def)
  then have "ledger k (clear_legs trip seat legs d)"
    by (intro ledger_shrink [OF led]) (simp add: seat_at_clear_legs)
  with cancel cancel_committed [OF cancel(4)] led show ?thesis by auto
next
  case (reaper visit V c days l s p r l' s' p')
  obtain d1 where d1: "d1 \<in> {d, purged X V days d}"
    and d': "committed s' = d1 \<or> committed s' = snd (reap_eff visit (db_now V) d1)"
    by (rule expire_holds_reaped [OF reaper(5)]) (use reaper in simp)
  show ?thesis
    using reaper ledger_reaped [OF assms(2) reaper(4) d1 d' led] by simp
next
  case (snapshot collate trip s r s')
  then have "committed s' = committed s"
    by (auto simp: get_inventory_snapshot_def split: prod.splits sum.splits dest!: pool_exec_Inr pool_exec_Inl)
  with snapshot led show ?thesis by simp
next
  case (seed r)
  show ?thesis
  proof (rule ledger_shrink [OF led])
    fix h q assume q: "hold_at d' h = Some q" "k \<in> hold_keys q"
    then have at: "hold_at d h = Some q" using seed by (simp add: seed_row_def)
    with led q(2) have "row_at d k \<noteq> None" by (auto simp: ledger_def simp flip: seat_at_None)
    with at show "hold_at d h = Some q \<and> seat_at d' k = seat_at d k"
      using seed by (auto simp: seed_row_def seat_at_def row_at_def lookup_by_append split: option.split)
  qed
qed


section \<open>Histories\<close>

lemma engine_run_db_ok: "engine_run X P d cs d' \<Longrightarrow> db_ok d \<Longrightarrow> db_ok d'"
  by (induction rule: engine_run.induct) (auto dest: engine_step_moves)

lemma db_ok_empty [simp]: "db_ok empty_db"
  by (simp add: empty_db_def db_ok_def schema_ok_def linked_def exclusive_def)

text \<open>A hold that answers success found every leg it names free.\<close>

lemma successful_hold_free:
  assumes "engine_step X P d (HoldCall V req (Ok (Success b u e))) d'" and "db_ok d"
    and "k \<in> leg_keys (req_trip_id req) (req_seat_no req) (req_leg_indexes req)"
  shows "abs_seat d k = Some AFree"
  using assms(1)
proof cases
  case (hold ttl s p s' p')
  from hold(3) show ?thesis
  proof (cases rule: atomic_hold_cases)
    case (held t)
    then have "legs_present (request_row X V req t) d" "legs_free (request_row X V req t) d"
      using hold by (auto simp: hold_eff_def split: if_splits)
    then have "seat_at d k = Some SFree"
      using assms(2,3) by (simp add: legs_present_iff legs_free_iff db_okD(1))
    then show ?thesis by (rule abs_seat_simps)
  qed (simp_all add: hold_failure_def)
qed

text \<open>A set of automaton states that the calls of a history cannot leave.\<close>

definition closed_under :: "ext \<Rightarrow> engine_call list \<Rightarrow> seat_key \<Rightarrow> aseat set \<Rightarrow> bool" where
  "closed_under X cs k A \<longleftrightarrow> (\<forall>c \<in> set cs. \<forall>a \<in> A. \<forall>a'. seat_move X c k a a' \<longrightarrow> a' \<in> A)"

lemma closed_under_Cons:
  "closed_under X (c # cs) k A \<longleftrightarrow>
     (\<forall>a \<in> A. \<forall>a'. seat_move X c k a a' \<longrightarrow> a' \<in> A) \<and> closed_under X cs k A"
  by (simp add: closed_under_def)

definition holds_leg :: "engine_call \<Rightarrow> seat_key \<Rightarrow> bool" where
  "holds_leg c k \<longleftrightarrow>
     (\<exists>V req b u e. c = HoldCall V req (Ok (Success b u e)) \<and>
        k \<in> leg_keys (req_trip_id req) (req_seat_no req) (req_leg_indexes req))"

lemma engine_run_closed:
  assumes "engine_run X P d cs d'" and "db_ok d" and "abs_seat d k = Some a" and "a \<in> A"
    and "AFree \<notin> A" and "closed_under X cs k A"
  shows "(\<exists>a'. abs_seat d' k = Some a' \<and> a' \<in> A) \<and> (\<forall>c \<in> set cs. \<not> holds_leg c k)"
  using assms
proof (induction arbitrary: a rule: engine_run.induct)
  case (stop d)
  then show ?case by simp
next
  case (call d c d1 cs d')
  note ok1 = engine_step_moves [OF call.hyps(1) call.prems(1), THEN conjunct1]
  obtain a1 where a1: "abs_seat d1 k = Some a1" "seat_move X c k a a1"
    using moves_Some [OF engine_step_moves [OF call.hyps(1) call.prems(1), THEN conjunct2] call.prems(2)] by blast
  have "a1 \<in> A" "closed_under X cs k A"
    using call.prems(3,5) a1(2) unfolding closed_under_Cons by blast+
  then have "(\<exists>a'. abs_seat d' k = Some a' \<and> a' \<in> A) \<and> (\<forall>c \<in> set cs. \<not> holds_leg c k)"
    by (intro call.IH [OF ok1 a1(1) _ call.prems(4)])
  moreover have "\<not> holds_leg c k"
  proof
    assume "holds_leg c k"
    then have "abs_seat d k = Some AFree"
      unfolding holds_leg_def using successful_hold_free call.hyps(1) call.prems(1) by blast
    with call.prems(2-4) show False by simp
  qed
  ultimately show ?case by simp
qed

lemma booked_stays:
  assumes "seat_move X c k ABooked a" and "\<not> cancels c k"
  shows "a = ABooked"
  using assms(1) by cases (use assms(2) in \<open>auto simp: cancels_def\<close>)

lemma held_stays:
  assumes "seat_move X c k (AHeld h t) a"
    and "\<not> cancels c k \<and> (\<forall>r. c \<noteq> ReleaseCall h r) \<and> (\<forall>V r. c = ReaperCall V r \<longrightarrow> db_now V < t)"
  shows "a \<in> {AHeld h t, ABooked}"
  using assms(1) by cases (use assms(2) in \<open>auto simp: cancels_def\<close>)

text \<open>
  C3. Refinement: whatever fails inside it, each operation of the engine takes every leg of
  every seat along one allowed move of the seat automaton: a hold only takes free legs it
  names, a confirmation only books legs held by its reference before their expiry, a release
  frees only legs held by its reference, the reaper only legs whose hold has expired, a
  cancellation only the legs it names. No operation creates or removes a leg, and the
  database stays consistent.
\<close>

theorem engine_refines_seats:
  assumes "engine_step X P d c d'" and "db_ok d"
  shows "db_ok d' \<and>
    (\<forall>k a. abs_seat d k = Some a \<longrightarrow> (\<exists>a'. abs_seat d' k = Some a' \<and> seat_move X c k a a')) \<and>
    (\<forall>k. abs_seat d k = None \<longrightarrow> abs_seat d' k \<noteq> None \<longrightarrow>
       (\<exists>r. c = SeedCall r) \<and> abs_seat d' k = Some AFree)"
  using engine_step_moves [OF assms] moves_Some [of X c d d'] moves_None [of X c d d'] by blast

theorem engine_refines_seats_witness:
  "\<exists>r d' a'. engine_step sample_ext recording_publish sample_db
      (HoldCall (sample_env 7 1000) (sample_req ''1A'' [0]) r) d' \<and> db_ok d' \<and>
     abs_seat d' (1, ''1A'', 0) = Some a' \<and>
     seat_move sample_ext (HoldCall (sample_env 7 1000) (sample_req ''1A'' [0]) r) (1, ''1A'', 0) AFree a'"
proof -
  obtain r s' p' where run: "atomic_hold sample_ext (sample_env 7 1000) recording_publish
      (sample_req ''1A'' [0]) 300 (fresh_session sample_db [], []) = (r, s', p')"
    by (metis surj_pair)
  note step = engine_step.hold [OF run, simplified]
  have "abs_seat sample_db (1, ''1A'', 0) = Some AFree" by (simp add: abs_seat_def)
  with engine_refines_seats [OF step sample_db_ok(1)] step show ?thesis by blast
qed

text \<open>
  C6. A held leg belongs to its holder: from the moment a leg is held by \<open>h\<close> until \<open>t\<close>, as
  long as nobody releases \<open>h\<close>, no cancellation names the leg and no reaper pass runs at or
  after \<open>t\<close>, the leg is held by \<open>h\<close> or booked, and no hold that names the leg succeeds.
\<close>

theorem held_leg_is_exclusive:
  assumes "engine_run X P d cs d'" and "db_ok d" and "abs_seat d k = Some (AHeld h t)"
    and "\<forall>c \<in> set cs. \<not> cancels c k \<and> (\<forall>r. c \<noteq> ReleaseCall h r) \<and>
      (\<forall>V r. c = ReaperCall V r \<longrightarrow> db_now V < t)"
  shows "abs_seat d' k \<in> {Some (AHeld h t), Some ABooked} \<and>
    (\<forall>c \<in> set cs. \<not> holds_leg c k)"
proof -
  have "closed_under X cs k {AHeld h t, ABooked}"
    unfolding closed_under_def
  proof (intro ballI allI impI)
    fix c a a' assume c: "c \<in> set cs" "a \<in> {AHeld h t, ABooked}" "seat_move X c k a a'"
    note quiet = bspec [OF assms(4) c(1)]
    from c(2) consider "a = AHeld h t" | "a = ABooked" by auto
    then show "a' \<in> {AHeld h t, ABooked}"
      using c(3) held_stays [OF _ quiet, of X] booked_stays [OF _ conjunct1 [OF quiet], of X] by cases auto
  qed
  from engine_run_closed [OF assms(1-3) _ _ this] show ?thesis by auto
qed

theorem held_leg_is_exclusive_witness:
  "\<exists>r1 r2 d'. engine_run sample_ext recording_publish held_db
      [HoldCall (sample_env 8 100) (sample_req ''1A'' [1, 0]) r1, ConfirmCall (sample_env 9 200) ''h'' ''BK'' r2] d' \<and>
     abs_seat d' (1, ''1A'', 0) \<in> {Some (AHeld ''h'' 500), Some ABooked} \<and>
     \<not> holds_leg (HoldCall (sample_env 8 100) (sample_req ''1A'' [1, 0]) r1) (1, ''1A'', 0)"
proof -
  obtain r1 s1 p1 where run1: "atomic_hold sample_ext (sample_env 8 100) recording_publish
      (sample_req ''1A'' [1, 0]) 300 (fresh_session held_db [], []) = (r1, s1, p1)"
    by (metis surj_pair)
  obtain r2 s2 p2 where run2: "confirm_booking sample_ext (sample_env 9 200) recording_publish ''h'' ''BK''
      (s1, p1) = (r2, s2, p2)"
    by (metis surj_pair)
  let ?cs = "[HoldCall (sample_env 8 100) (sample_req ''1A'' [1, 0]) r1, ConfirmCall (sample_env 9 200) ''h'' ''BK'' r2]"
  have run: "engine_run sample_ext recording_publish held_db ?cs (committed s2)"
    using engine_step.hold [OF run1] engine_step.confirm [OF run2] by (auto intro: engine_run.intros)
  have "abs_seat held_db (1, ''1A'', 0) = Some (AHeld ''h'' 500)" by (simp add: abs_seat_def)
  from held_leg_is_exclusive [OF run _ this] run show ?thesis
    by (auto simp: cancels_def)
qed

text \<open>
  C7. A booking is permanent: a booked leg stays booked, and no hold that names it succeeds,
  until a cancellation names it. In particular no failure, retry, expiry or retention purge
  ever puts a sold seat back on sale.
\<close>

theorem booked_until_cancelled:
  assumes "engine_run X P d cs d'" and "db_ok d" and "seat_at d k = Some SBooked"
    and "\<forall>c \<in> set cs. \<not> cancels c k"
  shows "seat_at d' k = Some SBooked \<and>
    (\<forall>c \<in> set cs. \<not> holds_leg c k)"
proof -
  have "closed_under X cs k {ABooked}"
    unfolding closed_under_def using assms(4) booked_stays by blast
  from engine_run_closed [OF assms(1,2) abs_seat_simps(2) [OF assms(3)] _ _ this]
  have "abs_seat d' k = Some ABooked" "\<forall>c \<in> set cs. \<not> holds_leg c k" by auto
  then show ?thesis
    by (auto simp: abs_seat_def split: option.splits seat.splits)
qed

theorem booked_until_cancelled_witness:
  "\<exists>r d'. engine_run sample_ext recording_publish (book_hold ''h'' ''BK'' held_db)
      [ReaperCall (sample_env 1 900) r] d' \<and> seat_at d' (1, ''1A'', 0) = Some SBooked"
proof -
  let ?d = "book_hold ''h'' ''BK'' held_db"
  obtain r l' s' p' where run1: "expire_holds sample_ext (\<lambda>qs. qs) (sample_env 1 900) 3 recording_publish 30
      (None, fresh_session ?d [], []) = (r, l', s', p')" by (metis surj_pair)
  have v: "visits (\<lambda>qs. qs)" by (simp add: visits_def)
  have run: "engine_run sample_ext recording_publish ?d [ReaperCall (sample_env 1 900) r] (committed s')"
    using engine_step.reaper [OF v run1] by (auto intro: engine_run.intros)
  have ok: "db_ok ?d" and booked: "seat_at ?d (1, ''1A'', 0) = Some SBooked"
    by (simp_all add: db_ok_book_hold seat_at_book_hold)
  from booked_until_cancelled [OF run ok booked] have "seat_at (committed s') (1, ''1A'', 0) = Some SBooked"
    by (simp add: cancels_def)
  with run show ?thesis by blast
qed

text \<open>
  C2. No double booking. In every database the engine can reach from an empty one, a leg is
  held by at most one reference, and that is an active hold which lists the leg. When the
  history cancels leg \<open>k\<close> nowhere, at most one hold row at all lists \<open>k\<close>: when it carries a
  booking the leg is booked, otherwise the leg is held by exactly that hold. A cancellation
  clears a leg under the hold that lists it, and after it another hold may list it too.
\<close>

theorem one_owner_per_leg:
  assumes "engine_run X P empty_db cs d"
  shows "db_ok d \<and>
    (\<forall>h. seat_at d k = Some (SHeld h) \<longrightarrow> (\<exists>q. hold_at d h = Some q \<and> hr_booking q = None \<and> k \<in> hold_keys q)) \<and>
    ((\<forall>c \<in> set cs. \<not> cancels c k) \<longrightarrow>
       (\<forall>h q. hold_at d h = Some q \<longrightarrow> k \<in> hold_keys q \<longrightarrow>
          seat_at d k = Some (if hr_booking q = None then SHeld h else SBooked) \<and>
          (\<forall>g p. hold_at d g = Some p \<longrightarrow> k \<in> hold_keys p \<longrightarrow> g = h)))"
proof -
  have "ledger k d'" if "engine_run X P d0 cs' d'" "\<forall>c \<in> set cs'. \<not> cancels c k" "db_ok d0" "ledger k d0"
    for d0 cs' d'
    using that
  proof (induction rule: engine_run.induct)
    case (call d c d1 cs d')
    then show ?case
      using engine_step_moves [OF call.hyps(1) call.prems(2)] engine_step_ledger [OF call.hyps(1) call.prems(2,3)]
      by simp
  qed
  moreover have "ledger k empty_db"
    by (simp add: ledger_def empty_db_def hold_at_def)
  ultimately have led: "ledger k d" if "\<forall>c \<in> set cs. \<not> cancels c k"
    using assms that by simp
  have ok: "db_ok d" using engine_run_db_ok [OF assms] by simp
  show ?thesis
    using ok led linked_hold_at [OF ok, of k] unfolding ledger_def
    by (auto simp: seat_at_def seat_of_def split: option.splits if_splits)
qed

theorem one_owner_per_leg_witness:
  "\<exists>r d q. engine_run sample_ext recording_publish empty_db
      [SeedCall (free_row 1 ''1A'' 0), HoldCall (sample_env 7 0) (sample_req ''1A'' [0]) r] d \<and>
     hold_at d ''uuuuuuu'' = Some q \<and> hr_booking q = None \<and> seat_at d (1, ''1A'', 0) = Some (SHeld ''uuuuuuu'')"
proof -
  let ?d = "seed_row (free_row 1 ''1A'' 0) empty_db"
  let ?run = "atomic_hold sample_ext (sample_env 7 0) recording_publish (sample_req ''1A'' [0]) 300
      (fresh_session ?d [], [])"
  obtain r s' p' where run1: "?run = (r, s', p')" by (metis surj_pair)
  have "engine_step sample_ext recording_publish empty_db (SeedCall (free_row 1 ''1A'' 0)) ?d"
    by (rule engine_step.seed) (simp_all add: free_row_def empty_db_def row_at_def)
  with engine_step.hold [OF run1]
  have run: "engine_run sample_ext recording_publish empty_db
      [SeedCall (free_row 1 ''1A'' 0), HoldCall (sample_env 7 0) (sample_req ''1A'' [0]) r] (committed s')"
    by (auto intro: engine_run.intros)
  let ?q = "request_row sample_ext (sample_env 7 0) (sample_req ''1A'' [0]) 300000000"
  have "hold_at (committed (fst (snd ?run))) ''uuuuuuu'' = Some ?q" by code_simp
  with run1 have at: "hold_at (committed s') ''uuuuuuu'' = Some ?q" by simp
  have "(1, ''1A'', 0) \<in> hold_keys ?q" by simp
  moreover have "\<forall>c \<in> set [SeedCall (free_row 1 ''1A'' 0), HoldCall (sample_env 7 0) (sample_req ''1A'' [0]) r].
      \<not> cancels c (1, ''1A'', 0)" by (simp add: cancels_def)
  ultimately have "seat_at (committed s') (1, ''1A'', 0) = Some (if hr_booking ?q = None then SHeld ''uuuuuuu'' else SBooked)"
    using one_owner_per_leg [OF run, of "(1, ''1A'', 0)"] at by blast
  then have "seat_at (committed s') (1, ''1A'', 0) = Some (SHeld ''uuuuuuu'')" by simp
  with run at show ?thesis by fastforce
qed

text \<open>What a cancellation leaves: the leg is held again while the first hold still lists it.\<close>

lemma cancelled_leg_listed_twice:
  obtains r1 r2 r3 d q1 q2 where "engine_run sample_ext recording_publish (seed_row (free_row 1 ''1A'' 0) empty_db)
      [HoldCall (sample_env 1 0) (sample_req ''1A'' [0]) r1, CancelCall 1 ''1A'' [0] r2,
       HoldCall (sample_env 2 0) (sample_req ''1A'' [0]) r3] d"
    and "hold_at d ''u'' = Some q1" and "hr_booking q1 = None" and "(1, ''1A'', 0) \<in> hold_keys q1"
    and "hold_at d ''uu'' = Some q2" and "hr_booking q2 = None" and "(1, ''1A'', 0) \<in> hold_keys q2"
proof -
  let ?P = recording_publish and ?req = "sample_req ''1A'' [0]"
  let ?w0 = "(fresh_session (seed_row (free_row 1 ''1A'' 0) empty_db) [], [])"
  let ?a = "atomic_hold sample_ext (sample_env 1 0) ?P ?req 300 ?w0"
  let ?b = "cancel_booking_seats sample_ext (sample_env 1 0) ?P 1 ''1A'' [0] (snd ?a)"
  let ?c = "atomic_hold sample_ext (sample_env 2 0) ?P ?req 300 (snd ?b)"
  obtain r1 s1 p1 where a: "?a = (r1, s1, p1)" by (metis surj_pair)
  obtain r2 s2 p2 where b: "?b = (r2, s2, p2)" by (metis surj_pair)
  obtain r3 s3 p3 where c: "?c = (r3, s3, p3)" by (metis surj_pair)
  have run: "engine_run sample_ext ?P (seed_row (free_row 1 ''1A'' 0) empty_db)
      [HoldCall (sample_env 1 0) ?req r1, CancelCall 1 ''1A'' [0] r2, HoldCall (sample_env 2 0) ?req r3] (committed s3)"
    using engine_step.hold [OF a] engine_step.cancel [OF b [unfolded a snd_conv]] engine_step.hold [OF c [unfolded b snd_conv]]
    by (auto intro: engine_run.intros)
  have "hold_at (committed (fst (snd ?c))) ''u'' = Some (request_row sample_ext (sample_env 1 0) ?req 300000000)"
    "hold_at (committed (fst (snd ?c))) ''uu'' = Some (request_row sample_ext (sample_env 2 0) ?req 300000000)" by code_simp+
  then have at: "hold_at (committed s3) ''u'' = Some (request_row sample_ext (sample_env 1 0) ?req 300000000)"
    "hold_at (committed s3) ''uu'' = Some (request_row sample_ext (sample_env 2 0) ?req 300000000)" unfolding c by simp_all
  show ?thesis by (rule that [OF run at(1) _ _ at(2)]) simp_all
qed

text \<open>
  C34. A confirmation that answers success need not have booked anything: once a
  cancellation has cleared all legs of an active hold, confirming that hold before its expiry
  still answers success, writes the booking into the hold row, and leaves every leg of it
  free for the next customer.
\<close>

theorem confirm_after_cancel:
  assumes "db_ok (committed s)" and "hold_at (committed s) h = Some q" and "hr_booking q = None"
    and "covers (committed s) q"
    and "cancel_booking_seats X V P (hr_trip q) (hr_seat q) (hr_legs q) (s, p) = (Ok c, s1, p1)"
    and "no_faults s1" and "db_now V2 < hr_expires q"
    and "confirm_booking X V2 P h b (s1, p1) = (r, s2, p2)"
  shows "r = Ok \<lparr>conf_success = True, conf_conflict = None\<rparr> \<and>
    hold_at (committed s2) h = Some (q\<lparr>hr_booking := Some b\<rparr>) \<and>
    (\<forall>k \<in> hold_keys q. seat_at (committed s2) k = Some SFree)"
proof -
  let ?d1 = "clear_legs (hr_trip q) (hr_seat q) (hr_legs q) (committed s)"
  have d1: "committed s1 = ?d1"
    using assms(5) cancel_txn_replied [of "hr_trip q" "hr_seat q" "hr_legs q" s]
    by (auto simp: cancel_booking_seats_def cancel_eff_def split: prod.splits sum.splits)
  have ok1: "db_ok ?d1" using assms(1) by (rule db_ok_clear_legs)
  have free: "seat_at ?d1 k = Some SFree" if "k \<in> hold_keys q" for k
    using that assms(4) by (auto simp: covers_def seat_at_clear_legs)
  have eff: "confirm_eff h b (db_now V2) ?d1 = (Inr (Inr q), book_hold h b ?d1)"
    using assms(2,3,7) confirm_eff_booked [OF db_okD(1) [OF ok1]] by simp
  from assms(8) have "r = Ok \<lparr>conf_success = True, conf_conflict = None\<rparr>" "committed s2 = book_hold h b ?d1"
    by (cases rule: confirm_booking_cases; use eff assms(6) d1 in simp)+
  then show ?thesis
    using free assms(2) hold_at_key [OF assms(2)]
    by (simp add: seat_at_book_hold [OF ok1] hold_at_book_hold)
qed

theorem confirm_after_cancel_witness:
  "\<exists>s1 p1 s2 p2.
     cancel_booking_seats sample_ext (sample_env 1 100) recording_publish 1 ''1A'' [0, 1]
       (fresh_session held_db [], []) = (Ok \<lparr>can_success = True\<rparr>, s1, p1) \<and>
     confirm_booking sample_ext (sample_env 2 200) recording_publish ''h'' ''BK'' (s1, p1) =
       (Ok \<lparr>conf_success = True, conf_conflict = None\<rparr>, s2, p2) \<and>
     seat_at (committed s2) (1, ''1A'', 0) = Some SFree"
proof -
  let ?run = "cancel_booking_seats sample_ext (sample_env 1 100) recording_publish 1 ''1A'' [0, 1]
       (fresh_session held_db [], [])"
  obtain r1 s1 p1 where run1: "?run = (r1, s1, p1)" by (metis surj_pair)
  have "fst ?run = Ok \<lparr>can_success = True\<rparr>" and "no_faults (fst (snd ?run))" by code_simp+
  with run1 have first: "?run = (Ok \<lparr>can_success = True\<rparr>, s1, p1)" and nf: "no_faults s1" by simp_all
  obtain r2 s2 p2 where run2: "confirm_booking sample_ext (sample_env 2 200) recording_publish ''h'' ''BK''
      (s1, p1) = (r2, s2, p2)" by (metis surj_pair)
  have cov: "covers held_db sample_hold" by (auto simp: covers_def leg_keys_def)
  have "r2 = Ok \<lparr>conf_success = True, conf_conflict = None\<rparr> \<and>
      (\<forall>k \<in> hold_keys sample_hold. seat_at (committed s2) k = Some SFree)"
    using confirm_after_cancel [where s = "fresh_session held_db []" and h = "''h''" and q = sample_hold, simplified,
        OF cov first nf _ run2] by simp
  with first run2 show ?thesis by auto
qed

end
