(* ===== verification/Hmac.thy ===== *)
theory Hmac
  imports Http "HOL-Library.Sublist"
begin

text \<open>
  \<open>engine-server/src/middleware/hmac.rs\<close>: the service-to-service authentication layer, and
  the client side of the same scheme in \<open>loadtest/src/main.rs\<close>. What a request must carry to
  pass, that a request signed by the client passes, what the signature covers and what it
  does not.
\<close>

section \<open>Cryptography\<close>

text \<open>
  The crates \<open>sha2\<close>, \<open>hmac\<close> and \<open>hex\<close> are not part of the repository. \<open>hmac_sha256\<close> is
  \<open>None\<close> when the key is refused.
\<close>

record crypto =
  sha256 :: "string \<Rightarrow> string"
  hmac_sha256 :: "string \<Rightarrow> string \<Rightarrow> string option"
  hex_encode :: "string \<Rightarrow> string"
  hex_decode :: "string \<Rightarrow> string option"

text \<open>
  Documented behaviour of the crates: hex is lower case, two digits per byte, and decodes back; a digest
  has 32 bytes.
\<close>

definition crypto_ok :: "crypto \<Rightarrow> bool" where
  "crypto_ok K \<longleftrightarrow>
     (\<forall>b. hex_decode K (hex_encode K b) = Some b \<and> length (hex_encode K b) = 2 * length b) \<and>
     (\<forall>b. list_all visible (hex_encode K b)) \<and>
     (\<forall>m. length (sha256 K m) = 32) \<and>
     (\<forall>k m t. hmac_sha256 K k m = Some t \<longrightarrow> length t = 32)"

text \<open>Configuration of the layer: the fields of \<open>AppState\<close> it reads, and the build profile,
  which decides whether \<open>i64\<close> arithmetic panics on overflow or wraps.\<close>

record auth_state =
  hmac_secret :: string
  hmac_skew_secs :: "64 word"
  allowed_service_ids :: "string list"
  overflow_checks :: bool

section \<open>The verification\<close>

definition upper_char :: "char \<Rightarrow> char" where
  "upper_char c = (let n = of_char c :: nat in if 97 \<le> n \<and> n \<le> 122 then char_of (n - 32) else c)"

definition to_uppercase :: "string \<Rightarrow> string" where
  "to_uppercase = map upper_char"

definition signing_string :: "64 word \<Rightarrow> string \<Rightarrow> string \<Rightarrow> string \<Rightarrow> string" where
  "signing_string ts method_up path body_sha =
     show_i64 ts @ ''.'' @ method_up @ ''.'' @ path @ ''.'' @ body_sha"

text \<open>
  \<open>(now - timestamp).abs() > skew\<close> on \<open>i64\<close>. \<open>None\<close> is the panic of a build with overflow
  checks; without them both operations wrap.
\<close>

definition abs_wrapping :: "64 word \<Rightarrow> 64 word" where
  "abs_wrapping w = (if sint w < 0 then - w else w)"

definition sub_overflows :: "64 word \<Rightarrow> 64 word \<Rightarrow> bool" where
  "sub_overflows a b \<longleftrightarrow> sint a - sint b \<notin> {- (2 ^ 63) ..< 2 ^ 63}"

definition skew_exceeded :: "bool \<Rightarrow> 64 word \<Rightarrow> 64 word \<Rightarrow> 64 word \<Rightarrow> bool option" where
  "skew_exceeded checks skew now timestamp =
     (let diff = now - timestamp
      in if checks \<and> (sub_overflows now timestamp \<or> sint diff = - (2 ^ 63)) then None
         else Some (sint (abs_wrapping diff) > sint skew))"

text \<open>
  \<open>nxt\<close> is the rest of the server, a function of the request and the state it acts on. No
  response (\<open>None\<close>) is a panic of the task that serves the request; what was committed before
  stays. The layers return \<open>Result<Response, Response>\<close>.
\<close>

type_synonym 'w service = "http_request \<Rightarrow> 'w \<Rightarrow> http_response option \<times> 'w"
type_synonym 'w layered = "http_request \<Rightarrow> 'w \<Rightarrow> (http_response + http_response) option \<times> 'w"

definition verify ::
  "ext \<Rightarrow> crypto \<Rightarrow> auth_state \<Rightarrow> 64 word \<Rightarrow> 'w service \<Rightarrow> 'w layered" where
  "verify X K A now nxt request w =
     (let reject = (\<lambda>e. (Some (Inl (into_response X e)), w));
          run = (\<lambda>r. case nxt r w of (resp, w1) \<Rightarrow> (map_option Inr resp, w1));
          path = rq_path request
      in if path = ''/api/v1/healthz'' then run request
         else
      (case header_str ''x-service-id'' (rq_headers request) of
         None \<Rightarrow> reject (unauthorized ''missing X-Service-Id'')
       | Some svc_id \<Rightarrow>
      (case header_str ''x-signature'' (rq_headers request) of
         None \<Rightarrow> reject (unauthorized ''missing X-Signature'')
       | Some signature_hex \<Rightarrow>
      (case header_str ''x-timestamp'' (rq_headers request) of
         None \<Rightarrow> reject (unauthorized ''missing X-Timestamp'')
       | Some timestamp_str \<Rightarrow>
      (case parse_i64 timestamp_str of
         None \<Rightarrow> reject (unauthorized ''invalid X-Timestamp'')
       | Some timestamp \<Rightarrow>
      (case skew_exceeded (overflow_checks A) (hmac_skew_secs A) now timestamp of
         None \<Rightarrow> (None, w)
       | Some exceeded \<Rightarrow>
      if exceeded then reject (unauthorized ''timestamp skew exceeded'')
      else
      (case to_bytes (rq_body request) MAX_BODY_BYTES of
         None \<Rightarrow> reject (api_new 413 ''BODY_TOO_LARGE'' ''body exceeds 1MB'')
       | Some bytes \<Rightarrow>
      (case hmac_sha256 K (hmac_secret A)
              (signing_string timestamp (to_uppercase (rq_method request)) path
                 (hex_encode K (sha256 K bytes))) of
         None \<Rightarrow> reject (internal ''invalid HMAC key'')
       | Some expected \<Rightarrow>
      (case hex_decode K signature_hex of
         None \<Rightarrow> reject (unauthorized ''invalid signature encoding'')
       | Some got \<Rightarrow>
      if length got \<noteq> length expected \<or> got \<noteq> expected then
        reject (unauthorized ''signature mismatch'')
      else if allowed_service_ids A \<noteq> [] \<and> \<not> (\<exists>allowed \<in> set (allowed_service_ids A). allowed = svc_id)
      then reject (unauthorized ''X-Service-Id not in allowlist'')
      else run (request\<lparr>rq_body := Some bytes, rq_identity := Some svc_id\<rparr>))))))))))"


section \<open>The client side\<close>

text \<open>\<open>sign\<close> of the load test: service id, timestamp and signature. \<open>None\<close> is a refused key.\<close>

definition sign ::
  "crypto \<Rightarrow> 64 word \<Rightarrow> string \<Rightarrow> string \<Rightarrow> string \<Rightarrow> string \<Rightarrow> (string \<times> string \<times> string) option" where
  "sign K now method path body secret =
     (let ts = show_i64 now;
          body_sha = hex_encode K (sha256 K body);
          signing = ts @ ''.'' @ to_uppercase method @ ''.'' @ path @ ''.'' @ body_sha
      in map_option (\<lambda>sig. (''loadtest'', ts, hex_encode K sig)) (hmac_sha256 K secret signing))"

text \<open>
  The request the load test sends with these headers: a \<open>POST\<close> also names its content type and
  its idempotency key, a \<open>DELETE\<close> has neither.
\<close>

definition signed_request ::
  "string \<Rightarrow> string \<Rightarrow> string option \<Rightarrow> string \<Rightarrow> string \<times> string \<times> string \<Rightarrow> http_request" where
  "signed_request method path idem body hs =
     (case hs of (svc, ts, sig) \<Rightarrow>
        (let signed = [(''x-service-id'', svc), (''x-timestamp'', ts), (''x-signature'', sig)]
         in \<lparr>rq_method = method, rq_path = path, rq_query = [],
             rq_headers = (case idem of None \<Rightarrow> signed
               | Some k \<Rightarrow> [(''content-type'', ''application/json'')] @ signed @ [(''idempotency-key'', k)]),
             rq_body = Some body, rq_identity = None\<rparr>))"

section \<open>What passes\<close>

text \<open>The abstract criterion: the request is signed for this service, in time.\<close>

definition authentic ::
  "crypto \<Rightarrow> auth_state \<Rightarrow> 64 word \<Rightarrow> http_request \<Rightarrow> string \<Rightarrow> string \<Rightarrow> bool" where
  "authentic K A now request svc bytes \<longleftrightarrow>
     header_str ''x-service-id'' (rq_headers request) = Some svc \<and>
     (allowed_service_ids A = [] \<or> svc \<in> set (allowed_service_ids A)) \<and>
     rq_body request = Some bytes \<and> length bytes \<le> MAX_BODY_BYTES \<and>
     (\<exists>sig tstr ts mac.
        header_str ''x-signature'' (rq_headers request) = Some sig \<and>
        header_str ''x-timestamp'' (rq_headers request) = Some tstr \<and>
        parse_i64 tstr = Some ts \<and>
        skew_exceeded (overflow_checks A) (hmac_skew_secs A) now ts = Some False \<and>
        hmac_sha256 K (hmac_secret A)
          (signing_string ts (to_uppercase (rq_method request)) (rq_path request)
             (hex_encode K (sha256 K bytes))) = Some mac \<and>
        hex_decode K sig = Some mac)"

definition refusal :: "http_response \<Rightarrow> bool" where
  "refusal resp \<longleftrightarrow> rs_status resp \<in> {401, 413, 500}"

lemma refusal_intros [simp]:
  "refusal (into_response X (unauthorized m))"
  "refusal (into_response X (api_new 413 c m))"
  "refusal (into_response X (internal m))"
  by (simp_all add: refusal_def into_response_def json_response_def unauthorized_def internal_def
      api_new_def split: option.split)

text \<open>The request that the rest of the server gets to see.\<close>

definition forwarded ::
  "crypto \<Rightarrow> auth_state \<Rightarrow> 64 word \<Rightarrow> http_request \<Rightarrow> http_request \<Rightarrow> bool" where
  "forwarded K A now request req' \<longleftrightarrow>
     (if rq_path request = ''/api/v1/healthz'' then req' = request
      else \<exists>svc bytes. authentic K A now request svc bytes \<and>
             req' = request\<lparr>rq_body := Some bytes, rq_identity := Some svc\<rparr>)"

lemma verify_forwards:
  assumes "forwarded K A now request fw"
  shows "verify X K A now nxt request w = (case nxt fw w of (resp, w1) \<Rightarrow> (map_option Inr resp, w1))"
  using assms unfolding forwarded_def authentic_def
  by (auto simp: verify_def Let_def to_bytes_def split: if_splits)

lemma verify_refuses:
  assumes "\<nexists>fw. forwarded K A now request fw"
  shows "\<exists>r. verify X K A now nxt request w = (r, w) \<and>
    (case r of None \<Rightarrow> overflow_checks A | Some (Inl resp) \<Rightarrow> refusal resp | Some (Inr resp) \<Rightarrow> False)"
proof -
  have "skew_exceeded c z n ts = None \<Longrightarrow> c" for c z n ts
    by (auto simp: skew_exceeded_def Let_def split: if_splits)
  moreover have "rq_path request \<noteq> ''/api/v1/healthz''"
    using assms by (auto simp: forwarded_def)
  ultimately show ?thesis
    using assms unfolding verify_def Let_def authentic_def forwarded_def to_bytes_def
    by (auto split: option.splits if_splits)
qed

text \<open>
  C15. The authentication layer runs the rest of the server exactly for the liveness path (with
  any method) and for authentic requests, and then once, on the same method, path and body,
  with the service id as identity. Every other request is answered 401, 413 or 500 and
  changes nothing, except that a build with overflow checks may panic on the timestamp.
\<close>

theorem verify_authenticates:
  assumes "verify X K A now nxt request w = (r, w')"
  shows "case r of
      Some (Inr resp) \<Rightarrow> \<exists>req'. forwarded K A now request req' \<and> nxt req' w = (Some resp, w')
    | Some (Inl resp) \<Rightarrow> w' = w \<and> refusal resp \<and> (\<nexists>req'. forwarded K A now request req')
    | None \<Rightarrow>
        (\<exists>req'. forwarded K A now request req' \<and> nxt req' w = (None, w')) \<or>
        overflow_checks A \<and> w' = w"
proof (cases "\<exists>fw. forwarded K A now request fw")
  case True
  then obtain fw where fw: "forwarded K A now request fw" by blast
  obtain resp w1 where "nxt fw w = (resp, w1)" by (metis surj_pair)
  with verify_forwards [OF fw, of X nxt w] assms fw show ?thesis
    by (cases resp) auto
next
  case False
  from verify_refuses [OF this, of X nxt w] assms False show ?thesis
    by (auto split: option.splits sum.splits)
qed

text \<open>An instance of the cryptographic functions for concrete runs (of no cryptographic value).\<close>

definition nibble :: "nat \<Rightarrow> char" where
  "nibble n = char_of (if n < 10 then 48 + n else 87 + n)"

definition unnibble :: "char \<Rightarrow> nat" where
  "unnibble c = (let n = of_char c in if n < 58 then n - 48 else n - 87)"

fun toy_hex :: "string \<Rightarrow> string" where
  "toy_hex [] = []"
| "toy_hex (c # cs) = nibble (of_char c div 16) # nibble (of_char c mod 16) # toy_hex cs"

fun toy_unhex :: "string \<Rightarrow> string option" where
  "toy_unhex [] = Some []"
| "toy_unhex [c] = None"
| "toy_unhex (a # b # cs) = map_option ((#) (char_of (16 * unnibble a + unnibble b))) (toy_unhex cs)"

definition sample_crypto :: crypto where
  "sample_crypto =
     \<lparr>sha256 = (\<lambda>m. replicate 32 (char_of (length m))),
      hmac_sha256 = (\<lambda>k m. Some (replicate 32 (char_of (length k + 3 * length m)))),
      hex_encode = toy_hex, hex_decode = toy_unhex\<rparr>"

lemma unnibble_nibble [simp]: "n < 16 \<Longrightarrow> unnibble (nibble n) = n"
  by (simp add: unnibble_def nibble_def Let_def of_char_of)

lemma visible_nibble [simp]: "n < 16 \<Longrightarrow> visible (nibble n)"
  by (simp add: visible_def nibble_def Let_def of_char_of)

lemma toy_hex_ok [simp]:
  "toy_unhex (toy_hex b) = Some b" "length (toy_hex b) = 2 * length b" "list_all visible (toy_hex b)"
proof (induction b)
  case (Cons c b)
  have "of_char c div 16 < (16::nat)"
    using nat_of_char_less_256 [of c] by (simp add: div_less_iff_less_mult)
  with Cons show "toy_unhex (toy_hex (c # b)) = Some (c # b)" "length (toy_hex (c # b)) = 2 * length (c # b)"
    "list_all visible (toy_hex (c # b))"
    by simp_all
qed simp_all

lemma sample_crypto_ok [simp]: "crypto_ok sample_crypto"
  by (auto simp: crypto_ok_def sample_crypto_def)

section \<open>A client that signs is let in\<close>

lemma visible_show_i64: "list_all visible (show_i64 w)"
proof -
  have "visible c" if "c \<in> set (show_nat n)" for c n
    using show_nat_digits [OF that] by (auto simp: visible_def Let_def)
  then show ?thesis
    by (auto simp: show_i64_def show_int_def list_all_iff visible_def)
qed

text \<open>A request with the headers of the client is authentic for a server that shares the secret.\<close>

lemma sign_authentic:
  assumes "crypto_ok K"
    and "sign K t (rq_method r) (rq_path r) body (hmac_secret A) = Some (svc, ts, sig)"
    and "skew_exceeded (overflow_checks A) (hmac_skew_secs A) now t = Some False"
    and "rq_body r = Some body" and "length body \<le> MAX_BODY_BYTES"
    and "allowed_service_ids A = [] \<or> ''loadtest'' \<in> set (allowed_service_ids A)"
    and "map_of (rq_headers r) ''x-service-id'' = Some svc" and "map_of (rq_headers r) ''x-timestamp'' = Some ts"
    and "map_of (rq_headers r) ''x-signature'' = Some sig"
  shows "authentic K A now r ''loadtest'' body"
proof -
  from assms(2) obtain mac where
    mac: "hmac_sha256 K (hmac_secret A)
        (signing_string t (to_uppercase (rq_method r)) (rq_path r) (hex_encode K (sha256 K body))) = Some mac"
    and hs: "svc = ''loadtest''" "ts = show_i64 t" "sig = hex_encode K mac"
    by (auto simp: sign_def Let_def signing_string_def)
  have "list_all visible ''loadtest''" by code_simp
  moreover have "list_all visible (hex_encode K mac)" "hex_decode K (hex_encode K mac) = Some mac"
    using assms(1) by (simp_all add: crypto_ok_def)
  ultimately show ?thesis
    using assms(3-9) mac visible_show_i64 [of t]
    by (simp add: authentic_def header_str_def hs)
qed

text \<open>
  C28. The two sides of the scheme agree: a request signed by the client at time \<open>t\<close> is run by a
  server that shares the secret and reads its clock within the skew, provided the body has at
  most 1 MiB and the client's service id is allowed.
\<close>

theorem signed_request_accepted:
  assumes "crypto_ok K"
    and "sign K t method path body (hmac_secret A) = Some hs"
    and "skew_exceeded (overflow_checks A) (hmac_skew_secs A) now t = Some False"
    and "length body \<le> MAX_BODY_BYTES"
    and "allowed_service_ids A = [] \<or> ''loadtest'' \<in> set (allowed_service_ids A)"
    and "path \<noteq> ''/api/v1/healthz''"
  shows "verify X K A now nxt (signed_request method path idem body hs) w =
    (case nxt ((signed_request method path idem body hs)
       \<lparr>rq_body := Some body, rq_identity := Some ''loadtest''\<rparr>) w of (resp, w1) \<Rightarrow> (map_option Inr resp, w1))"
proof (rule verify_forwards)
  obtain svc ts sig where hs: "hs = (svc, ts, sig)" by (cases hs)
  have "authentic K A now (signed_request method path idem body hs) ''loadtest'' body"
    by (rule sign_authentic [OF assms(1) _ assms(3) _ assms(4,5), where svc = svc and ts = ts and sig = sig])
      (use assms(2) in \<open>simp_all add: signed_request_def hs Let_def split: option.split\<close>)
  then show "forwarded K A now (signed_request method path idem body hs)
      ((signed_request method path idem body hs)\<lparr>rq_body := Some body, rq_identity := Some ''loadtest''\<rparr>)"
    using assms(6) by (auto simp: forwarded_def signed_request_def hs Let_def)
qed

definition sample_auth :: auth_state where
  "sample_auth =
     \<lparr>hmac_secret = ''0123456789abcdef'', hmac_skew_secs = 30, allowed_service_ids = [''loadtest'', ''terminal''],
      overflow_checks = False\<rparr>"

definition echo :: "nat service" where
  "echo request w = (Some \<lparr>rs_status = 200, rs_headers = [], rs_body = rq_identity request\<rparr>, w + 1)"

theorem signed_request_accepted_witness:
  "\<exists>hs. sign sample_crypto 1000 ''post'' ''/api/v1/holds'' ''{}'' ''0123456789abcdef'' = Some hs \<and>
     verify sample_ext sample_crypto sample_auth 1020 echo (signed_request ''post'' ''/api/v1/holds'' (Some ''k'') ''{}'' hs) 0 =
       (Some (Inr \<lparr>rs_status = 200, rs_headers = [], rs_body = Some ''loadtest''\<rparr>), 1)"
proof -
  let ?s = "sign sample_crypto 1000 ''post'' ''/api/v1/holds'' ''{}'' (hmac_secret sample_auth)"
  obtain hs where hs: "?s = Some hs" by (auto simp: sign_def sample_crypto_def Let_def)
  have "skew_exceeded (overflow_checks sample_auth) (hmac_skew_secs sample_auth) 1020 1000 = Some False"
    by code_simp
  from signed_request_accepted [OF sample_crypto_ok hs this, where X = sample_ext and nxt = echo and w = 0] hs
  show ?thesis by (simp add: sample_auth_def MAX_BODY_BYTES_def echo_def)
qed

section \<open>What the signature covers\<close>

lemma append_sep_eq:
  assumes "c \<notin> set xs" and "c \<notin> set xs'"
  shows "xs @ c # ys = xs' @ c # ys' \<longleftrightarrow> xs = xs' \<and> ys = ys'"
  using assms
proof (induction xs arbitrary: xs')
  case Nil
  then show ?case by (cases xs') auto
next
  case (Cons x xs)
  then show ?case by (cases xs') auto
qed

lemma show_i64_inject: "show_i64 a = show_i64 b \<longleftrightarrow> a = b"
  by (metis option.inject parse_show_i64)

lemma no_dot_show_i64: "CHR ''.'' \<notin> set (show_i64 w)"
proof -
  have "CHR ''.'' \<notin> set (show_nat n)" for n
    using show_nat_digits [of "CHR ''.''" n] by auto
  then show ?thesis by (simp add: show_i64_def show_int_def)
qed

text \<open>
  The signed text determines what it is about: two requests whose methods have no dot (an
  HTTP method is a token of letters in every request of this API) have the same signing
  string only if timestamp, upper-cased method, path and body digest are the same. The path
  may contain dots.
\<close>

theorem signing_string_injective:
  assumes "crypto_ok K" and "CHR ''.'' \<notin> set m1" and "CHR ''.'' \<notin> set m2"
  shows "signing_string t1 m1 p1 (hex_encode K (sha256 K b1)) = signing_string t2 m2 p2 (hex_encode K (sha256 K b2)) \<longleftrightarrow>
    t1 = t2 \<and> m1 = m2 \<and> p1 = p2 \<and> sha256 K b1 = sha256 K b2"
proof -
  have len: "length (hex_encode K (sha256 K b)) = 64" for b
    using assms(1) by (simp add: crypto_ok_def)
  have inj: "hex_encode K x = hex_encode K y \<longleftrightarrow> x = y" for x y
    using assms(1) by (metis crypto_ok_def option.inject)
  have "p1 @ CHR ''.'' # hex_encode K (sha256 K b1) = p2 @ CHR ''.'' # hex_encode K (sha256 K b2) \<longleftrightarrow>
      p1 = p2 \<and> sha256 K b1 = sha256 K b2"
    using len by (simp add: append_eq_append_conv inj)
  then show ?thesis
    by (simp add: signing_string_def append_sep_eq no_dot_show_i64 assms(2,3) show_i64_inject)
qed

theorem signing_string_injective_witness:
  "signing_string 5 ''GET'' ''/a.b'' (hex_encode sample_crypto (sha256 sample_crypto [])) \<noteq>
   signing_string 5 ''GET'' ''/a'' (hex_encode sample_crypto (sha256 sample_crypto []))"
  using signing_string_injective [OF sample_crypto_ok, of "''GET''" "''GET''" 5 "''/a.b''" "[]" 5 "''/a''" "[]"]
  by simp

text \<open>
  The signature does not cover the service id, the query string or any other header, so
  the identity that the allowlist checks and the idempotency layer uses as a namespace is the
  sender's free choice: replacing \<open>X-Service-Id\<close> in an authentic request by any other allowed
  id gives a request that is authentic for that id.
\<close>

theorem service_id_not_signed:
  assumes "authentic K A now request svc bytes"
    and "list_all visible other" and "allowed_service_ids A = [] \<or> other \<in> set (allowed_service_ids A)"
  shows "authentic K A now
    (request\<lparr>rq_headers := header_insert ''x-service-id'' other (rq_headers request), rq_query := q\<rparr>) other bytes"
  using assms by (auto simp: authentic_def header_str_def)

theorem service_id_not_signed_witness:
  "\<exists>hs. sign sample_crypto 1000 ''POST'' ''/api/v1/holds'' ''{}'' ''0123456789abcdef'' = Some hs \<and>
     authentic sample_crypto sample_auth 1020
       ((signed_request ''POST'' ''/api/v1/holds'' (Some ''k'') ''{}'' hs)
          \<lparr>rq_headers := header_insert ''x-service-id'' ''terminal'' (rq_headers (signed_request ''POST'' ''/api/v1/holds'' (Some ''k'') ''{}'' hs)),
           rq_query := ''?x=1''\<rparr>) ''terminal'' ''{}''"
proof -
  let ?s = "sign sample_crypto 1000 ''POST'' ''/api/v1/holds'' ''{}'' ''0123456789abcdef''"
  obtain hs where hs: "?s = Some hs" by (auto simp: sign_def sample_crypto_def Let_def)
  have "authentic sample_crypto sample_auth 1020 (signed_request ''POST'' ''/api/v1/holds'' (Some ''k'') ''{}'' (the ?s)) ''loadtest'' ''{}''"
  proof -
    have "skew_exceeded False 30 1020 1000 = Some False" by code_simp
    moreover have "list_all visible ''loadtest''" by code_simp
    moreover have "list_all visible (show_i64 1000)" by (rule visible_show_i64)
    moreover have "to_uppercase ''POST'' = ''POST''" by code_simp
    ultimately show ?thesis
      by (simp add: authentic_def sign_def signed_request_def sample_crypto_def sample_auth_def Let_def
          header_str_def MAX_BODY_BYTES_def signing_string_def)
  qed
  then have auth: "authentic sample_crypto sample_auth 1020 (signed_request ''POST'' ''/api/v1/holds'' (Some ''k'') ''{}'' hs) ''loadtest'' ''{}''"
    by (simp add: hs)
  have "list_all visible ''terminal''" by code_simp
  from service_id_not_signed [OF auth this] hs show ?thesis by (simp add: sample_auth_def)
qed

section \<open>The time window\<close>

lemma sint64_range: "- (2 ^ 63) \<le> sint (w :: 64 word) \<and> sint w < 2 ^ 63"
  using sint_range_size [of w] by (auto simp: word_size)

lemma sint64_wrap:
  assumes "- (2 ^ 64) < D" and "D < 2 ^ 64"
  shows "signed_take_bit 63 D =
    (if D < - (2 ^ 63) then D + 2 ^ 64 else if D \<ge> 2 ^ 63 then D - 2 ^ 64 else (D :: int))"
proof -
  have stb: "signed_take_bit 63 D = (D + 2 ^ 63) mod 2 ^ 64 - 2 ^ 63"
    by (simp add: signed_take_bit_eq_take_bit_shift take_bit_eq_mod)
  consider "D < - (2 ^ 63)" | "D \<ge> 2 ^ 63" | "- (2 ^ 63) \<le> D \<and> D < 2 ^ 63" by linarith
  then show ?thesis
  proof cases
    case 1
    have "(D + 2 ^ 63) mod 2 ^ 64 = (D + 2 ^ 63 + 2 ^ 64) mod 2 ^ 64"
      by (rule mod_add_self2 [symmetric])
    also have "\<dots> = D + 2 ^ 63 + 2 ^ 64" using 1 assms by (intro mod_pos_pos_trivial) auto
    finally have "(D + 2 ^ 63) mod 2 ^ 64 = D + 2 ^ 63 + 2 ^ 64" .
    with 1 stb show ?thesis by simp
  next
    case 2
    have "(D + 2 ^ 63) mod 2 ^ 64 = (D + 2 ^ 63 - 2 ^ 64) mod 2 ^ 64"
      by (rule minus_mod_self2 [symmetric])
    also have "\<dots> = D + 2 ^ 63 - 2 ^ 64" using 2 assms by (intro mod_pos_pos_trivial) auto
    finally show ?thesis using 2 stb by simp
  next
    case 3
    then have "(D + 2 ^ 63) mod 2 ^ 64 = D + 2 ^ 63" by (intro mod_pos_pos_trivial) auto
    with 3 stb show ?thesis by simp
  qed
qed

lemma sint64_sub: "sint (a - b :: 64 word) = signed_take_bit 63 (sint a - sint b)"
  by (simp add: sint_word_ariths)

lemma sint64_neg: "sint (- a :: 64 word) = signed_take_bit 63 (- sint a)"
  by (simp add: sint_word_ariths)

lemma sint_abs_wrapping:
  "sint (abs_wrapping w) = (if sint w = - (2 ^ 63) then - (2 ^ 63) else \<bar>sint w\<bar>)"
  using sint64_range [of w] by (auto simp: abs_wrapping_def sint64_neg sint64_wrap)

text \<open>
  C39. The time window: for a server clock and a skew that are not negative (and whose sum fits
  \<open>i64\<close>), a build without overflow checks accepts exactly the timestamps within the skew, and
  one more, \<open>now - 2^63\<close>, whose distance wraps to a negative number; a build with overflow
  checks accepts exactly the window and panics on every timestamp more than \<open>2^63 - 1\<close>
  behind.
\<close>

theorem skew_window:
  assumes "0 \<le> sint now" and "0 \<le> sint skew" and "sint now + sint skew < 2 ^ 63"
  shows "skew_exceeded checks skew now ts =
    (if sint now - sint ts \<ge> 2 ^ 63
     then (if checks then None else Some (sint now - sint ts \<noteq> 2 ^ 63))
     else Some (\<bar>sint now - sint ts\<bar> > sint skew))"
proof -
  define D where "D = sint now - sint ts"
  have lo: "- (2 ^ 63) < D" and hi: "D \<le> sint now + 2 ^ 63" and now: "sint now < 2 ^ 63"
    using assms(1) sint64_range [of ts] sint64_range [of now] by (auto simp: D_def)
  have diff: "sint (now - ts) = (if D \<ge> 2 ^ 63 then D - 2 ^ 64 else D)"
    unfolding sint64_sub D_def [symmetric] by (subst sint64_wrap) (use lo hi now in auto)
  have over: "sub_overflows now ts \<longleftrightarrow> D \<ge> 2 ^ 63"
    using lo by (auto simp: sub_overflows_def D_def)
  show ?thesis
  proof (cases "D \<ge> 2 ^ 63")
    case True
    have "sint (abs_wrapping (now - ts)) > sint skew \<longleftrightarrow> D \<noteq> 2 ^ 63"
      using True hi assms by (auto simp: sint_abs_wrapping diff)
    with True over show ?thesis by (simp add: skew_exceeded_def Let_def D_def)
  next
    case False
    then have "sint (abs_wrapping (now - ts)) = \<bar>D\<bar>" "sint (now - ts) \<noteq> - (2 ^ 63)"
      using lo by (auto simp: sint_abs_wrapping diff)
    with False over show ?thesis by (simp add: skew_exceeded_def Let_def D_def)
  qed
qed

theorem skew_window_witness:
  "skew_exceeded False 30 1000 (1000 - 2 ^ 63) = Some False \<and> skew_exceeded True 30 1000 (1000 - 2 ^ 63) = None \<and>
   skew_exceeded False 30 1000 900 = Some True"
proof -
  have s: "sint (1000 :: 64 word) = 1000" "sint (30 :: 64 word) = 30" "sint (900 :: 64 word) = 900"
    "sint (1000 - 2 ^ 63 :: 64 word) = 1000 - 2 ^ 63"
    by code_simp+
  show ?thesis
    using skew_window [of 1000 30 False "1000 - 2 ^ 63"] skew_window [of 1000 30 True "1000 - 2 ^ 63"]
      skew_window [of 1000 30 False 900]
    by (simp only: s) simp
qed

theorem verify_authenticates_witness:
  "verify sample_ext sample_crypto sample_auth 1000 echo
     \<lparr>rq_method = ''POST'', rq_path = ''/api/v1/holds'', rq_query = [], rq_headers = [], rq_body = Some [],
      rq_identity = None\<rparr> 5 = (Some (Inl (into_response sample_ext (unauthorized ''missing X-Service-Id''))), 5) \<and>
   refusal (into_response sample_ext (unauthorized ''missing X-Service-Id''))"
proof -
  let ?r = "\<lparr>rq_method = ''POST'', rq_path = ''/api/v1/holds'', rq_query = [], rq_headers = [], rq_body = Some [],
      rq_identity = None\<rparr> :: http_request"
  have run: "verify sample_ext sample_crypto sample_auth 1000 echo ?r 5 =
      (Some (Inl (into_response sample_ext (unauthorized ''missing X-Service-Id''))), 5)"
    by (simp add: verify_def header_str_def)
  from verify_authenticates [OF run] run show ?thesis by simp
qed

end
