(* ===== verification/Idempotency.thy ===== *)
theory Idempotency
  imports Inventory Hmac
begin

text \<open>
  \<open>engine-server/src/middleware/idempotency.rs\<close>: the store of cached responses in
  PostgreSQL, the scoped key, and the layer around the write endpoints. The store as an
  interface with a contract, the contract proved for the store of the code, and what the
  layer promises to a caller that repeats a request, and what it does not.
\<close>

section \<open>The store\<close>

definition IDEMPOTENCY_TTL :: int where
  "IDEMPOTENCY_TTL = 24 * 3600"

record cached_response =
  c_status :: "16 word"
  c_body :: string
  c_body_hash :: string

text \<open>\<open>SELECT ... WHERE key = $1 AND expires_at > now()\<close>; the status is stored as \<open>i32\<close> and read
  back with \<open>as u16\<close>.\<close>

definition of_row :: "idem_row \<Rightarrow> cached_response" where
  "of_row r = \<lparr>c_status = ucast (ik_status r), c_body = ik_body r, c_body_hash = ik_hash r\<rparr>"

definition cache_row :: "time \<Rightarrow> time \<Rightarrow> string \<Rightarrow> cached_response \<Rightarrow> idem_row" where
  "cache_row now expires_at key v =
     \<lparr>ik_key = key, ik_hash = c_body_hash v, ik_status = ucast (c_status v), ik_body = c_body v,
      ik_created = now, ik_expires = expires_at\<rparr>"

definition select_cached :: "time \<Rightarrow> string \<Rightarrow> db \<Rightarrow> cached_response option" where
  "select_cached now key d =
     map_option of_row (find (\<lambda>r. ik_key r = key \<and> ik_expires r > now) (idem_cache d))"

definition store_get :: "call_env \<Rightarrow> string \<Rightarrow> (cached_response option) dbm" where
  "store_get V key = pool_exec (query (select_cached (db_now V) key))"

text \<open>
  \<open>INSERT ... ON CONFLICT (key) DO UPDATE ... WHERE expires_at <= now()\<close>; the reply is whether a
  row was written.
\<close>

definition upsert_cached :: "time \<Rightarrow> idem_row \<Rightarrow> bool stmt" where
  "upsert_cached now row d =
     (case lookup_by ik_key (ik_key row) (idem_cache d) of
        None \<Rightarrow> Inr (True, d\<lparr>idem_cache := idem_cache d @ [row]\<rparr>)
      | Some old \<Rightarrow>
          if ik_expires old \<le> now then
            Inr (True, d\<lparr>idem_cache :=
              update_where (\<lambda>r. ik_key r = ik_key row) (\<lambda>_. row) (idem_cache d)\<rparr>)
          else Inr (False, d))"

text \<open>\<open>None\<close> is the panic of the date addition.\<close>

definition store_put ::
  "ext \<Rightarrow> call_env \<Rightarrow> string \<Rightarrow> cached_response \<Rightarrow> session \<Rightarrow> (sqlx_error + bool) option \<times> session" where
  "store_put X V key v s =
     (case add_seconds X (clock V 0) IDEMPOTENCY_TTL of
        None \<Rightarrow> (None, s)
      | Some expires_at \<Rightarrow>
          map_prod Some id (pool_exec (upsert_cached (db_now V) (cache_row (db_now V) expires_at key v)) s))"

definition delete_expired :: "time \<Rightarrow> nat stmt" where
  "delete_expired now d =
     Inr (length (filter (\<lambda>r. ik_expires r \<le> now) (idem_cache d)),
          d\<lparr>idem_cache := delete_where (\<lambda>r. ik_expires r \<le> now) (idem_cache d)\<rparr>)"

definition sweep_expired :: "call_env \<Rightarrow> nat dbm" where
  "sweep_expired V = pool_exec (delete_expired (db_now V))"

section \<open>The key\<close>

definition get_idempotency_key :: "(string \<times> string) list \<Rightarrow> string option" where
  "get_idempotency_key headers =
     (case map_option trim (header_str ''idempotency-key'' headers) of
        None \<Rightarrow> None
      | Some s \<Rightarrow> if s = [] then None else Some s)"

text \<open>\<open>(len as u64).to_be_bytes()\<close>\<close>

definition be64 :: "nat \<Rightarrow> string" where
  "be64 n = map (\<lambda>i. char_of (n div 256 ^ i)) [7, 6, 5, 4, 3, 2, 1, 0]"

definition hash_input :: "string list \<Rightarrow> string" where
  "hash_input parts = concat (map (\<lambda>part. be64 (length part) @ part @ ''|'') parts)"

definition scoped_idempotency_key :: "crypto \<Rightarrow> string \<Rightarrow> string \<Rightarrow> string \<Rightarrow> string \<Rightarrow> string" where
  "scoped_idempotency_key K svc_id method path raw_key =
     hex_encode K (sha256 K (hash_input [svc_id, method, path, raw_key]))"

section \<open>The layer\<close>

definition write_method :: "string \<Rightarrow> bool" where
  "write_method m \<longleftrightarrow> m \<in> {''POST'', ''PUT'', ''PATCH'', ''DELETE''}"

definition cacheable :: "16 word \<Rightarrow> bool" where
  "cacheable st \<longleftrightarrow> is_success_status st \<or> st = 409 \<or> st = 422"

definition replay_response :: "cached_response \<Rightarrow> http_response" where
  "replay_response c =
     \<lparr>rs_status = (if 100 \<le> unat (c_status c) \<and> unat (c_status c) < 1000 then c_status c else 200),
      rs_headers = header_insert ''x-idempotent-replayed'' ''true''
        (header_insert ''content-type'' ''application/json'' []),
      rs_body = Some (c_body c)\<rparr>"

text \<open>
  The layer up to the call of the inner handler, the handler, and the layer after it. The two
  halves use the database at different times (\<open>V1\<close>, \<open>V2\<close>).
\<close>

datatype lookup =
    Bypass
  | Answer "http_response + http_response"
  | Miss string string http_request

definition layer_lookup ::
  "ext \<Rightarrow> crypto \<Rightarrow> call_env \<Rightarrow> http_request \<Rightarrow> session \<Rightarrow> lookup \<times> session" where
  "layer_lookup X K V request s =
     (if \<not> write_method (rq_method request) then (Bypass, s)
      else
      (case get_idempotency_key (rq_headers request) of
         None \<Rightarrow> (Bypass, s)
       | Some raw_key \<Rightarrow>
      (let svc_id = (case rq_identity request of None \<Rightarrow> ''anonymous'' | Some i \<Rightarrow> i);
           key = scoped_idempotency_key K svc_id (rq_method request) (rq_path request) raw_key
       in case to_bytes (rq_body request) MAX_BODY_BYTES of
         None \<Rightarrow> (Answer (Inl (into_response X (api_new 413 ''BODY_TOO_LARGE'' ''body exceeds 1MB''))), s)
       | Some body_bytes \<Rightarrow>
      (let body_hash = hex_encode K (sha256 K body_bytes)
       in case store_get V key s of
         (Inl e, s1) \<Rightarrow>
           (Answer (Inl (into_response X (internal (''idempotency lookup failed: '' @ sqlx_message e)))), s1)
       | (Inr (Some cached), s1) \<Rightarrow>
           if c_body_hash cached \<noteq> body_hash then
             (Answer (Inl (into_response X (conflict ''idempotency key reused with different body''))), s1)
           else (Answer (Inr (replay_response cached)), s1)
       | (Inr None, s1) \<Rightarrow> (Miss key body_hash (request\<lparr>rq_body := Some body_bytes\<rparr>), s1)))))"

definition layer_store ::
  "ext \<Rightarrow> call_env \<Rightarrow> string \<Rightarrow> string \<Rightarrow> http_response \<Rightarrow> session \<Rightarrow>
   (http_response + http_response) option \<times> session" where
  "layer_store X V key body_hash resp s =
     (case to_bytes (rs_body resp) MAX_BODY_BYTES of
        None \<Rightarrow> (Some (Inl (into_response X (internal ''response body too large to cache''))), s)
      | Some resp_bytes \<Rightarrow>
      (let out = Inr (resp\<lparr>rs_headers := header_insert ''x-idempotent-replayed'' ''false'' (rs_headers resp),
                           rs_body := Some resp_bytes\<rparr>)
       in if cacheable (rs_status resp) then
            (case store_put X V key
                    \<lparr>c_status = rs_status resp, c_body = resp_bytes, c_body_hash = body_hash\<rparr> s of
               (None, s1) \<Rightarrow> (None, s1)
             | (Some r, s1) \<Rightarrow> (Some out, s1))
          else (Some out, s)))"

definition layer ::
  "ext \<Rightarrow> crypto \<Rightarrow> call_env \<Rightarrow> call_env \<Rightarrow> (session \<times> 'p) service \<Rightarrow> (session \<times> 'p) layered" where
  "layer X K V1 V2 nxt request w =
     (let (s, p) = w
      in case layer_lookup X K V1 request s of
           (Bypass, s1) \<Rightarrow> (case nxt request (s1, p) of (resp, w1) \<Rightarrow> (map_option Inr resp, w1))
         | (Answer a, s1) \<Rightarrow> (Some a, s1, p)
         | (Miss key body_hash new_request, s1) \<Rightarrow>
             (case nxt new_request (s1, p) of
                (None, w2) \<Rightarrow> (None, w2)
              | (Some resp, s2, p2) \<Rightarrow>
                  (case layer_store X V2 key body_hash resp s2 of (a, s3) \<Rightarrow> (a, s3, p2))))"

section \<open>The contract of the store\<close>

text \<open>
  A store of responses by key and time: a write for an absent or expired key takes effect
  until its expiry, a write for a live key changes nothing, and other keys are not affected.
\<close>

locale response_store =
  fixes get :: "time \<Rightarrow> string \<Rightarrow> 'd \<Rightarrow> cached_response option"
    and put :: "time \<Rightarrow> time \<Rightarrow> string \<Rightarrow> cached_response \<Rightarrow> 'd \<Rightarrow> bool \<times> 'd"
    and sweep :: "time \<Rightarrow> 'd \<Rightarrow> 'd"
    and valid :: "'d \<Rightarrow> bool"
  assumes put_valid: "valid d \<Longrightarrow> valid (snd (put now e k v d))"
    and put_absent: "valid d \<Longrightarrow> get now k d = None \<Longrightarrow>
      fst (put now e k v d) \<and> get t k (snd (put now e k v d)) = (if t < e then Some v else None)"
    and put_live: "valid d \<Longrightarrow> get now k d = Some u \<Longrightarrow> put now e k v d = (False, d)"
    and put_other: "valid d \<Longrightarrow> j \<noteq> k \<Longrightarrow> get t j (snd (put now e k v d)) = get t j d"
    and sweep_live: "valid d \<Longrightarrow> now \<le> t \<Longrightarrow> get t k (sweep now d) = get t k d"
    and sweep_valid: "valid d \<Longrightarrow> valid (sweep now d)"
begin

lemma first_writer_wins:
  assumes "valid d" and "get t1 k d = None" and "t2 < e1" and "t < e1"
  shows "get t k (snd (put t2 e2 k v2 (snd (put t1 e1 k v1 d)))) = Some v1"
    and "fst (put t2 e2 k v2 (snd (put t1 e1 k v1 d))) = False"
proof -
  let ?d1 = "snd (put t1 e1 k v1 d)"
  have "valid ?d1" using assms(1) by (rule put_valid)
  moreover have "get u k ?d1 = Some v1" if "u < e1" for u
    using put_absent [OF assms(1,2)] that by simp
  ultimately have "put t2 e2 k v2 ?d1 = (False, ?d1)" "get t k ?d1 = Some v1"
    using put_live assms(3,4) by blast+
  then show "get t k (snd (put t2 e2 k v2 ?d1)) = Some v1" "fst (put t2 e2 k v2 ?d1) = False"
    by simp_all
qed

lemma swept_replay:
  assumes "valid d" and "get t1 k d = None" and "now \<le> t" and "t < e1"
  shows "get t k (sweep now (snd (put t1 e1 k v1 d))) = Some v1"
  using put_absent [OF assms(1,2)] sweep_live [OF put_valid [OF assms(1)] assms(3)] assms(4) by simp

end


text \<open>The store of the code as pure functions of the database.\<close>

definition put_cached :: "time \<Rightarrow> time \<Rightarrow> string \<Rightarrow> cached_response \<Rightarrow> db \<Rightarrow> bool \<times> db" where
  "put_cached now e k v d =
     (case upsert_cached now (cache_row now e k v) d of Inr r \<Rightarrow> r | Inl _ \<Rightarrow> (False, d))"

definition sweep_cached :: "time \<Rightarrow> db \<Rightarrow> db" where
  "sweep_cached now d = d\<lparr>idem_cache := delete_where (\<lambda>r. ik_expires r \<le> now) (idem_cache d)\<rparr>"

lemma of_row_cache_row [simp]: "of_row (cache_row now e k v) = v"
  by (simp add: of_row_def cache_row_def ucast_up_ucast_id is_up)

lemma cache_row_sel [simp]: "ik_key (cache_row now e k v) = k" "ik_expires (cache_row now e k v) = e"
  by (simp_all add: cache_row_def)

lemma select_cached_eq:
  "schema_ok d \<Longrightarrow>
   select_cached t k d =
     (case lookup_by ik_key k (idem_cache d) of
        None \<Rightarrow> None | Some r \<Rightarrow> if t < ik_expires r then Some (of_row r) else None)"
  by (simp add: select_cached_def find_key_and schema_ok_def split: option.split)

lemma lookup_by_replace:
  "lookup_by k x (update_where (\<lambda>r. k r = k row) (\<lambda>_. row) rs) =
     (case lookup_by k x rs of None \<Rightarrow> None | Some r \<Rightarrow> if x = k row then Some row else Some r)"
  by (induction rs) auto

lemma map_replace: "map k (update_where (\<lambda>r. k r = k row) (\<lambda>_. row) rs) = map k rs"
  by (induction rs) auto

lemma put_cached_eq:
  "put_cached now e k v d =
     (case lookup_by ik_key k (idem_cache d) of
        None \<Rightarrow> (True, d\<lparr>idem_cache := idem_cache d @ [cache_row now e k v]\<rparr>)
      | Some old \<Rightarrow>
          if ik_expires old \<le> now then
            (True, d\<lparr>idem_cache := update_where (\<lambda>r. ik_key r = ik_key (cache_row now e k v))
              (\<lambda>_. cache_row now e k v) (idem_cache d)\<rparr>)
          else (False, d))"
  by (auto simp: put_cached_def upsert_cached_def split: option.split)

lemma lookup_put_cached:
  "lookup_by ik_key j (idem_cache (snd (put_cached now e k v d))) =
     (if fst (put_cached now e k v d) \<and> j = k then Some (cache_row now e k v)
      else lookup_by ik_key j (idem_cache d))"
proof -
  have "lookup_by ik_key j (update_where (\<lambda>r. ik_key r = ik_key (cache_row now e k v))
      (\<lambda>_. cache_row now e k v) rs) =
      (case lookup_by ik_key j rs of None \<Rightarrow> None | Some r \<Rightarrow> if j = k then Some (cache_row now e k v) else Some r)"
    for rs
    by (subst lookup_by_replace) (simp split: option.split)
  then show ?thesis
    by (auto simp: put_cached_eq lookup_by_append split: option.split)
qed

lemma fst_put_cached:
  "schema_ok d \<Longrightarrow> fst (put_cached now e k v d) \<longleftrightarrow> select_cached now k d = None"
  by (auto simp: put_cached_eq select_cached_eq split: option.split)

lemma schema_ok_put_cached: "schema_ok d \<Longrightarrow> schema_ok (snd (put_cached now e k v d))"
  using map_replace [where k = ik_key and row = "cache_row now e k v" and rs = "idem_cache d"]
  by (auto simp: schema_ok_def put_cached_eq lookup_by_None split: option.split)

lemma schema_ok_sweep_cached: "schema_ok d \<Longrightarrow> schema_ok (sweep_cached now d)"
  by (simp add: schema_ok_def sweep_cached_def distinct_map_delete_where)

lemma lookup_sweep_cached:
  "schema_ok d \<Longrightarrow>
   lookup_by ik_key k (idem_cache (sweep_cached now d)) =
     (case lookup_by ik_key k (idem_cache d) of None \<Rightarrow> None
      | Some r \<Rightarrow> if ik_expires r \<le> now then None else Some r)"
  by (simp add: sweep_cached_def lookup_by_delete_where schema_ok_def)

interpretation pg: response_store select_cached put_cached sweep_cached schema_ok
proof unfold_locales
  fix d :: db and now e t :: time and k j :: string and v u :: cached_response
  assume ok: "schema_ok d"
  have ok1: "schema_ok (snd (put_cached now e k v d))"
    using ok by (rule schema_ok_put_cached)
  show "schema_ok (snd (put_cached now e k v d))" by (rule ok1)
  show "schema_ok (sweep_cached now d)" using ok by (rule schema_ok_sweep_cached)
  {
    assume "select_cached now k d = None"
    then have "fst (put_cached now e k v d)" using ok by (simp add: fst_put_cached)
    then show "fst (put_cached now e k v d) \<and>
        select_cached t k (snd (put_cached now e k v d)) = (if t < e then Some v else None)"
      by (simp add: select_cached_eq [OF ok1] lookup_put_cached)
  next
    assume "select_cached now k d = Some u"
    then show "put_cached now e k v d = (False, d)"
      using ok by (auto simp: select_cached_eq put_cached_eq split: option.splits if_splits)
  next
    assume "j \<noteq> k"
    then show "select_cached t j (snd (put_cached now e k v d)) = select_cached t j d"
      by (simp add: select_cached_eq ok ok1 lookup_put_cached)
  next
    assume "now \<le> t"
    then show "select_cached t k (sweep_cached now d) = select_cached t k d"
      by (auto simp: select_cached_eq ok schema_ok_sweep_cached lookup_sweep_cached split: option.split)
  }
qed

section \<open>Calls of the store\<close>

lemma store_get_served:
  assumes "store_get V key s = (r, s1)"
  shows "committed s1 = committed s \<and>
    (case r of Inl e \<Rightarrow> \<not> no_faults s
     | Inr c \<Rightarrow> c = select_cached (db_now V) key (committed s) \<and> (no_faults s \<longrightarrow> no_faults s1))"
  using assms unfolding store_get_def
  by (cases r) (auto dest!: pool_exec_Inr pool_exec_Inl)

lemma upsert_put: "upsert_cached now (cache_row now e k v) d = Inr (put_cached now e k v d)"
  by (simp add: put_cached_def upsert_cached_def split: option.split)

lemma store_put_served:
  assumes "store_put X V key v s = (Some r, s1)"
  shows "\<exists>e. add_seconds X (clock V 0) IDEMPOTENCY_TTL = Some e \<and>
    (committed s1 = committed s \<or> committed s1 = snd (put_cached (db_now V) e key v (committed s))) \<and>
    (case r of Inl err \<Rightarrow> \<not> no_faults s
     | Inr b \<Rightarrow> put_cached (db_now V) e key v (committed s) = (b, committed s1) \<and> (no_faults s \<longrightarrow> no_faults s1))"
proof -
  obtain e where e: "add_seconds X (clock V 0) IDEMPOTENCY_TTL = Some e"
    and run: "pool_exec (upsert_cached (db_now V) (cache_row (db_now V) e key v)) s = (r, s1)"
    using assms by (auto simp: store_put_def map_prod_def split: option.splits prod.splits)
  show ?thesis
  proof (cases r)
    case (Inl err)
    from pool_exec_Inl [OF run [unfolded Inl]] e Inl show ?thesis
      by (auto simp: upsert_put)
  next
    case (Inr b)
    from pool_exec_Inr [OF run [unfolded Inr]] e Inr show ?thesis
      by (auto simp: upsert_put)
  qed
qed


section \<open>The scoped key\<close>

lemma digits_mod:
  "(\<And>i. i < n \<Longrightarrow> a div m ^ i mod m = b div m ^ i mod (m :: nat)) \<Longrightarrow> a mod m ^ n = b mod m ^ n"
proof (induction n)
  case (Suc n)
  have "x mod m ^ Suc n = m ^ n * (x div m ^ n mod m) + x mod m ^ n" for x
    using mod_mult2_eq [of x "m ^ n" m] by (simp add: mult.commute)
  with Suc show ?case by simp
qed simp

lemma be64_inject:
  assumes "a < 2 ^ 64" and "b < 2 ^ 64" and "be64 a = be64 b"
  shows "a = b"
proof -
  have "a div 256 ^ i mod 256 = b div 256 ^ i mod 256" if "i < 8" for i
  proof -
    have "\<forall>i \<in> set [7, 6, 5, 4, 3, 2, 1, 0]. (char_of (a div 256 ^ i) :: char) = char_of (b div 256 ^ i)"
      using assms(3) unfolding be64_def by (simp only: map_eq_conv)
    moreover from that have "i \<in> set [7, 6, 5, 4, 3, 2, 1, 0]" by auto
    ultimately have "(char_of (a div 256 ^ i) :: char) = char_of (b div 256 ^ i)" by blast
    then show ?thesis by (simp only: char_of_quasi_inj)
  qed
  then have "a mod 256 ^ 8 = b mod 256 ^ 8" by (rule digits_mod)
  with assms(1,2) show ?thesis by simp
qed

lemma length_be64 [simp]: "length (be64 n) = 8"
  by (simp add: be64_def)

lemma hash_input_inject:
  assumes "length ps = length qs" and "\<forall>p \<in> set ps \<union> set qs. length p < 2 ^ 64"
    and "hash_input ps = hash_input qs"
  shows "ps = qs"
  using assms
proof (induction ps qs rule: list_induct2)
  case (Cons p ps q qs)
  from Cons.prems(2) have eq: "be64 (length p) @ p @ ''|'' @ hash_input ps = be64 (length q) @ q @ ''|'' @ hash_input qs"
    by (simp add: hash_input_def)
  then have "be64 (length p) = be64 (length q)"
    by (simp add: append_eq_append_conv)
  then have len: "length p = length q"
    using Cons.prems(1) by (intro be64_inject) auto
  with eq have "p = q" "hash_input ps = hash_input qs"
    by (simp_all add: append_eq_append_conv)
  with Cons show ?case by simp
qed simp

text \<open>
  C24. The scoped key separates callers and endpoints: as long as the digest does not collide,
  two requests share a cache key only if service id, method, path and raw key are all the
  same; no choice of strings can move bytes from one component to the next.
\<close>

theorem scoped_key_separates:
  assumes "crypto_ok K"
    and "sha256 K (hash_input [svc1, m1, path1, raw1]) = sha256 K (hash_input [svc2, m2, path2, raw2]) \<longrightarrow>
      hash_input [svc1, m1, path1, raw1] = hash_input [svc2, m2, path2, raw2]"
    and "\<forall>p \<in> {svc1, m1, path1, raw1, svc2, m2, path2, raw2}. length p < 2 ^ 64"
  shows "scoped_idempotency_key K svc1 m1 path1 raw1 = scoped_idempotency_key K svc2 m2 path2 raw2 \<longleftrightarrow>
    svc1 = svc2 \<and> m1 = m2 \<and> path1 = path2 \<and> raw1 = raw2"
proof
  assume "scoped_idempotency_key K svc1 m1 path1 raw1 = scoped_idempotency_key K svc2 m2 path2 raw2"
  then have "sha256 K (hash_input [svc1, m1, path1, raw1]) = sha256 K (hash_input [svc2, m2, path2, raw2])"
    using assms(1) by (metis crypto_ok_def option.inject scoped_idempotency_key_def)
  then have "hash_input [svc1, m1, path1, raw1] = hash_input [svc2, m2, path2, raw2]"
    using assms(2) by blast
  then have "[svc1, m1, path1, raw1] = [svc2, m2, path2, raw2]"
    by (rule hash_input_inject [rotated 2]) (use assms(3) in auto)
  then show "svc1 = svc2 \<and> m1 = m2 \<and> path1 = path2 \<and> raw1 = raw2" by simp
qed simp


theorem scoped_key_separates_witness:
  "scoped_idempotency_key sample_crypto ''ab'' ''c'' ''/p'' ''k'' \<noteq>
   scoped_idempotency_key sample_crypto ''a'' ''bcd'' ''/p'' ''k''"
  using scoped_key_separates [OF sample_crypto_ok, of "''ab''" "''c''" "''/p''" "''k''" "''a''" "''bcd''" "''/p''" "''k''"]
  by (simp add: sample_crypto_def hash_input_def)

section \<open>What the layer promises\<close>

text \<open>A handler that counts its runs and a write request with a key, for concrete runs.\<close>

definition counting :: "http_response \<Rightarrow> (session \<times> nat) service" where
  "counting resp request w = (Some resp, fst w, Suc (snd w))"

definition keyed_request :: "string \<Rightarrow> string \<Rightarrow> http_request" where
  "keyed_request key body =
     \<lparr>rq_method = ''POST'', rq_path = ''/p'', rq_query = [], rq_headers = [(''idempotency-key'', key)],
      rq_body = Some body, rq_identity = Some ''t''\<rparr>"

definition created :: http_response where
  "created = \<lparr>rs_status = 201, rs_headers = [], rs_body = Some ''ok''\<rparr>"

text \<open>What of a request decides its cache entry.\<close>

definition request_key :: "crypto \<Rightarrow> http_request \<Rightarrow> string option" where
  "request_key K req =
     (if write_method (rq_method req) then
        map_option (scoped_idempotency_key K (case rq_identity req of None \<Rightarrow> ''anonymous'' | Some i \<Rightarrow> i)
          (rq_method req) (rq_path req)) (get_idempotency_key (rq_headers req))
      else None)"

definition request_hash :: "crypto \<Rightarrow> http_request \<Rightarrow> string option" where
  "request_hash K req =
     map_option (\<lambda>b. hex_encode K (sha256 K b)) (to_bytes (rq_body req) MAX_BODY_BYTES)"

lemma layer_lookup_cases:
  assumes "request_key K req = Some key" and "request_hash K req = Some h" and "no_faults s"
    and "layer_lookup X K V req s = (r, s1)"
  shows "committed s1 = committed s \<and> no_faults s1 \<and>
    r = (case select_cached (db_now V) key (committed s) of
           None \<Rightarrow> Miss key h req
         | Some c \<Rightarrow>
             Answer (if c_body_hash c \<noteq> h
                     then Inl (into_response X (conflict ''idempotency key reused with different body''))
                     else Inr (replay_response c)))"
proof -
  obtain x s2 where get: "store_get V key s = (x, s2)" by (metis surj_pair)
  obtain raw where raw: "write_method (rq_method req)" "get_idempotency_key (rq_headers req) = Some raw"
    "key = scoped_idempotency_key K (case rq_identity req of None \<Rightarrow> ''anonymous'' | Some i \<Rightarrow> i)
      (rq_method req) (rq_path req) raw"
    using assms(1) by (auto simp: request_key_def split: if_splits)
  obtain b where b: "to_bytes (rq_body req) MAX_BODY_BYTES = Some b" "h = hex_encode K (sha256 K b)"
    using assms(2) by (auto simp: request_hash_def)
  then have body: "req\<lparr>rq_body := Some b\<rparr> = req"
    by (cases req) (auto simp: to_bytes_def split: option.splits if_splits)
  from store_get_served [OF get] assms(3) obtain c where
    c: "x = Inr c" "c = select_cached (db_now V) key (committed s)" "committed s2 = committed s" "no_faults s2"
    by (cases x) auto
  then show ?thesis
    using assms(4) raw b body get by (auto simp: layer_lookup_def Let_def split: option.splits)
qed

lemma layer_miss:
  assumes "request_key K req = Some key" and "request_hash K req = Some h" and "no_faults s"
    and "select_cached (db_now V1) key (committed s) = None"
  obtains sa where "committed sa = committed s" and "no_faults sa"
    and "layer X K V1 V2 nxt req (s, p) =
      (case nxt req (sa, p) of
         (None, w2) \<Rightarrow> (None, w2)
       | (Some resp, s2, p2) \<Rightarrow> (case layer_store X V2 key h resp s2 of (a, s3) \<Rightarrow> (a, s3, p2)))"
proof -
  obtain l sa where l: "layer_lookup X K V1 req s = (l, sa)" by (metis surj_pair)
  from layer_lookup_cases [OF assms(1-3) l] assms(4) l that [of sa] show ?thesis
    by (simp add: layer_def)
qed

lemma layer_store_done:
  assumes "to_bytes (rs_body resp) MAX_BODY_BYTES = Some b" and "add_seconds X (clock V 0) IDEMPOTENCY_TTL = Some e"
  obtains s1 where "layer_store X V key h resp s =
    (Some (Inr (resp\<lparr>rs_headers := header_insert ''x-idempotent-replayed'' ''false'' (rs_headers resp),
                    rs_body := Some b\<rparr>)), s1)"
proof -
  obtain r s1 where "store_put X V key \<lparr>c_status = rs_status resp, c_body = b, c_body_hash = h\<rparr> s = (Some r, s1)"
    using assms(2) by (simp add: store_put_def map_prod_def) (metis case_prod_conv id_apply surj_pair)
  with assms(1) that [of s1] that [of s] show ?thesis
    by (cases "cacheable (rs_status resp)") (simp_all add: layer_store_def)
qed

text \<open>A request that is passed on after its body was read is the request itself.\<close>

lemma layer_lookup_Miss:
  assumes "layer_lookup X K V req s = (Miss key h fw, s1)"
  shows "fw = req"
proof -
  obtain b where "to_bytes (rq_body req) MAX_BODY_BYTES = Some b" "fw = req\<lparr>rq_body := Some b\<rparr>"
    using assms by (auto simp: layer_lookup_def Let_def split: if_splits option.splits prod.splits sum.splits)
  then show ?thesis by (cases req) (auto simp: to_bytes_def split: option.splits if_splits)
qed

text \<open>What the layer does to the state: nothing, or a run of the handler and then at most one write of the cache.\<close>

lemma layer_effect:
  assumes "layer X K V1 V2 nxt req (s, p) = (r, s', p')"
  shows "committed s' = committed s \<and> p' = p \<or>
    (\<exists>sa resp sb. committed sa = committed s \<and> nxt req (sa, p) = (resp, sb, p') \<and>
       (committed s' = committed sb \<or>
        (\<exists>now e key v. committed s' = snd (put_cached now e key v (committed sb)))))"
proof -
  obtain l sa where l: "layer_lookup X K V1 req s = (l, sa)" by (metis surj_pair)
  have sa: "committed sa = committed s"
    using l store_get_served [of V1 _ s] by (fastforce simp: layer_lookup_def Let_def split: if_splits option.splits prod.splits sum.splits)
  have store: "committed s3 = committed s2 \<or> (\<exists>now e k v. committed s3 = snd (put_cached now e k v (committed s2)))"
    if "layer_store X V2 key h resp s2 = (a, s3)" for key h resp s2 a s3
  proof -
    obtain x s4 where put: "store_put X V2 key
        \<lparr>c_status = rs_status resp, c_body = the (rs_body resp), c_body_hash = h\<rparr> s2 = (x, s4)" by (metis surj_pair)
    have "committed s4 = committed s2 \<or> (\<exists>now e k v. committed s4 = snd (put_cached now e k v (committed s2)))"
    proof (cases x)
      case None
      with put show ?thesis by (auto simp: store_put_def map_prod_def split: option.splits prod.splits)
    next
      case (Some y)
      with store_put_served [OF put [unfolded Some]] show ?thesis by blast
    qed
    then show ?thesis
      using that put by (auto simp: layer_store_def Let_def to_bytes_def split: option.splits if_splits prod.splits)
  qed
  show ?thesis
  proof (cases l)
    case Bypass
    with assms l sa show ?thesis by (fastforce simp: layer_def split: prod.splits)
  next
    case (Answer a)
    with assms l sa show ?thesis by (simp add: layer_def)
  next
    case (Miss key h fw)
    have fw: "fw = req" using l Miss layer_lookup_Miss by metis
    obtain resp sb pb where run: "nxt req (sa, p) = (resp, sb, pb)" by (metis surj_pair)
    with assms l Miss fw have "pb = p' \<and> (resp = None \<and> s' = sb \<or> (\<exists>r1 a. resp = Some r1 \<and> layer_store X V2 key h r1 sb = (a, s')))"
      by (auto simp: layer_def split: option.splits prod.splits)
    with run sa store show ?thesis by blast
  qed
qed

text \<open>
  A repeated request is replayed: once a write request with an idempotency key has been
  executed and its response was cacheable, every later request with the same scoped key and
  the same body digest, until 24 hours after the response was stored, is answered with the
  same status and body and the replay mark, without running the handler and without changing
  the database. The database must not fail, and the handler must leave the cache table alone.
\<close>

definition keeps_cache :: "(session \<times> 'p) service \<Rightarrow> bool" where
  "keeps_cache nxt \<longleftrightarrow>
     (\<forall>r s p resp s' p'. nxt r (s, p) = (Some resp, s', p') \<longrightarrow> no_faults s \<longrightarrow> schema_ok (committed s) \<longrightarrow>
        no_faults s' \<and> schema_ok (committed s') \<and> idem_cache (committed s') = idem_cache (committed s))"

lemma select_cached_cong: "idem_cache d' = idem_cache d \<Longrightarrow> select_cached t k d' = select_cached t k d"
  by (simp add: select_cached_def)

lemma absent_later:
  "schema_ok d \<Longrightarrow> select_cached t k d = None \<Longrightarrow> t \<le> t' \<Longrightarrow> select_cached t' k d = None"
  by (auto simp: select_cached_eq split: option.splits if_splits)

lemma layer_replay:
  assumes "schema_ok (committed s)" and "no_faults s" and "keeps_cache nxt"
    and "request_key K req = Some key" and "request_hash K req = Some h"
    and "select_cached (db_now V1) key (committed s) = None"
    and "db_now V1 \<le> db_now V2" and "add_seconds X (clock V2 0) IDEMPOTENCY_TTL = Some e"
    and "layer X K V1 V2 nxt req (s, p) = (Some (Inr resp), s1, p1)"
    and "cacheable (rs_status resp)" and "100 \<le> unat (rs_status resp) \<and> unat (rs_status resp) < 1000"
    and "request_key K req' = Some key" and "request_hash K req' = Some h" and "db_now V3 < e"
  shows "\<exists>s2. layer X K V3 V4 nxt' req' (s1, p1) =
      (Some (Inr \<lparr>rs_status = rs_status resp,
        rs_headers = [(''x-idempotent-replayed'', ''true''), (''content-type'', ''application/json'')],
        rs_body = rs_body resp\<rparr>), s2, p1) \<and>
    committed s2 = committed s1 \<and>
    (\<exists>sa resp0 s'. committed sa = committed s \<and> nxt req (sa, p) = (Some resp0, s', p1) \<and>
       committed s1 = snd (put_cached (db_now V2) e key
         \<lparr>c_status = rs_status resp, c_body = the (rs_body resp), c_body_hash = h\<rparr> (committed s')))"
proof -
  obtain l sa where l: "layer_lookup X K V1 req s = (l, sa)" by (metis surj_pair)
  from layer_lookup_cases [OF assms(4,5,2) l] assms(6)
  have sa: "committed sa = committed s" "no_faults sa" and lm: "l = Miss key h req" by simp_all
  from assms(9) l lm obtain resp0 sb pb where run: "nxt req (sa, p) = (Some resp0, sb, pb)"
    by (auto simp: layer_def split: prod.splits option.splits)
  from assms(3) run sa assms(1) have sb: "no_faults sb" "schema_ok (committed sb)"
    "idem_cache (committed sb) = idem_cache (committed s)"
    unfolding keeps_cache_def by metis+
  from assms(9) l lm run have store: "layer_store X V2 key h resp0 sb = (Some (Inr resp), s1)" and p1: "p1 = pb"
    by (auto simp: layer_def split: prod.splits)
  then obtain bytes where bytes: "to_bytes (rs_body resp0) MAX_BODY_BYTES = Some bytes"
    and st: "rs_status resp = rs_status resp0" "rs_body resp = Some bytes"
    by (auto simp: layer_store_def Let_def split: option.splits if_splits prod.splits)
  let ?v = "\<lparr>c_status = rs_status resp, c_body = bytes, c_body_hash = h\<rparr>"
  obtain x where put: "store_put X V2 key ?v sb = (Some x, s1)"
    using store bytes st assms(10) by (auto simp: layer_store_def Let_def split: option.splits if_splits prod.splits)
  from store_put_served [OF put] assms(8) sb(1)
  obtain b where b: "put_cached (db_now V2) e key ?v (committed sb) = (b, committed s1)" "no_faults s1"
    by (cases x) auto
  have "select_cached (db_now V2) key (committed sb) = None"
    using assms(1,6,7) by (simp add: select_cached_cong [OF sb(3)] absent_later)
  then have hit: "select_cached (db_now V3) key (committed s1) = Some ?v"
    using pg.put_absent [OF sb(2), of "db_now V2" key e ?v "db_now V3"] b assms(14) by simp
  obtain l' s2 where l': "layer_lookup X K V3 req' s1 = (l', s2)" by (metis surj_pair)
  from layer_lookup_cases [OF assms(12,13) b(2) l'] hit
  have s2: "committed s2 = committed s1" and l'eq: "l' = Answer (Inr (replay_response ?v))" by simp_all
  have "replay_response ?v = \<lparr>rs_status = rs_status resp,
      rs_headers = [(''x-idempotent-replayed'', ''true''), (''content-type'', ''application/json'')],
      rs_body = rs_body resp\<rparr>"
    using assms(11) st by (simp add: replay_response_def header_insert_def)
  with l' l'eq have "layer X K V3 V4 nxt' req' (s1, p1) = (Some (Inr \<lparr>rs_status = rs_status resp,
      rs_headers = [(''x-idempotent-replayed'', ''true''), (''content-type'', ''application/json'')],
      rs_body = rs_body resp\<rparr>), s2, p1)"
    by (simp add: layer_def)
  moreover have "committed s1 = snd (put_cached (db_now V2) e key
      \<lparr>c_status = rs_status resp, c_body = the (rs_body resp), c_body_hash = h\<rparr> (committed sb))"
    using b st by simp
  ultimately show ?thesis using s2 sa(1) run p1 by blast
qed

lemma cacheable_range: "cacheable st \<Longrightarrow> 100 \<le> unat st \<and> unat st < 1000"
  by (auto simp: cacheable_def is_success_status_def)

text \<open>After a miss, a cacheable reply is the handler's.\<close>

lemma layer_miss_reply:
  assumes "request_key K req = Some key" and "request_hash K req = Some h" and "no_faults s"
    and "select_cached (db_now V1) key (committed s) = None"
    and "layer X K V1 V2 nxt req (s, p) = (Some (Inl resp), w1)"
  shows "\<not> cacheable (rs_status resp)"
proof -
  obtain l sa where l: "layer_lookup X K V1 req s = (l, sa)" by (metis surj_pair)
  from layer_lookup_cases [OF assms(1-3) l] assms(4,5) l
  obtain key h resp0 sb s1 where "layer_store X V2 key h resp0 sb = (Some (Inl resp), s1)"
    by (auto simp: layer_def split: prod.splits option.splits)
  then have "resp = into_response X (internal ''response body too large to cache'')"
    by (auto simp: layer_store_def Let_def split: option.splits if_splits prod.splits)
  then have "rs_status resp = 500"
    by (auto simp: into_response_def json_response_def internal_def api_new_def split: option.split)
  then show ?thesis by (simp add: cacheable_def is_success_status_def)
qed


lemma keyed_request_key:
  "request_key sample_crypto (keyed_request ''k'' b) = Some (scoped_idempotency_key sample_crypto ''t'' ''POST'' ''/p'' ''k'')"
proof -
  have "list_all visible ''k''" by code_simp
  moreover have "trim ''k'' = ''k''" by (rule trim_id) (simp add: graphic_def)
  ultimately have "get_idempotency_key [(''idempotency-key'', ''k'')] = Some ''k''"
    by (simp add: get_idempotency_key_def header_str_def)
  then show ?thesis by (simp add: request_key_def keyed_request_def write_method_def)
qed

lemma keyed_request_hash:
  "length b \<le> MAX_BODY_BYTES \<Longrightarrow> request_hash sample_crypto (keyed_request k b) = Some (hex_encode sample_crypto (sha256 sample_crypto b))"
  by (simp add: request_hash_def keyed_request_def to_bytes_def)

lemma keeps_cache_counting [simp]: "keeps_cache (counting resp)"
  by (simp add: keeps_cache_def counting_def)

lemma counting_run:
  assumes "rs_body resp = Some b" and "length b \<le> MAX_BODY_BYTES"
  obtains s1 where "layer sample_ext sample_crypto (sample_env 1 0) (sample_env 1 0) (counting resp)
      (keyed_request ''k'' ''{}'') (fresh_session sample_db [], 0) =
    (Some (Inr (resp\<lparr>rs_headers := header_insert ''x-idempotent-replayed'' ''false'' (rs_headers resp)\<rparr>)), s1, 1)"
proof -
  have "length ''{}'' \<le> MAX_BODY_BYTES" by (simp add: MAX_BODY_BYTES_def)
  note key = keyed_request_key [of "''{}''"] keyed_request_hash [OF this, of "''k''"]
  obtain sa where miss: "layer sample_ext sample_crypto (sample_env 1 0) (sample_env 1 0) (counting resp)
      (keyed_request ''k'' ''{}'') (fresh_session sample_db [], 0) =
    (case counting resp (keyed_request ''k'' ''{}'') (sa, 0) of
       (None, w2) \<Rightarrow> (None, w2)
     | (Some resp, s2, p2) \<Rightarrow>
         (case layer_store sample_ext (sample_env 1 0) (scoped_idempotency_key sample_crypto ''t'' ''POST'' ''/p'' ''k'')
            (hex_encode sample_crypto (sha256 sample_crypto ''{}'')) resp s2 of (a, s3) \<Rightarrow> (a, s3, p2)))"
    by (rule layer_miss [OF key, of "fresh_session sample_db []"]) (simp_all add: select_cached_def sample_db_def)
  obtain s1 where store: "layer_store sample_ext (sample_env 1 0)
      (scoped_idempotency_key sample_crypto ''t'' ''POST'' ''/p'' ''k'')
      (hex_encode sample_crypto (sha256 sample_crypto ''{}'')) resp sa =
    (Some (Inr (resp\<lparr>rs_headers := header_insert ''x-idempotent-replayed'' ''false'' (rs_headers resp),
                    rs_body := Some b\<rparr>)), s1)"
    by (rule layer_store_done [of resp b sample_ext "sample_env 1 0"]) (use assms in \<open>auto simp: to_bytes_def\<close>)
  have "resp\<lparr>rs_headers := h, rs_body := Some b\<rparr> = resp\<lparr>rs_headers := h\<rparr>" for h
    using assms(1) by (cases resp) simp
  with that [of s1] miss store show ?thesis by (simp add: counting_def)
qed

text \<open>
  C23. A key is bound to its body: a write request that reuses a live key with a different body
  digest is answered 409 \<open>CONFLICT\<close>; the handler does not run and nothing changes.
\<close>

theorem key_reuse_refused:
  assumes "no_faults s" and "request_key K req = Some key" and "request_hash K req = Some h"
    and "select_cached (db_now V1) key (committed s) = Some c" and "c_body_hash c \<noteq> h"
  shows "\<exists>s1. layer X K V1 V2 nxt req (s, p) =
      (Some (Inl (into_response X (conflict ''idempotency key reused with different body''))), s1, p) \<and>
    committed s1 = committed s"
proof -
  obtain l s1 where l: "layer_lookup X K V1 req s = (l, s1)" by (metis surj_pair)
  from layer_lookup_cases [OF assms(2,3,1) l] assms(4,5) l show ?thesis
    by (auto simp: layer_def)
qed

theorem key_reuse_refused_witness:
  "\<exists>s1. layer sample_ext sample_crypto (sample_env 1 5) (sample_env 1 5) (counting created)
        (keyed_request ''k'' ''{}'')
        (fresh_session (snd (put_cached 0 100 (scoped_idempotency_key sample_crypto ''t'' ''POST'' ''/p'' ''k'')
           \<lparr>c_status = 201, c_body = [], c_body_hash = ''other''\<rparr> sample_db)) [], 0) =
      (Some (Inl (into_response sample_ext (conflict ''idempotency key reused with different body''))), s1, 0)"
proof -
  let ?key = "scoped_idempotency_key sample_crypto ''t'' ''POST'' ''/p'' ''k''"
  let ?v = "\<lparr>c_status = 201, c_body = [], c_body_hash = ''other''\<rparr>"
  have "select_cached 0 ?key sample_db = None" by (simp add: select_cached_def sample_db_def)
  then have hit: "select_cached 5 ?key (snd (put_cached 0 100 ?key ?v sample_db)) = Some ?v"
    using pg.put_absent [of sample_db 0 ?key 100 ?v 5] by simp
  have len: "length ''{}'' \<le> MAX_BODY_BYTES" by (simp add: MAX_BODY_BYTES_def)
  have "hex_encode sample_crypto (sha256 sample_crypto ''{}'') \<noteq> ''other''" by code_simp
  then show ?thesis
    using key_reuse_refused [OF _ keyed_request_key keyed_request_hash [OF len], where ?V1.0 = "sample_env 1 5"
        and s = "fresh_session (snd (put_cached 0 100 ?key ?v sample_db)) []" and c = ?v] hit by force
qed

text \<open>
  What is not cached: after a response that is neither a success nor 409 nor 422, the
  cache is as the handler left it, so a retry of the same request runs the handler again; a
  request without a key, or with a method that does not write, goes straight through.
\<close>

theorem failures_not_cached:
  assumes "layer X K V1 V2 nxt req (s, p) = (Some (Inr resp), s1, p1)" and "no_faults s"
    and "request_key K req = None \<or>
      (\<exists>key h. request_key K req = Some key \<and> request_hash K req = Some h \<and>
         select_cached (db_now V1) key (committed s) = None \<and> \<not> cacheable (rs_status resp))"
  shows "\<exists>sa resp0. committed sa = committed s \<and> nxt req (sa, p) = (Some resp0, s1, p1) \<and>
    rs_status resp = rs_status resp0"
  using assms(3)
proof (elim disjE exE conjE)
  assume "request_key K req = None"
  then have "layer_lookup X K V1 req s = (Bypass, s)"
    by (auto simp: request_key_def layer_lookup_def split: if_splits)
  with assms(1) show ?thesis by (auto simp: layer_def split: prod.splits)
next
  fix key h
  assume key: "request_key K req = Some key" "request_hash K req = Some h"
    and none: "select_cached (db_now V1) key (committed s) = None" and "\<not> cacheable (rs_status resp)"
  obtain l sa where l: "layer_lookup X K V1 req s = (l, sa)" by (metis surj_pair)
  from layer_lookup_cases [OF key assms(2) l] none
  have sa: "committed sa = committed s" and lm: "l = Miss key h req" by simp_all
  from assms(1) l lm obtain resp0 sb pb where run: "nxt req (sa, p) = (Some resp0, sb, pb)"
    by (auto simp: layer_def split: prod.splits option.splits)
  from assms(1) l lm run have store: "layer_store X V2 key h resp0 sb = (Some (Inr resp), s1)" and "p1 = pb"
    by (auto simp: layer_def split: prod.splits)
  then have "sb = s1" "rs_status resp = rs_status resp0"
    using \<open>\<not> cacheable (rs_status resp)\<close>
    by (auto simp: layer_store_def Let_def split: option.splits if_splits prod.splits)
  with sa run \<open>p1 = pb\<close> show ?thesis by blast
qed

theorem failures_not_cached_witness:
  "\<exists>s1 sa resp0. layer sample_ext sample_crypto (sample_env 1 0) (sample_env 1 0) (counting (created\<lparr>rs_status := 500\<rparr>))
        (keyed_request ''k'' ''{}'') (fresh_session sample_db [], 0) =
      (Some (Inr (created\<lparr>rs_status := 500, rs_headers := [(''x-idempotent-replayed'', ''false'')]\<rparr>)), s1, 1) \<and>
     counting (created\<lparr>rs_status := 500\<rparr>) (keyed_request ''k'' ''{}'') (sa, 0) = (Some resp0, s1, 1)"
proof -
  let ?run = "layer sample_ext sample_crypto (sample_env 1 0) (sample_env 1 0) (counting (created\<lparr>rs_status := 500\<rparr>))
        (keyed_request ''k'' ''{}'') (fresh_session sample_db [], 0)"
  let ?resp = "created\<lparr>rs_status := 500, rs_headers := [(''x-idempotent-replayed'', ''false'')]\<rparr>"
  obtain s1 where run: "?run = (Some (Inr ?resp), s1, 1)"
    using counting_run [of "created\<lparr>rs_status := 500\<rparr>" "''ok''"]
    by (auto simp: created_def header_insert_def MAX_BODY_BYTES_def)
  have len: "length ''{}'' \<le> MAX_BODY_BYTES" by (simp add: MAX_BODY_BYTES_def)
  have "\<not> cacheable (rs_status ?resp)" by code_simp
  moreover have "select_cached 0 k sample_db = None" for k by (simp add: select_cached_def sample_db_def)
  ultimately show ?thesis
    using failures_not_cached [OF run] keyed_request_key [of "''{}''"] keyed_request_hash [OF len, of "''k''"] run
    by fastforce
qed

lemma put_cached_frame:
  "snd (put_cached now e k v d) = d\<lparr>idem_cache := idem_cache (snd (put_cached now e k v d))\<rparr>"
  by (auto simp: put_cached_eq split: option.split)

text \<open>A layer that stores under a live key changes nothing.\<close>

lemma layer_store_live:
  assumes "schema_ok (committed s)" and "select_cached (db_now V) key (committed s) = Some v"
    and "layer_store X V key h resp s = (a, s')"
  shows "committed s' = committed s"
proof -
  have "committed s4 = committed s" if "store_put X V key u s = (x, s4)" for u x s4
  proof (cases x)
    case None
    with that show ?thesis by (auto simp: store_put_def map_prod_def split: option.splits prod.splits)
  next
    case (Some y)
    with that store_put_served obtain e where
      "committed s4 = committed s \<or> committed s4 = snd (put_cached (db_now V) e key u (committed s))" by blast
    with pg.put_live [OF assms(1,2), of e u] show ?thesis by auto
  qed
  with assms(3) show ?thesis
    by (auto simp: layer_store_def Let_def split: option.splits if_splits prod.splits)
qed

text \<open>A first request: the handler runs on the tables as they are, its reply is marked and cached.\<close>

lemma layer_first:
  assumes "schema_ok (committed s)" and "no_faults s" and "keeps_cache nxt"
    and "request_key K req = Some key" and "request_hash K req = Some h"
    and "select_cached (db_now V1) key (committed s) = None" and "db_now V1 \<le> db_now V2"
    and "add_seconds X (clock V2 0) IDEMPOTENCY_TTL = Some e"
    and "\<forall>w. \<exists>r b. fst (nxt req w) = Some r \<and> cacheable (rs_status r) \<and> to_bytes (rs_body r) MAX_BODY_BYTES = Some b"
  obtains sa r sb pb b s2 where "committed sa = committed s" and "nxt req (sa, p) = (Some r, sb, pb)"
    and "to_bytes (rs_body r) MAX_BODY_BYTES = Some b"
    and "layer X K V1 V2 nxt req (s, p) =
      (Some (Inr (r\<lparr>rs_headers := header_insert ''x-idempotent-replayed'' ''false'' (rs_headers r), rs_body := Some b\<rparr>)), s2, pb)"
    and "schema_ok (committed s2)" and "no_faults s2"
    and "\<exists>C. committed s2 = (committed sb)\<lparr>idem_cache := C\<rparr>"
    and "\<forall>t < e. select_cached t key (committed s2) = Some \<lparr>c_status = rs_status r, c_body = b, c_body_hash = h\<rparr>"
proof -
  obtain sa where sa: "committed sa = committed s" "no_faults sa"
    and layer: "layer X K V1 V2 nxt req (s, p) =
      (case nxt req (sa, p) of
         (None, w2) \<Rightarrow> (None, w2)
       | (Some resp, s2, p2) \<Rightarrow> (case layer_store X V2 key h resp s2 of (a, s3) \<Rightarrow> (a, s3, p2)))"
    by (rule layer_miss [OF assms(4,5,2,6)])
  obtain x sb pb where "nxt req (sa, p) = (x, sb, pb)" by (metis surj_pair)
  with assms(9) obtain r b where run: "nxt req (sa, p) = (Some r, sb, pb)" and r: "cacheable (rs_status r)"
    and b: "to_bytes (rs_body r) MAX_BODY_BYTES = Some b" by (metis fst_conv)
  from assms(3) run sa assms(1) have sb: "no_faults sb" "schema_ok (committed sb)"
    "idem_cache (committed sb) = idem_cache (committed s)"
    unfolding keeps_cache_def by metis+
  let ?v = "\<lparr>c_status = rs_status r, c_body = b, c_body_hash = h\<rparr>"
  obtain y s2 where put: "store_put X V2 key ?v sb = (Some y, s2)"
    using assms(8) by (simp add: store_put_def map_prod_def) (metis case_prod_conv id_apply surj_pair)
  from store_put_served [OF put] assms(8) sb(1)
  obtain c where c: "put_cached (db_now V2) e key ?v (committed sb) = (c, committed s2)" "no_faults s2"
    by (cases y) auto
  then have s2: "committed s2 = snd (put_cached (db_now V2) e key ?v (committed sb))" by simp
  have none: "select_cached (db_now V2) key (committed sb) = None"
    using assms(1,6,7) by (simp add: select_cached_cong [OF sb(3)] absent_later)
  have "layer_store X V2 key h r sb =
      (Some (Inr (r\<lparr>rs_headers := header_insert ''x-idempotent-replayed'' ''false'' (rs_headers r), rs_body := Some b\<rparr>)), s2)"
    using b r put by (simp add: layer_store_def)
  with layer run have "layer X K V1 V2 nxt req (s, p) =
      (Some (Inr (r\<lparr>rs_headers := header_insert ''x-idempotent-replayed'' ''false'' (rs_headers r), rs_body := Some b\<rparr>)), s2, pb)"
    by simp
  moreover have "schema_ok (committed s2)" unfolding s2 by (rule pg.put_valid [OF sb(2)])
  moreover have "\<exists>C. committed s2 = (committed sb)\<lparr>idem_cache := C\<rparr>" unfolding s2 using put_cached_frame by blast
  moreover have "\<forall>t < e. select_cached t key (committed s2) = Some ?v"
    unfolding s2 using pg.put_absent [OF sb(2) none, of e ?v] by simp
  ultimately show ?thesis using that [OF sa(1) run b] c(2) by blast
qed

text \<open>
  Two requests with one key at the same time: the second one arrives either between the lookup
  of the first and its handler (\<open>early\<close>), or between its handler and its store. The layer is
  the one of the code; what else happens while the first request is inside is part of the
  service that it calls.
\<close>

definition joined_by ::
  "bool \<Rightarrow> ((session \<times> 'p) \<Rightarrow> (session \<times> 'p)) \<Rightarrow> (session \<times> 'p) service \<Rightarrow> (session \<times> 'p) service" where
  "joined_by early other nxt rq w =
     (if early then nxt rq (other w) else (case nxt rq w of (r, w1) \<Rightarrow> (r, other w1)))"

text \<open>
  Equal up to the cache; a handler that ran on the tables of \<open>w\<close>; a handler's reply as the layer
  passes it on, marked as not replayed.
\<close>

definition same_tables :: "session \<times> 'p \<Rightarrow> session \<times> 'p \<Rightarrow> bool" where
  "same_tables w w' \<longleftrightarrow> (\<exists>C. committed (fst w') = (committed (fst w))\<lparr>idem_cache := C\<rparr>) \<and> snd w' = snd w"

definition handler_ran ::
  "(session \<times> 'p) service \<Rightarrow> http_request \<Rightarrow> session \<times> 'p \<Rightarrow> http_response \<Rightarrow> session \<times> 'p \<Rightarrow> bool" where
  "handler_ran nxt rq w r w' \<longleftrightarrow> (\<exists>u. same_tables w u \<and> nxt rq u = (Some r, w'))"

definition own_reply :: "http_response \<Rightarrow> http_response \<Rightarrow> bool" where
  "own_reply r resp \<longleftrightarrow>
     resp = r\<lparr>rs_headers := header_insert ''x-idempotent-replayed'' ''false'' (rs_headers r)\<rparr>"

lemma same_tables_refl: "committed (fst w') = committed (fst w) \<Longrightarrow> snd w' = snd w \<Longrightarrow> same_tables w w'"
  unfolding same_tables_def by (metis db.surjective db.update_convs(3) old.unit.exhaust)

lemma ranI: "nxt rq u = (Some r, w') \<Longrightarrow> same_tables w u \<Longrightarrow> handler_ran nxt rq w r w'"
  unfolding handler_ran_def by blast

lemma own_reply_stored: "layer_store X V key h r s = (Some (Inr resp), s') \<Longrightarrow> own_reply r resp"
  by (cases r) (auto simp: own_reply_def layer_store_def Let_def to_bytes_def split: option.splits if_splits prod.splits)

text \<open>The second request, whole, while the first is inside.\<close>

lemma duplicate_runs:
  assumes "schema_ok (committed s)" and "no_faults s" and "keeps_cache nxt"
    and "request_key K req = Some key" and "request_hash K req = Some h"
    and "select_cached (db_now V1) key (committed s) = None" and "db_now V1 \<le> db_now V2"
    and "add_seconds X (clock V2 0) IDEMPOTENCY_TTL = Some e"
    and "\<forall>w. \<exists>r b. fst (nxt req w) = Some r \<and> cacheable (rs_status r) \<and> to_bytes (rs_body r) MAX_BODY_BYTES = Some b"
  obtains r w resp s2 pb where "handler_ran nxt req (s, p) r w" and "same_tables w (s2, pb)"
    and "layer X K V1 V2 nxt req (s, p) = (Some (Inr resp), s2, pb)" and "own_reply r resp"
    and "schema_ok (committed s2)" and "no_faults s2"
    and "\<forall>t < e. select_cached t key (committed s2) = Some \<lparr>c_status = rs_status r, c_body = the (rs_body r), c_body_hash = h\<rparr>"
proof -
  obtain sa r sb pb b s2 where *: "committed sa = committed s" "nxt req (sa, p) = (Some r, sb, pb)"
    "to_bytes (rs_body r) MAX_BODY_BYTES = Some b"
    "layer X K V1 V2 nxt req (s, p) =
      (Some (Inr (r\<lparr>rs_headers := header_insert ''x-idempotent-replayed'' ''false'' (rs_headers r), rs_body := Some b\<rparr>)), s2, pb)"
    "schema_ok (committed s2)" "no_faults s2" "\<exists>C. committed s2 = (committed sb)\<lparr>idem_cache := C\<rparr>"
    "\<forall>t < e. select_cached t key (committed s2) = Some \<lparr>c_status = rs_status r, c_body = b, c_body_hash = h\<rparr>"
    by (rule layer_first [OF assms, of p])
  have b: "rs_body r = Some b" using *(3) by (auto simp: to_bytes_def split: option.splits if_splits)
  let ?resp = "r\<lparr>rs_headers := header_insert ''x-idempotent-replayed'' ''false'' (rs_headers r), rs_body := Some b\<rparr>"
  have "own_reply r ?resp" using b by (cases r) (simp add: own_reply_def)
  moreover have "same_tables (sb, pb) (s2, pb)" using *(7) by (simp add: same_tables_def)
  moreover have "handler_ran nxt req (s, p) r (sb, pb)" by (rule ranI [where nxt = nxt, OF *(2)]) (simp add: same_tables_refl *(1))
  ultimately show ?thesis using that [of r "(sb, pb)" s2 pb ?resp] * b by simp
qed

text \<open>The first request, after its handler, when the second has stored.\<close>

lemma loser_stores:
  assumes "schema_ok (committed s)" and "layer_store X V key h r s = (a, s')"
    and "\<forall>t < e. select_cached t key (committed s) = Some v" and "db_now V < e" and "now < e"
  shows "committed s' = committed s" and "select_cached now key (committed s') = Some v"
  using layer_store_live [OF assms(1) _ assms(2)] assms(3-5) by simp_all

text \<open>
  C37. The layer does not serialise concurrent requests: when a second request with the same
  key and body arrives while the first one is between its lookup and its store, the handler
  runs for both, one after the other on what the other left, and each caller is answered the
  reply of its own run, marked as not replayed. What the second one stored is what later
  retries are answered: a caller whose own request succeeded can be answered the conflict of
  the duplicate from then on.
\<close>

theorem concurrent_duplicates_both_run:
  assumes "schema_ok (committed s)" and "no_faults s" and "keeps_cache nxt"
    and "request_key K req1 = Some key" and "request_hash K req1 = Some h"
    and "request_key K req2 = Some key" and "request_hash K req2 = Some h"
    and "select_cached (db_now V1) key (committed s) = None"
    and "db_now V1 \<le> db_now V3" and "db_now V3 \<le> db_now V4"
    and "add_seconds X (clock V4 0) IDEMPOTENCY_TTL = Some e" and "db_now V2 < e" and "now < e"
    and "\<forall>w. \<exists>r b. fst (nxt req2 w) = Some r \<and> cacheable (rs_status r) \<and> to_bytes (rs_body r) MAX_BODY_BYTES = Some b"
    and "layer X K V1 V2 (joined_by early (\<lambda>w. snd (layer X K V3 V4 nxt req2 w)) nxt) req1 (s, p) =
      (Some (Inr resp1), s', p')"
  shows "\<exists>r1 w1 r2 w2 u resp2 u'.
    (if early then handler_ran nxt req2 (s, p) r2 w2 \<and> handler_ran nxt req1 w2 r1 w1 \<and> same_tables w1 (s', p')
     else handler_ran nxt req1 (s, p) r1 w1 \<and> handler_ran nxt req2 w1 r2 w2 \<and> same_tables w2 (s', p')) \<and>
    same_tables (if early then (s, p) else w1) u \<and> layer X K V3 V4 nxt req2 u = (Some (Inr resp2), u') \<and>
    own_reply r1 resp1 \<and> own_reply r2 resp2 \<and>
    select_cached now key (committed s') =
      Some \<lparr>c_status = rs_status r2, c_body = the (rs_body r2), c_body_hash = h\<rparr>"
proof -
  let ?other = "\<lambda>w. snd (layer X K V3 V4 nxt req2 w)"
  obtain sa where sa: "committed sa = committed s" "no_faults sa"
    and outer: "layer X K V1 V2 (joined_by early ?other nxt) req1 (s, p) =
      (case joined_by early ?other nxt req1 (sa, p) of
         (None, w2) \<Rightarrow> (None, w2)
       | (Some resp, s2, p2) \<Rightarrow> (case layer_store X V2 key h resp s2 of (a, s3) \<Rightarrow> (a, s3, p2)))"
    by (rule layer_miss [OF assms(4,5,2,8)])
  have start: "same_tables (s, p) (sa, p)" using sa(1) by (simp add: same_tables_refl)
  show ?thesis
  proof (cases early)
    case True
    have none: "select_cached (db_now V3) key (committed sa) = None"
      using absent_later [OF assms(1,8,9)] sa(1) by simp
    obtain r2 w2 resp2 s2 pb where two: "handler_ran nxt req2 (sa, p) r2 w2" "same_tables w2 (s2, pb)"
      "layer X K V3 V4 nxt req2 (sa, p) = (Some (Inr resp2), s2, pb)" "own_reply r2 resp2"
      "schema_ok (committed s2)" "no_faults s2"
      "\<forall>t < e. select_cached t key (committed s2) = Some \<lparr>c_status = rs_status r2, c_body = the (rs_body r2), c_body_hash = h\<rparr>"
      by (rule duplicate_runs [OF _ sa(2) assms(3,6,7) none assms(10,11,14), of p]) (use sa(1) assms(1) in simp_all)
    obtain r1 s3 where one: "nxt req1 (s2, pb) = (Some r1, s3, p')" "layer_store X V2 key h r1 s3 = (Some (Inr resp1), s')"
      using assms(15) outer two(3) True by (auto simp: joined_by_def split: prod.splits option.splits)
    from assms(3) one(1) two(5,6) have s3: "schema_ok (committed s3)" "idem_cache (committed s3) = idem_cache (committed s2)"
      unfolding keeps_cache_def by metis+
    have "\<forall>t < e. select_cached t key (committed s3) = Some \<lparr>c_status = rs_status r2, c_body = the (rs_body r2), c_body_hash = h\<rparr>"
      using two(7) by (simp add: select_cached_cong [OF s3(2)])
    note last = loser_stores [OF s3(1) one(2) this assms(12,13)]
    have "handler_ran nxt req2 (s, p) r2 w2" using two(1) sa(1) by (simp add: handler_ran_def same_tables_def)
    moreover have "handler_ran nxt req1 w2 r1 (s3, p')" by (rule ranI [where nxt = nxt, OF one(1) two(2)])
    moreover have "same_tables (s3, p') (s', p')" using last(1) by (simp add: same_tables_refl)
    ultimately show ?thesis
      using start two(3,4) own_reply_stored [OF one(2)] last(2) unfolding if_P [OF True] by blast
  next
    case False
    obtain x sb pb where run: "nxt req1 (sa, p) = (x, sb, pb)" by (metis surj_pair)
    obtain s2 r1 where one: "x = Some r1" "?other (sb, pb) = (s2, p')" "layer_store X V2 key h r1 s2 = (Some (Inr resp1), s')"
      using assms(15) outer False run by (auto simp: joined_by_def split: prod.splits option.splits)
    from assms(3) run one(1) sa assms(1) have sb: "no_faults sb" "schema_ok (committed sb)"
      "idem_cache (committed sb) = idem_cache (committed s)"
      unfolding keeps_cache_def by metis+
    have none: "select_cached (db_now V3) key (committed sb) = None"
      using absent_later [OF assms(1,8,9)] by (simp add: select_cached_cong [OF sb(3)])
    obtain r2 w2 resp2 s4 pd where two: "handler_ran nxt req2 (sb, pb) r2 w2" "same_tables w2 (s4, pd)"
      "layer X K V3 V4 nxt req2 (sb, pb) = (Some (Inr resp2), s4, pd)" "own_reply r2 resp2"
      "schema_ok (committed s4)" "no_faults s4"
      "\<forall>t < e. select_cached t key (committed s4) = Some \<lparr>c_status = rs_status r2, c_body = the (rs_body r2), c_body_hash = h\<rparr>"
      by (rule duplicate_runs [OF sb(2,1) assms(3,6,7) none assms(10,11,14), of pb])
    have eqs: "s2 = s4" "p' = pd" using one(2) two(3) by simp_all
    note last = loser_stores [OF two(5) one(3) [unfolded eqs] two(7) assms(12,13)]
    have "handler_ran nxt req1 (s, p) r1 (sb, pb)" using ranI [where nxt = nxt, OF run [unfolded one(1)] start] .
    moreover have "same_tables w2 (s', p')" using two(2) last(1) eqs(2) by (simp add: same_tables_def)
    moreover have "same_tables (sb, pb) (sb, pb)" by (simp add: same_tables_refl)
    ultimately show ?thesis
      using two(1,3,4) own_reply_stored [OF one(3)] last(2) unfolding if_not_P [OF False] by blast
  qed
qed

definition once :: "(session \<times> nat) service" where
  "once request w = (Some (if snd w = 0 then created else created\<lparr>rs_status := 409\<rparr>), fst w, Suc (snd w))"

theorem concurrent_duplicates_both_run_witness:
  "\<exists>resp1 s'. layer sample_ext sample_crypto (sample_env 1 0) (sample_env 1 2)
      (joined_by False (\<lambda>w. snd (layer sample_ext sample_crypto (sample_env 1 0) (sample_env 1 1) once (keyed_request ''k'' ''{}'') w)) once)
      (keyed_request ''k'' ''{}'') (fresh_session sample_db [], 0) = (Some (Inr resp1), s', 2) \<and>
    rs_status resp1 = 201 \<and>
    select_cached 3 (scoped_idempotency_key sample_crypto ''t'' ''POST'' ''/p'' ''k'') (committed s') =
      Some \<lparr>c_status = 409, c_body = ''ok'', c_body_hash = hex_encode sample_crypto (sha256 sample_crypto ''{}'')\<rparr>"
proof -
  let ?req = "keyed_request ''k'' ''{}''" and ?s = "fresh_session sample_db []"
  let ?nxt = "joined_by False (\<lambda>w. snd (layer sample_ext sample_crypto (sample_env 1 0) (sample_env 1 1) once ?req w)) once"
  have len: "length ''{}'' \<le> MAX_BODY_BYTES" by (simp add: MAX_BODY_BYTES_def)
  note key = keyed_request_key [of "''{}''"] keyed_request_hash [OF len, of "''k''"]
  have none: "select_cached 0 k sample_db = None" for k by (simp add: select_cached_def sample_db_def)
  have "cacheable 201" "cacheable 409" by code_simp+
  then have calm: "\<forall>w. \<exists>r b. fst (once ?req w) = Some r \<and> cacheable (rs_status r) \<and> to_bytes (rs_body r) MAX_BODY_BYTES = Some b"
    by (simp add: once_def created_def to_bytes_def MAX_BODY_BYTES_def)
  have keeps: "keeps_cache once" by (simp add: keeps_cache_def once_def)
  obtain sa where miss: "layer sample_ext sample_crypto (sample_env 1 0) (sample_env 1 2) ?nxt ?req (?s, 0) =
      (case ?nxt ?req (sa, 0) of
         (None, w2) \<Rightarrow> (None, w2)
       | (Some resp, s2, p2) \<Rightarrow>
           (case layer_store sample_ext (sample_env 1 2) (scoped_idempotency_key sample_crypto ''t'' ''POST'' ''/p'' ''k'')
              (hex_encode sample_crypto (sha256 sample_crypto ''{}'')) resp s2 of (a, s3) \<Rightarrow> (a, s3, p2)))"
    by (rule layer_miss [OF key, of ?s "sample_env 1 0"]) (simp_all add: none)
  obtain s2 p2 where nxt: "?nxt ?req (sa, 0) = (Some created, s2, p2)"
    by (simp add: joined_by_def once_def) (metis surj_pair)
  obtain s3 where "layer_store sample_ext (sample_env 1 2) (scoped_idempotency_key sample_crypto ''t'' ''POST'' ''/p'' ''k'')
      (hex_encode sample_crypto (sha256 sample_crypto ''{}'')) created s2 =
    (Some (Inr (created\<lparr>rs_headers := header_insert ''x-idempotent-replayed'' ''false'' (rs_headers created), rs_body := Some ''ok''\<rparr>)), s3)"
    by (rule layer_store_done [of created "''ok''" sample_ext "sample_env 1 2"]) (auto simp: created_def to_bytes_def MAX_BODY_BYTES_def)
  with miss nxt obtain resp1 where run: "layer sample_ext sample_crypto (sample_env 1 0) (sample_env 1 2) ?nxt ?req (?s, 0) =
      (Some (Inr resp1), s3, p2)" by simp
  have "\<exists>r1 w1 r2 w2 u resp2 u'.
    (if False then handler_ran once ?req (?s, 0) r2 w2 \<and> handler_ran once ?req w2 r1 w1 \<and> same_tables w1 (s3, p2)
     else handler_ran once ?req (?s, 0) r1 w1 \<and> handler_ran once ?req w1 r2 w2 \<and> same_tables w2 (s3, p2)) \<and>
    same_tables (if False then (?s, 0) else w1) u \<and>
    layer sample_ext sample_crypto (sample_env 1 0) (sample_env 1 1) once ?req u = (Some (Inr resp2), u') \<and>
    own_reply r1 resp1 \<and> own_reply r2 resp2 \<and>
    select_cached 3 (scoped_idempotency_key sample_crypto ''t'' ''POST'' ''/p'' ''k'') (committed s3) =
      Some \<lparr>c_status = rs_status r2, c_body = the (rs_body r2),
        c_body_hash = hex_encode sample_crypto (sha256 sample_crypto ''{}'')\<rparr>"
    by (rule concurrent_duplicates_both_run [OF _ _ keeps key key _ _ _ _ _ _ calm run, where e = 86400000001])
      (simp_all add: none IDEMPOTENCY_TTL_def)
  with run show ?thesis
    by (fastforce simp: handler_ran_def same_tables_def once_def own_reply_def created_def)
qed

end
