(* ===== verification/Routes.thy ===== *)
theory Routes
  imports Engine Idempotency
begin

text \<open>
  \<open>engine-server/src/routes.rs\<close> and \<open>state.rs\<close>: the request bodies and their decoding, one
  handler per endpoint, the dispatch, and the service that \<open>main.rs\<close> serves, the handlers
  behind the idempotency layer behind the authentication layer. That a handler makes at most
  one call of the engine and leaves the cache alone, what each status code tells, and what
  a caller can rely on end to end.
\<close>

section \<open>Extractors\<close>

text \<open>
  What axum and the crates below it do with a request, as far as the repository does not say:
  whether a content type is JSON, how the body text is read (a document, or the status of
  the rejection), percent decoding of a path segment (\<open>None\<close> when it is not UTF-8), and the
  text of a rejection.
\<close>

record web_ext =
  json_content_type :: "string \<Rightarrow> bool"
  read_json :: "string \<Rightarrow> 16 word + json"
  percent_decode :: "string \<Rightarrow> string option"
  rejection_text :: "16 word \<Rightarrow> string"

definition rejection :: "web_ext \<Rightarrow> 16 word \<Rightarrow> http_response" where
  "rejection W st =
     \<lparr>rs_status = st, rs_headers = [(''content-type'', ''text/plain; charset=utf-8'')],
      rs_body = Some (rejection_text W st)\<rparr>"

text \<open>A body is rejected by its reader as ill formed (400) or as not fitting the type (422).\<close>

definition web_ok :: "web_ext \<Rightarrow> bool" where
  "web_ok W \<longleftrightarrow> (\<forall>b st. read_json W b = Inl st \<longrightarrow> st \<in> {400, 422})"

text \<open>
  \<open>#[derive(Deserialize)]\<close> on a struct whose fields are all required: an object with each field
  exactly once, other members ignored, or an array of the fields in order.
\<close>

fun fields_of :: "string list \<Rightarrow> json \<Rightarrow> json list option" where
  "fields_of names (JObj kvs) =
     those (map (\<lambda>n. case filter (\<lambda>(k, _). k = n) kvs of [(_, j)] \<Rightarrow> Some j | _ \<Rightarrow> None) names)"
| "fields_of names (JArr js) = (if length js = length names then Some js else None)"
| "fields_of names _ = None"

fun as_i32 :: "json \<Rightarrow> int option" where
  "as_i32 (JNum n) = (if - (2 ^ 31) \<le> n \<and> n < 2 ^ 31 then Some n else None)"
| "as_i32 _ = None"

fun as_legs :: "json \<Rightarrow> int list option" where
  "as_legs (JArr js) = those (map as_i32 js)"
| "as_legs _ = None"

definition ttl_class_of_string :: "string \<Rightarrow> ttl_class option" where
  "ttl_class_of_string s =
     (if s = ''short'' then Some Short else if s = ''long'' then Some Long else None)"

definition as_ttl_class :: "json \<Rightarrow> ttl_class option" where
  "as_ttl_class j = Option.bind (as_variant j) ttl_class_of_string"

definition decode_hold_request :: "ext \<Rightarrow> json \<Rightarrow> seat_hold_request option" where
  "decode_hold_request X j =
     (case fields_of [''trip_id'', ''seat_no'', ''leg_indexes'', ''operator_id'', ''ttl_class''] j of
        Some [jt, js, jl, jo, jc] \<Rightarrow>
          Option.bind (de_uuid X jt) (\<lambda>t.
          Option.bind (as_string js) (\<lambda>s.
          Option.bind (as_legs jl) (\<lambda>l.
          Option.bind (as_string jo) (\<lambda>ope.
          Option.bind (as_ttl_class jc) (\<lambda>c.
            Some \<lparr>req_trip_id = t, req_seat_no = s, req_leg_indexes = l, req_operator_id = ope,
                  req_ttl_class = c\<rparr>)))))
      | _ \<Rightarrow> None)"

record confirm_body =
  cb_booking_id :: string

definition decode_confirm_body :: "json \<Rightarrow> confirm_body option" where
  "decode_confirm_body j =
     (case fields_of [''booking_id''] j of
        Some [jb] \<Rightarrow> map_option (\<lambda>b. \<lparr>cb_booking_id = b\<rparr>) (as_string jb)
      | _ \<Rightarrow> None)"

record cancel_body =
  cn_trip_id :: uuid
  cn_seat_no :: string
  cn_leg_indexes :: "int list"

definition decode_cancel_body :: "ext \<Rightarrow> json \<Rightarrow> cancel_body option" where
  "decode_cancel_body X j =
     (case fields_of [''trip_id'', ''seat_no'', ''leg_indexes''] j of
        Some [jt, js, jl] \<Rightarrow>
          Option.bind (de_uuid X jt) (\<lambda>t.
          Option.bind (as_string js) (\<lambda>s.
          Option.bind (as_legs jl) (\<lambda>l.
            Some \<lparr>cn_trip_id = t, cn_seat_no = s, cn_leg_indexes = l\<rparr>)))
      | _ \<Rightarrow> None)"

text \<open>\<open>Json<T>\<close>: content type, body (at most axum's default of 2 MB), document, type.\<close>

definition extract_json :: "web_ext \<Rightarrow> (json \<Rightarrow> 'a option) \<Rightarrow> http_request \<Rightarrow> 16 word + 'a" where
  "extract_json W dec request =
     (case header_str ''content-type'' (rq_headers request) of
        None \<Rightarrow> Inl 415
      | Some ct \<Rightarrow>
      if \<not> json_content_type W ct then Inl 415
      else
      (case rq_body request of
         None \<Rightarrow> Inl 400
       | Some b \<Rightarrow>
      if length b > 2097152 then Inl 413
      else
      (case read_json W b of
         Inl st \<Rightarrow> Inl st
       | Inr j \<Rightarrow> (case dec j of None \<Rightarrow> Inl 422 | Some x \<Rightarrow> Inr x))))"

section \<open>Handlers\<close>

text \<open>
  \<open>AppState\<close>; the connection pool and the publisher are the state that every handler threads
  through, and the \<open>IdempotencyStore\<close> is a table of the pool's database.
\<close>

record app_state =
  auth :: auth_state
  ttl_short_secs :: "64 word"
  ttl_long_secs :: "64 word"

type_synonym 'p handled = "(api_error + 16 word \<times> json) option \<times> session \<times> 'p"

text \<open>An engine call with \<open>?\<close>: an \<open>EngineError\<close> becomes an \<open>ApiError\<close>, a panic unwinds.\<close>

definition answer ::
  "('a \<Rightarrow> 16 word \<times> json) \<Rightarrow> (engine_error, 'a) outcome \<times> session \<times> 'p \<Rightarrow> 'p handled" where
  "answer f rw =
     (case rw of
        (Ok x, w) \<Rightarrow> (Some (Inr (f x)), w)
      | (Err e, w) \<Rightarrow> (Some (Inl (api_error_of e)), w)
      | (Panicked, w) \<Rightarrow> (None, w))"

definition healthz :: "16 word \<times> json" where
  "healthz = (200, JObj [(''service'', JStr ''reservation-engine''), (''status'', JStr ''ok'')])"

fun hold_status :: "atomic_hold_result \<Rightarrow> 16 word" where
  "hold_status (Success _ _ _) = 201"
| "hold_status (Failure _ IncompleteInventory _) = 422"
| "hold_status (Failure _ SeatConflict _) = 409"
| "hold_status (Failure _ TransactionError _) = 500"

definition post_hold ::
  "ext \<Rightarrow> app_state \<Rightarrow> call_env \<Rightarrow> 'p publish \<Rightarrow> seat_hold_request \<Rightarrow> session \<times> 'p \<Rightarrow> 'p handled" where
  "post_hold X A V P req w =
     (if req_leg_indexes req = [] then (Some (Inl (bad_request ''leg_indexes must not be empty'')), w)
      else if trim (req_seat_no req) = [] then (Some (Inl (bad_request ''seat_no required'')), w)
      else
        (let ttl_seconds = (case req_ttl_class req of Short \<Rightarrow> ttl_short_secs A | Long \<Rightarrow> ttl_long_secs A)
         in answer (\<lambda>r. (hold_status r, hold_result_to_json X r))
              (atomic_hold X V P req (sint ttl_seconds) w)))"

definition delete_hold_route ::
  "ext \<Rightarrow> call_env \<Rightarrow> 'p publish \<Rightarrow> string \<Rightarrow> session \<times> 'p \<Rightarrow> 'p handled" where
  "delete_hold_route X V P hold_ref w =
     answer (\<lambda>r. (200, JObj [(''success'', JBool (rel_success r))]))
       (release_hold_by_ref X V P hold_ref w)"

definition confirm_reply :: "string \<Rightarrow> string \<Rightarrow> confirm_result \<Rightarrow> 16 word \<times> json" where
  "confirm_reply hold_ref booking_id r =
     (if conf_success r then
        (200, JObj [(''booking_id'', JStr booking_id), (''hold_ref'', JStr hold_ref), (''success'', JBool True)])
      else
        (let reason = (case conf_conflict r of None \<Rightarrow> ''HOLD_EXPIRED_OR_MISSING'' | Some c \<Rightarrow> c)
         in (409, JObj [(''conflict'', JStr reason), (''conflict_seats'', JArr []),
                        (''reason'', JStr reason), (''success'', JBool False)])))"

definition post_confirm ::
  "ext \<Rightarrow> call_env \<Rightarrow> 'p publish \<Rightarrow> string \<Rightarrow> confirm_body \<Rightarrow> session \<times> 'p \<Rightarrow> 'p handled" where
  "post_confirm X V P hold_ref body w =
     answer (confirm_reply hold_ref (cb_booking_id body))
       (confirm_booking X V P hold_ref (cb_booking_id body) w)"

definition post_cancel_seats ::
  "ext \<Rightarrow> call_env \<Rightarrow> 'p publish \<Rightarrow> cancel_body \<Rightarrow> session \<times> 'p \<Rightarrow> 'p handled" where
  "post_cancel_seats X V P body w =
     answer (\<lambda>r. (200, JObj [(''success'', JBool (can_success r))]))
       (cancel_booking_seats X V P (cn_trip_id body) (cn_seat_no body) (cn_leg_indexes body) w)"

text \<open>\<open>serde_json::to_value\<close> of the snapshot: members in the order of their names.\<close>

fun status_name :: "seat_status_kind \<Rightarrow> string" where
  "status_name Free = ''free''"
| "status_name Held = ''held''"
| "status_name Booked = ''booked''"

definition leg_value :: "ext \<Rightarrow> leg_state \<Rightarrow> json" where
  "leg_value X l =
     JObj ((case ls_hold_expires_at l of
              None \<Rightarrow> [] | Some t \<Rightarrow> [(''hold_expires_at'', JStr (time_to_string X t))]) @
           [(''leg_index'', JNum (ls_leg_index l)), (''status'', JStr (status_name (ls_status l)))])"

definition seat_value :: "ext \<Rightarrow> seat_state \<Rightarrow> json" where
  "seat_value X z =
     JObj [(''leg_states'', JArr (map (leg_value X) (ss_leg_states z))), (''seat_no'', JStr (ss_seat_no z))]"

definition snapshot_value :: "ext \<Rightarrow> inventory_snapshot \<Rightarrow> json" where
  "snapshot_value X snap =
     JObj [(''seats'', JArr (map (seat_value X) (snap_seats snap))),
           (''trip_id'', JStr (uuid_to_string X (snap_trip_id snap)))]"

definition get_snapshot ::
  "ext \<Rightarrow> (string \<Rightarrow> string) \<Rightarrow> uuid \<Rightarrow> session \<times> 'p \<Rightarrow> 'p handled" where
  "get_snapshot X collate trip_id w =
     (let (s, p) = w
      in case get_inventory_snapshot collate trip_id s of
           (r, s1) \<Rightarrow> answer (\<lambda>snap. (200, snapshot_value X snap)) (r, s1, p))"

section \<open>The router\<close>

datatype endpoint =
    Healthz
  | Holds
  | HoldRef string
  | HoldConfirm string
  | CancelSeats
  | Inventory string

text \<open>The route table; a parameter matches one segment that is not empty.\<close>

definition match_route :: "string \<Rightarrow> endpoint option" where
  "match_route path =
     (let segs = split_on CHR ''/'' path; pre = [[], ''api'', ''v1'']
      in if segs = pre @ [''healthz''] then Some Healthz
         else if segs = pre @ [''holds''] then Some Holds
         else if length segs = 5 \<and> take 4 segs = pre @ [''holds''] \<and> segs ! 4 \<noteq> [] then
           Some (HoldRef (segs ! 4))
         else if length segs = 6 \<and> take 4 segs = pre @ [''holds''] \<and> segs ! 4 \<noteq> [] \<and> segs ! 5 = ''confirm'' then
           Some (HoldConfirm (segs ! 4))
         else if segs = pre @ [''cancel-seats''] then Some CancelSeats
         else if length segs = 5 \<and> take 4 segs = pre @ [''inventory''] \<and> segs ! 4 \<noteq> [] then
           Some (Inventory (segs ! 4))
         else None)"

fun endpoint_method :: "endpoint \<Rightarrow> string" where
  "endpoint_method Healthz = ''GET''"
| "endpoint_method Holds = ''POST''"
| "endpoint_method (HoldRef _) = ''DELETE''"
| "endpoint_method (HoldConfirm _) = ''POST''"
| "endpoint_method CancelSeats = ''POST''"
| "endpoint_method (Inventory _) = ''GET''"

text \<open>Axum runs a \<open>GET\<close> handler for \<open>HEAD\<close> too and drops the body.\<close>

definition method_matches :: "endpoint \<Rightarrow> string \<Rightarrow> bool" where
  "method_matches e m \<longleftrightarrow> m = endpoint_method e \<or> m = ''HEAD'' \<and> endpoint_method e = ''GET''"

definition finish :: "ext \<Rightarrow> 'p handled \<Rightarrow> http_response option \<times> session \<times> 'p" where
  "finish X rw =
     (case rw of (r, w) \<Rightarrow>
        (map_option (\<lambda>x. case x of Inl e \<Rightarrow> into_response X e | Inr (st, j) \<Rightarrow> json_response X st j) r, w))"

definition handle ::
  "ext \<Rightarrow> web_ext \<Rightarrow> app_state \<Rightarrow> call_env \<Rightarrow> (string \<Rightarrow> string) \<Rightarrow> 'p publish \<Rightarrow> endpoint \<Rightarrow>
   (session \<times> 'p) service" where
  "handle X W A V collate P e request w =
     (let reject = (\<lambda>st. (Some (rejection W st), w))
      in case e of
           Healthz \<Rightarrow> finish X (Some (Inr healthz), w)
         | Holds \<Rightarrow>
             (case extract_json W (decode_hold_request X) request of
                Inl st \<Rightarrow> reject st
              | Inr req \<Rightarrow> finish X (post_hold X A V P req w))
         | HoldRef seg \<Rightarrow>
             (case percent_decode W seg of
                None \<Rightarrow> reject 400
              | Some hold_ref \<Rightarrow> finish X (delete_hold_route X V P hold_ref w))
         | HoldConfirm seg \<Rightarrow>
             (case percent_decode W seg of
                None \<Rightarrow> reject 400
              | Some hold_ref \<Rightarrow>
                  (case extract_json W decode_confirm_body request of
                     Inl st \<Rightarrow> reject st
                   | Inr body \<Rightarrow> finish X (post_confirm X V P hold_ref body w)))
         | CancelSeats \<Rightarrow>
             (case extract_json W (decode_cancel_body X) request of
                Inl st \<Rightarrow> reject st
              | Inr body \<Rightarrow> finish X (post_cancel_seats X V P body w))
         | Inventory seg \<Rightarrow>
             (case Option.bind (percent_decode W seg) (uuid_parse X) of
                None \<Rightarrow> reject 400
              | Some trip_id \<Rightarrow> finish X (get_snapshot X collate trip_id w)))"

definition empty_response :: "16 word \<Rightarrow> http_response" where
  "empty_response st = \<lparr>rs_status = st, rs_headers = [], rs_body = Some []\<rparr>"

definition routes ::
  "ext \<Rightarrow> web_ext \<Rightarrow> app_state \<Rightarrow> call_env \<Rightarrow> (string \<Rightarrow> string) \<Rightarrow> 'p publish \<Rightarrow>
   (session \<times> 'p) service" where
  "routes X W A V collate P request w =
     (case match_route (rq_path request) of
        None \<Rightarrow> (Some (empty_response 404), w)
      | Some e \<Rightarrow>
          if \<not> method_matches e (rq_method request) then (Some (empty_response 405), w)
          else
            (case handle X W A V collate P e request w of
               (resp, w1) \<Rightarrow>
                 (if rq_method request = ''HEAD'' then map_option (\<lambda>r. r\<lparr>rs_body := Some []\<rparr>) resp else resp, w1)))"

text \<open>
  The service of \<open>router\<close>: the last layer added is the outermost. Each layer reads its clock
  when it runs.
\<close>

record serve_env =
  auth_now :: "64 word"
  lookup_env :: call_env
  handler_env :: call_env
  store_env :: call_env

definition flatten :: "'w layered \<Rightarrow> 'w service" where
  "flatten l request w = (case l request w of (r, w1) \<Rightarrow> (map_option (case_sum id id) r, w1))"

definition router ::
  "ext \<Rightarrow> web_ext \<Rightarrow> crypto \<Rightarrow> app_state \<Rightarrow> (string \<Rightarrow> string) \<Rightarrow> 'p publish \<Rightarrow> serve_env \<Rightarrow>
   (session \<times> 'p) service" where
  "router X W K A collate P E =
     flatten (verify X K (auth A) (auth_now E)
       (flatten (layer X K (lookup_env E) (store_env E)
          (routes X W A (handler_env E) collate P))))"

section \<open>What a handler does to the database\<close>

text \<open>A handler keeps the cache and the unique indexes, and does not make a calm schedule bad.\<close>

definition frames :: "session \<Rightarrow> session \<Rightarrow> bool" where
  "frames s s' \<longleftrightarrow>
     idem_cache (committed s') = idem_cache (committed s) \<and>
     (schema_ok (committed s) \<longrightarrow> schema_ok (committed s')) \<and> (no_faults s \<longrightarrow> no_faults s')"

lemma frames_refl [simp]: "frames s s"
  by (simp add: frames_def)

lemma eff_frames [simp]:
  "idem_cache (snd (hold_eff q d)) = idem_cache d"
  "idem_cache (snd (confirm_eff h b now d)) = idem_cache d"
  "idem_cache (snd (release_eff h d)) = idem_cache d"
  "idem_cache (snd (cancel_eff trip seat legs d)) = idem_cache d"
  by (simp_all add: hold_eff_def place_hold_def mark_held_def confirm_eff_def book_hold_def book_held_def
      consume_hold_def release_eff_def free_hold_def clear_ref_def delete_hold_def cancel_eff_def
      clear_legs_def split: option.split)

lemma eff_schema [intro]:
  "schema_ok d \<Longrightarrow> schema_ok (snd (hold_eff q d))"
  "schema_ok d \<Longrightarrow> schema_ok (snd (confirm_eff h b now d))"
  "schema_ok d \<Longrightarrow> schema_ok (snd (release_eff h d))"
  "schema_ok d \<Longrightarrow> schema_ok (snd (cancel_eff trip seat legs d))"
  by (auto simp: hold_eff_def confirm_eff_def release_eff_def cancel_eff_def
      intro: schema_ok_place_hold schema_ok_free_hold split: option.split)

lemma calm_txns:
  "calm (run_hold_txn V trip seat legs operator cls hold_ref expires)"
  "calm (confirm_txn V h b)" "calm (release_txn h)" "calm (cancel_txn trip seat legs)"
  unfolding run_hold_txn_def confirm_txn_def release_txn_def cancel_txn_def
  by (intro calm_intros)+

context transaction
begin

lemma frames_run:
  assumes "txn s = (x, s')" and "calm txn"
    and "\<And>d. idem_cache (snd (eff d)) = idem_cache d" and "\<And>d. schema_ok d \<Longrightarrow> schema_ok (snd (eff d))"
  shows "frames s s'"
  using assms all_or_nothing [of s] calmD [OF assms(2) _ assms(1)] by (auto simp: frames_def)

end

lemma frames_txns:
  "run_hold_txn V trip seat legs operator cls hold_ref expires s = (x, s') \<Longrightarrow> frames s s'"
  "confirm_txn V h b s = (xc, s') \<Longrightarrow> frames s s'"
  "release_txn h s = (xr, s') \<Longrightarrow> frames s s'"
  "cancel_txn trip seat legs s = (xn, s') \<Longrightarrow> frames s s'"
  by (blast intro: hold_txn.frames_run confirm_txn.frames_run release_txn.frames_run cancel_txn.frames_run
      calm_txns eff_frames eff_schema)+

lemma frames_calls:
  "atomic_hold X V P req ttl (s, p) = (r, s', p') \<Longrightarrow> frames s s'"
  "confirm_booking X V P h b (s, p) = (rc, s', p') \<Longrightarrow> frames s s'"
  "release_hold_by_ref X V P h (s, p) = (rr, s', p') \<Longrightarrow> frames s s'"
  "cancel_booking_seats X V P trip seat legs (s, p) = (rn, s', p') \<Longrightarrow> frames s s'"
  by (auto simp: atomic_hold_def confirm_booking_def release_hold_by_ref_def cancel_booking_seats_def Let_def
      split: option.splits prod.splits sum.splits dest: frames_txns)

lemma frames_snapshot:
  assumes "get_inventory_snapshot collate trip s = (r, s')"
  shows "frames s s' \<and> committed s' = committed s"
proof -
  obtain x s1 where run: "pool_exec (query (select_snapshot collate trip)) s = (x, s1)" by (metis surj_pair)
  moreover have "committed s1 = committed s"
    using run by (cases x) (auto dest: pool_exec_Inr pool_exec_Inl)
  moreover have "no_faults s \<longrightarrow> no_faults s1" using calmD [OF calm_call(4)] run by blast
  ultimately show ?thesis
    using assms by (cases x) (auto simp: get_inventory_snapshot_def frames_def)
qed

lemma snd_answer [simp]: "snd (answer f rw) = snd rw"
  by (auto simp: answer_def split: prod.split outcome.split)

lemma snd_finish [simp]: "snd (finish X rw) = snd rw"
  by (simp add: finish_def split: prod.split)

text \<open>A request makes at most one call of the engine, and one that only reads makes none that writes.\<close>

definition one_call :: "ext \<Rightarrow> 'p publish \<Rightarrow> session \<times> 'p \<Rightarrow> session \<times> 'p \<Rightarrow> bool" where
  "one_call X P w w' \<longleftrightarrow>
     frames (fst w) (fst w') \<and>
     (committed (fst w') = committed (fst w) \<or>
      (\<exists>c. engine_step X P (committed (fst w)) c (committed (fst w'))))"

lemma one_call_refl [simp]: "one_call X P w w"
  by (simp add: one_call_def)

lemma one_call_handlers:
  "one_call X P w (snd (post_hold X A V P req w))"
  "one_call X P w (snd (delete_hold_route X V P h w))"
  "one_call X P w (snd (post_confirm X V P h cb w))"
  "one_call X P w (snd (post_cancel_seats X V P cn w))"
  "one_call X P w (snd (get_snapshot X collate trip w))"
proof -
  obtain s p where w: "w = (s, p)" by (cases w)
  show "one_call X P w (snd (post_hold X A V P req w))"
    unfolding post_hold_def w Let_def
    by (cases "atomic_hold X V P req (sint (case req_ttl_class req of Short \<Rightarrow> ttl_short_secs A | Long \<Rightarrow> ttl_long_secs A)) (s, p)")
      (auto simp: one_call_def dest: frames_calls engine_step.hold)
  show "one_call X P w (snd (delete_hold_route X V P h w))"
    unfolding delete_hold_route_def w
    by (cases "release_hold_by_ref X V P h (s, p)") (auto simp: one_call_def dest: frames_calls engine_step.release)
  show "one_call X P w (snd (post_confirm X V P h cb w))"
    unfolding post_confirm_def w
    by (cases "confirm_booking X V P h (cb_booking_id cb) (s, p)")
      (auto simp: one_call_def dest: frames_calls engine_step.confirm)
  show "one_call X P w (snd (post_cancel_seats X V P cn w))"
    unfolding post_cancel_seats_def w
    by (cases "cancel_booking_seats X V P (cn_trip_id cn) (cn_seat_no cn) (cn_leg_indexes cn) (s, p)")
      (auto simp: one_call_def dest: frames_calls engine_step.cancel)
  show "one_call X P w (snd (get_snapshot X collate trip w))"
    unfolding get_snapshot_def w
    by (cases "get_inventory_snapshot collate trip s") (auto simp: one_call_def dest: frames_snapshot)
qed

lemma one_call_handle: "one_call X P w (snd (handle X W A V collate P e request w))"
  by (auto simp: handle_def Let_def one_call_handlers split: endpoint.split sum.split option.split)

lemma one_call_routes:
  assumes "routes X W A V collate P request w = (r, w')"
  shows "one_call X P w w'"
  using assms one_call_handle [of X P w W A V collate _ request]
  by (auto simp: routes_def split: option.splits if_splits prod.splits) (metis snd_conv)+

lemma keeps_cache_routes: "keeps_cache (routes X W A V collate P)"
  unfolding keeps_cache_def
  using one_call_routes by (fastforce simp: one_call_def frames_def)
section \<open>Request bodies\<close>

text \<open>\<open>#[derive(Serialize)]\<close> on the request, as its clients use it.\<close>

definition hold_request_members :: "ext \<Rightarrow> seat_hold_request \<Rightarrow> (string \<times> json) list" where
  "hold_request_members X r =
     [(''trip_id'', JStr (uuid_to_string X (req_trip_id r))),
      (''seat_no'', JStr (req_seat_no r)),
      (''leg_indexes'', JArr (map JNum (req_leg_indexes r))),
      (''operator_id'', JStr (req_operator_id r)),
      (''ttl_class'', JStr (as_str (req_ttl_class r)))]"

definition i32 :: "int \<Rightarrow> bool" where
  "i32 n \<longleftrightarrow> - (2 ^ 31) \<le> n \<and> n < 2 ^ 31"

lemma as_i32_Some: "as_i32 j = Some n \<longleftrightarrow> j = JNum n \<and> i32 n"
  by (cases j) (auto simp: i32_def)

lemma those_Some: "those xs = Some ys \<longleftrightarrow> xs = map Some ys"
proof (induction xs arbitrary: ys)
  case (Cons x xs)
  then show ?case by (cases x; cases ys) auto
qed auto

lemma as_legs_Some: "as_legs j = Some ls \<longleftrightarrow> j = JArr (map JNum ls) \<and> list_all i32 ls"
proof (cases j)
  case (JArr js)
  have "map as_i32 js = map Some ls \<longleftrightarrow> js = map JNum ls \<and> list_all i32 ls"
  proof (induction js arbitrary: ls)
    case (Cons a js)
    then show ?case by (cases ls) (auto simp: as_i32_Some)
  qed auto
  with JArr show ?thesis by (simp add: those_Some)
qed simp_all

text \<open>The members of an object may come in any order, with others between them.\<close>

lemma fields_of_members:
  assumes "mset (filter (\<lambda>(k, _). k \<in> set names) kvs) = mset ms" and "map fst ms = names" and "distinct names"
  shows "fields_of names (JObj kvs) = Some (map snd ms)"
proof -
  have one: "filter (\<lambda>(k, _). k = n) kvs = [(n, j)]" if "(n, j) \<in> set ms" for n j
  proof -
    have "n \<in> set names" using that assms(2) by (metis fst_conv image_eqI list.set_map)
    then have f: "filter (\<lambda>(k, _). k = n) kvs = filter (\<lambda>(k, _). k = n) (filter (\<lambda>(k, _). k \<in> set names) kvs)"
      by (induction kvs) auto
    have "filter (\<lambda>(k, _). k = n) ms = [(n, j)]"
      using that assms(2,3)
    proof (induction ms arbitrary: names)
      case (Cons m ms)
      then show ?case
        by (cases m) (auto simp: filter_empty_conv rev_image_eqI)
    qed simp
    moreover have "mset (filter (\<lambda>(k, _). k = n) kvs) =
        filter_mset (\<lambda>(k, _). k = n) (mset (filter (\<lambda>(k, _). k \<in> set names) kvs))"
      by (subst f) (rule mset_filter)
    moreover have "\<dots> = mset (filter (\<lambda>(k, _). k = n) ms)"
      unfolding assms(1) by (rule mset_filter [symmetric])
    ultimately have "mset (filter (\<lambda>(k, _). k = n) kvs) = mset [(n, j)]" by (simp only:)
    then show ?thesis by (simp only: mset.simps add_mset_remove_trivial mset_single_iff)
  qed
  have "map (\<lambda>n. case filter (\<lambda>(k, _). k = n) kvs of [(_, j)] \<Rightarrow> Some j | _ \<Rightarrow> None) names = map Some (map snd ms)"
    unfolding assms(2) [symmetric] by (auto simp: one)
  then show ?thesis by (simp only: fields_of.simps those_Some)
qed

lemma case_fields:
  "(case F of Some [a, b, c, d, e] \<Rightarrow> g a b c d e | _ \<Rightarrow> None) = Some r \<Longrightarrow>
   \<exists>a b c d e. F = Some [a, b, c, d, e] \<and> g a b c d e = Some r"
  "(case G of Some [a, b, c] \<Rightarrow> h a b c | _ \<Rightarrow> None) = Some s \<Longrightarrow>
   \<exists>a b c. G = Some [a, b, c] \<and> h a b c = Some s"
  by (auto split: option.splits list.splits)

text \<open>
  C29. A hold request survives its JSON form: a document with the members that the request
  serialises to, in any order and among any members with other names, is decoded as that
  request, provided its leg indexes fit \<open>i32\<close>.
\<close>

theorem hold_request_round_trip:
  assumes "wire_strings_ok X" and "list_all i32 (req_leg_indexes r)"
    and "mset (filter (\<lambda>(k, _). k \<in> fst ` set (hold_request_members X r)) kvs) = mset (hold_request_members X r)"
  shows "decode_hold_request X (JObj kvs) = Some r"
proof -
  let ?names = "[''trip_id'', ''seat_no'', ''leg_indexes'', ''operator_id'', ''ttl_class'']"
  have "fst ` set (hold_request_members X r) = set ?names"
    by (simp add: hold_request_members_def)
  then have f: "fields_of ?names (JObj kvs) = Some (map snd (hold_request_members X r))"
    using assms(3) by (intro fields_of_members) (simp_all add: hold_request_members_def)
  have legs: "as_legs (JArr (map JNum (req_leg_indexes r))) = Some (req_leg_indexes r)"
    using assms(2) unfolding as_legs_Some by simp
  have cls: "as_ttl_class (JStr (as_str (req_ttl_class r))) = Some (req_ttl_class r)"
    by (cases "req_ttl_class r") (simp_all add: as_ttl_class_def ttl_class_of_string_def)
  show ?thesis
    unfolding decode_hold_request_def f
    using wire_strings_okD(1) [OF assms(1)]
    by (simp add: hold_request_members_def legs cls de_uuid_def del: as_legs.simps)
qed

theorem hold_request_round_trip_witness:
  "decode_hold_request sample_ext
     (JObj ((''note'', JNull) # rev (hold_request_members sample_ext (sample_req ''1A'' [0, 1])))) =
   Some (sample_req ''1A'' [0, 1])"
proof -
  have "list_all i32 (req_leg_indexes (sample_req ''1A'' [0, 1]))" by (simp add: i32_def)
  then show ?thesis
    by (rule hold_request_round_trip [OF sample_ext_ok(1)]) (simp add: hold_request_members_def)
qed

text \<open>
  C30. What a handler is given is well typed: a document is decoded as a hold or a cancellation
  only if every leg index is an integer that fits \<open>i32\<close>, and the TTL class of a hold is one
  of the two names.
\<close>

theorem decoded_requests_typed:
  "(case decode_hold_request X j of
      None \<Rightarrow> True
    | Some r \<Rightarrow>
        list_all i32 (req_leg_indexes r) \<and>
        (\<exists>jt js jl jo jc. fields_of [''trip_id'', ''seat_no'', ''leg_indexes'', ''operator_id'', ''ttl_class''] j =
             Some [jt, js, jl, jo, jc] \<and>
           de_uuid X jt = Some (req_trip_id r) \<and> js = JStr (req_seat_no r) \<and>
           jl = JArr (map JNum (req_leg_indexes r)) \<and> jo = JStr (req_operator_id r) \<and>
           as_variant jc = Some (as_str (req_ttl_class r)))) \<and>
   (case decode_cancel_body X j of None \<Rightarrow> True | Some b \<Rightarrow> list_all i32 (cn_leg_indexes b))"
proof -
  have str: "as_string v = Some z \<longleftrightarrow> v = JStr z" for v z by (cases v) simp_all
  have cls: "as_ttl_class v = Some c \<longleftrightarrow> as_variant v = Some (as_str c)" for v c
    by (cases "as_variant v"; cases c) (simp_all add: as_ttl_class_def ttl_class_of_string_def)
  have hold: "\<exists>jt js jl jo jc. fields_of [''trip_id'', ''seat_no'', ''leg_indexes'', ''operator_id'', ''ttl_class''] j =
        Some [jt, js, jl, jo, jc] \<and> de_uuid X jt = Some (req_trip_id r) \<and>
      js = JStr (req_seat_no r) \<and> as_legs jl = Some (req_leg_indexes r) \<and> jo = JStr (req_operator_id r) \<and>
      as_variant jc = Some (as_str (req_ttl_class r))" if "decode_hold_request X j = Some r" for r
    using case_fields(1) [OF that [unfolded decode_hold_request_def]]
    by (elim exE conjE) (auto simp: bind_eq_Some_conv str cls)
  have cancel: "list_all i32 (cn_leg_indexes b)" if "decode_cancel_body X j = Some b" for b
    using case_fields(2) [OF that [unfolded decode_cancel_body_def]]
    by (elim exE conjE) (auto simp: bind_eq_Some_conv as_legs_Some)
  show ?thesis
    using hold cancel by (auto simp: as_legs_Some split: option.split)
qed

section \<open>What a status code tells\<close>

lemma hold_eff_reply:
  assumes "schema_ok d"
  shows "hold_eff q d = (Inr (Inr u), d') \<Longrightarrow> k \<in> hold_keys q \<Longrightarrow>
      seat_at d k = Some SFree \<and> seat_at d' k = Some (SHeld (hr_ref q))"
    and "hold_eff q d = (Inr (Inl SeatConflict), d') \<Longrightarrow>
      d' = d \<and> (\<exists>k \<in> hold_keys q. seat_at d k \<notin> {None, Some SFree})"
    and "hold_eff q d = (Inr (Inl IncompleteInventory), d') \<Longrightarrow>
      d' = d \<and> (\<not> distinct (hr_legs q) \<or> (\<exists>k \<in> hold_keys q. seat_at d k = None))"
    and "hold_eff q d \<noteq> (Inr (Inl TransactionError), d')"
    and "hold_eff q d = (Inr (Inr u), d') \<Longrightarrow> hold_at d' (hr_ref q) = Some q"
proof -
  assume eff: "hold_eff q d = (Inr (Inr u), d')" and k: "k \<in> hold_keys q"
  then have *: "legs_present q d" "legs_free q d" "d' = place_hold q d"
    by (auto simp: hold_eff_def split: if_splits)
  with k assms have "seat_at d k = Some SFree"
    by (simp add: legs_present_iff legs_free_iff)
  with k * seat_at_place_hold [OF assms *(2), of k]
  show "seat_at d k = Some SFree \<and> seat_at d' k = Some (SHeld (hr_ref q))" by simp
qed (auto simp: hold_eff_def legs_present_iff [OF assms] legs_free_iff [OF assms] hold_at_place_hold
      split: if_splits simp flip: hold_at_None)

lemma extract_json_Inl: "web_ok W \<Longrightarrow> extract_json W dec request = Inl st \<Longrightarrow> st \<in> {400, 413, 415, 422}"
  by (auto simp: extract_json_def web_ok_def split: option.splits if_splits sum.splits)

lemma routes_at:
  assumes "match_route (rq_path request) = Some e" and "rq_method request = endpoint_method e"
  shows "routes X W A V collate P request w = handle X W A V collate P e request w"
  using assms by (cases e) (auto simp: routes_def method_matches_def split: prod.split)

abbreviation hold_keys_of :: "seat_hold_request \<Rightarrow> seat_key set" where
  "hold_keys_of req \<equiv> leg_keys (req_trip_id req) (req_seat_no req) (req_leg_indexes req)"

text \<open>How a hold request ends: rejected before the engine, or by the engine.\<close>

lemma route_hold_cases:
  assumes "match_route (rq_path request) = Some Holds" and "rq_method request = ''POST''"
    and "routes X W A V collate P request (s, p) = (r, s', p')"
  obtains
    (rejected) st where "extract_json W (decode_hold_request X) request = Inl st" "r = Some (rejection W st)"
      "s' = s" "p' = p"
  | (invalid) req m where "extract_json W (decode_hold_request X) request = Inr req" "r = Some (into_response X (bad_request m))" "s' = s" "p' = p"
  | (engine) req ttl x where "extract_json W (decode_hold_request X) request = Inr req"
      "atomic_hold X V P req ttl (s, p) = (x, s', p')"
      "r = fst (finish X (answer (\<lambda>r. (hold_status r, hold_result_to_json X r)) (x, s', p')))"
proof -
  have run: "handle X W A V collate P Holds request (s, p) = (r, s', p')"
    using routes_at [of request Holds X W A V collate P "(s, p)"] assms by simp
  show ?thesis
  proof (cases "extract_json W (decode_hold_request X) request")
    case (Inl st)
    with run rejected show ?thesis by (simp add: handle_def)
  next
    case (Inr req)
    define ttl where "ttl = sint (case req_ttl_class req of Short \<Rightarrow> ttl_short_secs A | Long \<Rightarrow> ttl_long_secs A)"
    have fin: "finish X (post_hold X A V P req (s, p)) = (r, s', p')"
      using run Inr by (simp add: handle_def)
    show ?thesis
    proof (cases "req_leg_indexes req = [] \<or> trim (req_seat_no req) = []")
      case True
      then show ?thesis
        using fin invalid [OF Inr] by (auto simp: post_hold_def finish_def split: if_splits)
    next
      case False
      obtain x s1 p1 where x: "atomic_hold X V P req ttl (s, p) = (x, s1, p1)" by (metis surj_pair)
      then have f: "finish X (answer (\<lambda>r. (hold_status r, hold_result_to_json X r)) (x, s1, p1)) = (r, s', p')"
        using fin False by (simp add: post_hold_def ttl_def)
      then have "(s1, p1) = (s', p')" by (metis snd_answer snd_conv snd_finish)
      with f x engine [OF Inr, of ttl x] show ?thesis by simp
    qed
  qed
qed

text \<open>
  C18. The status of a hold request that passed the layers tells what happened to the
  inventory, under any pattern of database failures: 201 (with the new reference and expiry
  as body) that every requested leg was free and is now held by the new reference; 409 that
  nothing changed and some requested leg was held or booked; 422 that nothing changed and the
  body was not a hold request, or it named a leg without inventory or one leg twice; 400, 413
  and 415 and a panic that nothing changed; and 500, the only other status, that nothing
  changed or the whole hold was committed. Serialisation of the reply must not fail.
\<close>

theorem hold_status_tells:
  assumes "schema_ok (committed s)" and "web_ok W" and "\<forall>j. json_to_string X j \<noteq> None"
    and "match_route (rq_path request) = Some Holds" and "rq_method request = ''POST''"
    and "routes X W A V collate P request (s, p) = (r, s', p')"
  shows "case map_option rs_status r of
      None \<Rightarrow> committed s' = committed s
    | Some st \<Rightarrow>
        st \<in> {201, 400, 409, 413, 415, 422, 500} \<and>
        (st \<notin> {201, 500} \<longrightarrow> committed s' = committed s) \<and>
        (case extract_json W (decode_hold_request X) request of
           Inl rej \<Rightarrow> st = rej
         | Inr req \<Rightarrow>
             (st = 201 \<longrightarrow>
                (\<exists>t. Option.bind r rs_body = json_to_string X (hold_result_to_json X (hold_success (new_uuid V) t)) \<and>
                     hold_at (committed s') (uuid_to_string X (new_uuid V)) = Some (request_row X V req t)) \<and>
                (\<forall>k \<in> hold_keys_of req. seat_at (committed s) k = Some SFree \<and>
                   seat_at (committed s') k = Some (SHeld (uuid_to_string X (new_uuid V))))) \<and>
             (st = 409 \<longrightarrow> (\<exists>k \<in> hold_keys_of req. seat_at (committed s) k \<notin> {None, Some SFree})) \<and>
             (st = 422 \<longrightarrow> \<not> distinct (req_leg_indexes req) \<or>
                (\<exists>k \<in> hold_keys_of req. seat_at (committed s) k = None)) \<and>
             (st = 500 \<longrightarrow> committed s' = committed s \<or>
                (\<exists>t. hold_eff (request_row X V req t) (committed s) = (Inr (Inr ()), committed s'))))"
  using assms(4-6)
proof (cases rule: route_hold_cases)
  case (rejected st)
  with extract_json_Inl [OF assms(2) rejected(1)] show ?thesis by (auto simp: rejection_def)
next
  case (invalid req m)
  have "rs_status (into_response X (bad_request m)) = 400"
    using assms(3) by (auto simp: into_response_def json_response_def bad_request_def api_new_def split: option.split)
  with invalid show ?thesis by simp
next
  case (engine req ttl x)
  have body: "\<exists>b. json_to_string X j = Some b" for j using assms(3) by blast
  note reply = hold_eff_reply [OF assms(1)]
  from engine(2) show ?thesis
  proof (cases rule: atomic_hold_cases)
    case panic
    with engine(3) show ?thesis by (simp add: answer_def finish_def)
  next
    case (held t)
    obtain b where b: "json_to_string X (hold_result_to_json X (hold_success (new_uuid V) t)) = Some b" using body by blast
    with held engine(3) have "r = Some (\<lparr>rs_status = 201, rs_headers = [(''content-type'', ''application/json'')], rs_body = Some b\<rparr>)"
      by (simp add: answer_def finish_def json_response_def hold_success_def)
    moreover have "hold_at (committed s') (uuid_to_string X (new_uuid V)) = Some (request_row X V req t)"
      using reply(5) [OF held(3)] by simp
    ultimately show ?thesis using b [symmetric] engine(1) reply(1) [OF held(3)] by auto
  next
    case (refused t reason)
    obtain b where b: "json_to_string X (hold_result_to_json X (hold_failure reason [req_seat_no req])) = Some b" using body by blast
    with refused engine(3) have "r = Some (\<lparr>rs_status = hold_status (hold_failure reason [req_seat_no req]),
        rs_headers = [(''content-type'', ''application/json'')], rs_body = Some b\<rparr>)"
      by (simp add: answer_def finish_def json_response_def)
    with engine(1) refused(4) reply(2-4) show ?thesis
      by (cases reason) (force simp: hold_failure_def)+
  next
    case (failed t e)
    obtain b where b: "json_to_string X (hold_result_to_json X (hold_failure TransactionError [req_seat_no req])) = Some b" using body by blast
    with failed engine(3) have "r = Some (\<lparr>rs_status = 500,
        rs_headers = [(''content-type'', ''application/json'')], rs_body = Some b\<rparr>)"
      by (simp add: answer_def finish_def json_response_def hold_failure_def)
    with engine(1) failed(4) show ?thesis
      by (auto simp: hold_eff_def split: if_splits)
  qed
qed

definition sample_web :: web_ext where
  "sample_web =
     \<lparr>json_content_type = (\<lambda>c. c = ''application/json''),
      read_json = (\<lambda>b. if b = ''{}'' then Inr (JObj (hold_request_members sample_ext (sample_req ''1A'' [0]))) else Inl 400),
      percent_decode = Some, rejection_text = (\<lambda>_. ''rejected'')\<rparr>"

lemma sample_web_ok [simp]: "web_ok sample_web"
  by (simp add: web_ok_def sample_web_def)

definition sample_app :: app_state where
  "sample_app = \<lparr>auth = sample_auth, ttl_short_secs = 300, ttl_long_secs = 1800\<rparr>"

definition sample_post :: http_request where
  "sample_post =
     \<lparr>rq_method = ''POST'', rq_path = ''/api/v1/holds'', rq_query = [],
      rq_headers = [(''content-type'', ''application/json''), (''idempotency-key'', ''k'')],
      rq_body = Some ''{}'', rq_identity = Some ''t''\<rparr>"

lemma sample_post_route: "match_route (rq_path sample_post) = Some Holds" "rq_method sample_post = ''POST''"
  by code_simp+

text \<open>The sample run depends on the method, the path, the content type and the body only.\<close>

definition like_sample :: "http_request \<Rightarrow> bool" where
  "like_sample r \<longleftrightarrow>
     rq_method r = rq_method sample_post \<and> rq_path r = rq_path sample_post \<and> rq_body r = rq_body sample_post \<and>
     map_of (rq_headers r) ''content-type'' = Some ''application/json''"

lemma like_sample_self [simp]: "like_sample sample_post"
  by (simp add: like_sample_def sample_post_def)

lemma sample_body:
  assumes "like_sample r"
  shows "extract_json sample_web (decode_hold_request sample_ext) r = Inr (sample_req ''1A'' [0])"
proof -
  have "decode_hold_request sample_ext (JObj (hold_request_members sample_ext (sample_req ''1A'' [0]))) =
      Some (sample_req ''1A'' [0])" by code_simp
  moreover have "list_all visible ''application/json''" by code_simp
  ultimately show ?thesis
    using assms by (simp add: like_sample_def extract_json_def sample_post_def sample_web_def header_str_def)
qed

lemma sample_routes:
  assumes "like_sample r"
  shows "routes sample_ext sample_web sample_app V collate P r w =
     finish sample_ext (answer (\<lambda>r. (hold_status r, hold_result_to_json sample_ext r))
       (atomic_hold sample_ext V P (sample_req ''1A'' [0]) 300 w))"
proof -
  have "match_route (rq_path r) = Some Holds" "rq_method r = endpoint_method Holds"
    using assms sample_post_route by (simp_all add: like_sample_def)
  moreover have "trim ''1A'' = ''1A''" by (rule trim_id) (simp add: graphic_def)
  moreover have "sint (300 :: 64 word) = 300" by code_simp
  ultimately show ?thesis
    using assms by (simp add: routes_at handle_def sample_body post_hold_def sample_app_def) (simp add: sample_req_def)
qed

lemma sample_run:
  assumes "like_sample r" and "committed s = sample_db" and "no_faults s"
  obtains s' p' where
    "routes sample_ext sample_web sample_app (sample_env 7 t) collate P r (s, p) =
      (Some \<lparr>rs_status = 201, rs_headers = [(''content-type'', ''application/json'')], rs_body = Some ''{}''\<rparr>, s', p')"
proof -
  obtain x s1 p1 where x: "atomic_hold sample_ext (sample_env 7 t) P (sample_req ''1A'' [0]) 300 (s, p) = (x, s1, p1)"
    by (metis surj_pair)
  have free: "legs_present (request_row sample_ext (sample_env 7 t) (sample_req ''1A'' [0]) e) sample_db"
    "legs_free (request_row sample_ext (sample_env 7 t) (sample_req ''1A'' [0]) e) sample_db" for e
    by (simp_all add: legs_present_iff legs_free_iff leg_keys_def)
  obtain e where "x = Ok (hold_success 7 e)"
    using x by (cases rule: atomic_hold_cases) (use assms free in \<open>auto simp: hold_eff_def\<close>)
  moreover have "json_to_string sample_ext j = Some ''{}''" for j by (simp add: sample_ext_def)
  ultimately show ?thesis
    using that x unfolding sample_routes [OF assms(1)]
    by (simp add: answer_def finish_def json_response_def hold_success_def)
qed

theorem hold_status_tells_witness:
  "\<exists>s' p'. routes sample_ext sample_web sample_app (sample_env 7 1000) id recording_publish sample_post
        (fresh_session sample_db [], []) =
      (Some \<lparr>rs_status = 201, rs_headers = [(''content-type'', ''application/json'')], rs_body = Some ''{}''\<rparr>, s', p') \<and>
     seat_at (committed s') (1, ''1A'', 0) = Some (SHeld (replicate 7 CHR ''u''))"
proof -
  obtain s' p' where run: "routes sample_ext sample_web sample_app (sample_env 7 1000) id recording_publish sample_post
        (fresh_session sample_db [], []) =
      (Some \<lparr>rs_status = 201, rs_headers = [(''content-type'', ''application/json'')], rs_body = Some ''{}''\<rparr>, s', p')"
    by (rule sample_run [OF like_sample_self, of "fresh_session sample_db []"]) simp_all
  have "\<forall>j. json_to_string sample_ext j \<noteq> None" by (simp add: sample_ext_def)
  from hold_status_tells [OF _ sample_web_ok this sample_post_route run] run show ?thesis
    by (simp add: sample_body)
qed

section \<open>The server as a whole\<close>

lemma db_ok_put_cached: "db_ok d \<Longrightarrow> db_ok (snd (put_cached now e k v d))"
proof -
  assume "db_ok d"
  moreover obtain C where "snd (put_cached now e k v d) = d\<lparr>idem_cache := C\<rparr>"
    using put_cached_frame by blast
  ultimately show ?thesis
    using schema_ok_put_cached [of d now e k v] by (simp add: db_ok_def linked_def exclusive_def)
qed

lemma routes_reads:
  assumes "\<not> write_method (rq_method request)" and "routes X W A V collate P request (s, p) = (r, s', p')"
  shows "committed s' = committed s"
proof -
  have "committed s1 = committed s"
    if "endpoint_method e = ''GET''" "handle X W A V collate P e request (s, p) = (x, s1, p1)" for e x s1 p1
  proof (cases e)
    case (Inventory seg)
    show ?thesis
    proof (cases "Option.bind (percent_decode W seg) (uuid_parse X)")
      case (Some trip)
      obtain y s2 where y: "get_inventory_snapshot collate trip s = (y, s2)" by (metis surj_pair)
      have "snd (handle X W A V collate P e request (s, p)) = (s2, p)"
        by (simp add: Inventory handle_def Some get_snapshot_def y)
      with that frames_snapshot [OF y] show ?thesis by simp
    qed (use that Inventory in \<open>simp add: handle_def\<close>)
  qed (use that in \<open>auto simp: handle_def finish_def\<close>)
  moreover have "endpoint_method e = ''GET''" if "method_matches e (rq_method request)" for e
    using that assms(1) by (cases e) (auto simp: method_matches_def write_method_def)
  ultimately have get: "committed s1 = committed s"
    if "method_matches e (rq_method request)" "handle X W A V collate P e request (s, p) = (x, s1, p1)" for e x s1 p1
    using that by blast
  show ?thesis
  proof (cases "match_route (rq_path request)")
    case (Some e)
    obtain x s1 p1 where h: "handle X W A V collate P e request (s, p) = (x, s1, p1)" by (metis surj_pair)
    show ?thesis
    proof (cases "method_matches e (rq_method request)")
      case True
      have "s1 = s'" using assms(2) Some h True by (simp add: routes_def)
      with get [OF True h] show ?thesis by simp
    qed (use assms(2) Some in \<open>simp add: routes_def\<close>)
  qed (use assms(2) in \<open>simp add: routes_def\<close>)
qed

lemma router_cases:
  assumes "router X W K A collate P E request w = (r, w')"
  obtains
    (refused) "\<nexists>fw. forwarded K (auth A) (auth_now E) request fw" "w' = w"
      "r = None \<and> overflow_checks (auth A) \<or> (\<exists>resp. r = Some resp \<and> refusal resp)"
  | (forwarded) fw where "forwarded K (auth A) (auth_now E) request fw"
      "flatten (layer X K (lookup_env E) (store_env E) (routes X W A (handler_env E) collate P)) fw w = (r, w')"
proof (cases "\<exists>fw. forwarded K (auth A) (auth_now E) request fw")
  case True
  then obtain fw where fw: "forwarded K (auth A) (auth_now E) request fw" by blast
  with assms have "flatten (layer X K (lookup_env E) (store_env E) (routes X W A (handler_env E) collate P)) fw w = (r, w')"
    by (auto simp: router_def flatten_def [of "verify X K (auth A) (auth_now E) n" for n] verify_forwards [OF fw]
        option.map_comp comp_def option.map_ident split: prod.splits)
  with fw that(2) show ?thesis by blast
next
  case False
  let ?n = "flatten (layer X K (lookup_env E) (store_env E) (routes X W A (handler_env E) collate P))"
  from verify_refuses [OF False, of X ?n w] obtain x where
    x: "verify X K (auth A) (auth_now E) ?n request w = (x, w)"
    "case x of None \<Rightarrow> overflow_checks (auth A) | Some (Inl resp) \<Rightarrow> refusal resp | Some (Inr resp) \<Rightarrow> False"
    by blast
  with assms have "w' = w" "r = map_option (case_sum id id) x"
    by (auto simp: router_def flatten_def [of "verify X K (auth A) (auth_now E) n" for n])
  with x(2) that(1) [OF False] show ?thesis
    by (cases x) (auto split: sum.splits)
qed

text \<open>The engine call that a request to an endpoint can lead to.\<close>

fun called :: "ext \<Rightarrow> web_ext \<Rightarrow> endpoint \<Rightarrow> http_request \<Rightarrow> engine_call \<Rightarrow> bool" where
  "called X W Holds rq (HoldCall V req r) \<longleftrightarrow> extract_json W (decode_hold_request X) rq = Inr req"
| "called X W (HoldRef seg) rq (ReleaseCall h r) \<longleftrightarrow> percent_decode W seg = Some h"
| "called X W (HoldConfirm seg) rq (ConfirmCall V h b r) \<longleftrightarrow>
     percent_decode W seg = Some h \<and> extract_json W decode_confirm_body rq = Inr \<lparr>cb_booking_id = b\<rparr>"
| "called X W CancelSeats rq (CancelCall trip seat legs r) \<longleftrightarrow>
     extract_json W (decode_cancel_body X) rq = Inr \<lparr>cn_trip_id = trip, cn_seat_no = seat, cn_leg_indexes = legs\<rparr>"
| "called X W _ rq _ \<longleftrightarrow> False"

definition request_call ::
  "ext \<Rightarrow> web_ext \<Rightarrow> crypto \<Rightarrow> app_state \<Rightarrow> serve_env \<Rightarrow> http_request \<Rightarrow> engine_call \<Rightarrow> bool" where
  "request_call X W K A E rq c \<longleftrightarrow>
     (\<exists>fw e. forwarded K (auth A) (auth_now E) rq fw \<and> match_route (rq_path fw) = Some e \<and>
        rq_method fw = endpoint_method e \<and> called X W e fw c)"

lemma handle_calls:
  assumes "handle X W A V collate P e rq (s, p) = (r, s', p')"
  shows "committed s' = committed s \<or> (\<exists>c. engine_step X P (committed s) c (committed s') \<and> called X W e rq c)"
proof (cases e)
  case Holds
  show ?thesis
  proof (cases "extract_json W (decode_hold_request X) rq")
    case (Inr req)
    obtain x s1 p1 where x: "atomic_hold X V P req (sint (case req_ttl_class req of Short \<Rightarrow> ttl_short_secs A | Long \<Rightarrow> ttl_long_secs A)) (s, p) = (x, s1, p1)"
      by (metis surj_pair)
    have "s' = s \<or> s' = s1"
      using arg_cong [OF assms, of snd] x by (auto simp: Holds Inr handle_def post_hold_def Let_def split: if_splits)
    with engine_step.hold [OF x] Inr show ?thesis unfolding Holds by (metis called.simps(1))
  qed (use assms Holds in \<open>simp add: handle_def\<close>)
next
  case (HoldRef seg)
  show ?thesis
  proof (cases "percent_decode W seg")
    case (Some h)
    obtain x s1 p1 where x: "release_hold_by_ref X V P h (s, p) = (x, s1, p1)" by (metis surj_pair)
    have "s' = s1"
      using arg_cong [OF assms, of snd] x by (simp add: HoldRef Some handle_def delete_hold_route_def)
    with engine_step.release [OF x] Some show ?thesis unfolding HoldRef by (metis called.simps(2))
  qed (use assms HoldRef in \<open>simp add: handle_def\<close>)
next
  case (HoldConfirm seg)
  show ?thesis
  proof (cases "percent_decode W seg")
    case (Some h)
    show ?thesis
    proof (cases "extract_json W decode_confirm_body rq")
      case (Inr b)
      obtain x s1 p1 where x: "confirm_booking X V P h (cb_booking_id b) (s, p) = (x, s1, p1)" by (metis surj_pair)
      have "s' = s1"
        using arg_cong [OF assms, of snd] x by (simp add: HoldConfirm Some Inr handle_def post_confirm_def)
      with engine_step.confirm [OF x] Some Inr show ?thesis
        unfolding HoldConfirm by (metis called.simps(3) confirm_body.surjective old.unit.exhaust)
    qed (use assms HoldConfirm Some in \<open>simp add: handle_def\<close>)
  qed (use assms HoldConfirm in \<open>simp add: handle_def\<close>)
next
  case CancelSeats
  show ?thesis
  proof (cases "extract_json W (decode_cancel_body X) rq")
    case (Inr b)
    obtain x s1 p1 where x: "cancel_booking_seats X V P (cn_trip_id b) (cn_seat_no b) (cn_leg_indexes b) (s, p) = (x, s1, p1)"
      by (metis surj_pair)
    have "s' = s1"
      using arg_cong [OF assms, of snd] x by (simp add: CancelSeats Inr handle_def post_cancel_seats_def)
    moreover have "called X W CancelSeats rq (CancelCall (cn_trip_id b) (cn_seat_no b) (cn_leg_indexes b) x)"
      by (simp add: Inr)
    ultimately show ?thesis using engine_step.cancel [OF x] unfolding CancelSeats by blast
  qed (use assms CancelSeats in \<open>simp add: handle_def\<close>)
next
  case (Inventory seg)
  show ?thesis
  proof (cases "Option.bind (percent_decode W seg) (uuid_parse X)")
    case (Some trip)
    obtain y s2 where y: "get_inventory_snapshot collate trip s = (y, s2)" by (metis surj_pair)
    have "s' = s2" using arg_cong [OF assms, of snd] by (simp add: Inventory handle_def Some get_snapshot_def y)
    with frames_snapshot [OF y] show ?thesis by simp
  qed (use assms Inventory in \<open>simp add: handle_def\<close>)
qed (use assms in \<open>simp add: handle_def finish_def\<close>)

lemma routes_calls:
  assumes "routes X W A V collate P rq (s, p) = (r, s', p')"
  shows "committed s' = committed s \<or>
    (\<exists>c e. engine_step X P (committed s) c (committed s') \<and> match_route (rq_path rq) = Some e \<and>
       rq_method rq = endpoint_method e \<and> called X W e rq c)"
proof (cases "match_route (rq_path rq)")
  case (Some e)
  show ?thesis
  proof (cases "method_matches e (rq_method rq)")
    case True
    obtain x s1 p1 where h: "handle X W A V collate P e rq (s, p) = (x, s1, p1)" by (metis surj_pair)
    have s1: "s1 = s'" using assms Some h True by (simp add: routes_def)
    have "rq_method rq = endpoint_method e" if "called X W e rq c" for c
      using that True by (cases e; cases c) (auto simp: method_matches_def)
    with handle_calls [OF h] Some s1 show ?thesis by blast
  qed (use assms Some in \<open>simp add: routes_def\<close>)
qed (use assms in \<open>simp add: routes_def\<close>)

text \<open>A request makes at most the call it names and then at most one write of the cache.\<close>

lemma router_one_call:
  assumes "router X W K A collate P E request (s, p) = (r, s', p')"
  shows "\<exists>d. (d = committed s \<or> (\<exists>c. request_call X W K A E request c \<and> engine_step X P (committed s) c d)) \<and>
    (committed s' = d \<or> (\<exists>now e key v. committed s' = snd (put_cached now e key v d)))"
  using assms
proof (cases rule: router_cases)
  case (forwarded fw)
  then obtain x where run: "layer X K (lookup_env E) (store_env E) (routes X W A (handler_env E) collate P) fw (s, p) = (x, s', p')"
    by (auto simp: flatten_def split: prod.splits)
  from layer_effect [OF run] show ?thesis
  proof
    assume "\<exists>sa resp sb. committed sa = committed s \<and>
        routes X W A (handler_env E) collate P fw (sa, p) = (resp, sb, p') \<and>
       (committed s' = committed sb \<or>
        (\<exists>now e key v. committed s' = snd (put_cached now e key v (committed sb))))"
    then obtain sa resp sb where step: "committed sa = committed s"
      "routes X W A (handler_env E) collate P fw (sa, p) = (resp, sb, p')"
      "committed s' = committed sb \<or> (\<exists>now e key v. committed s' = snd (put_cached now e key v (committed sb)))" by blast
    from routes_calls [OF step(2)]
    have "committed sb = committed s \<or> (\<exists>c. request_call X W K A E request c \<and> engine_step X P (committed s) c (committed sb))"
      using forwarded(1) step(1) unfolding request_call_def by metis
    with step(3) show ?thesis by blast
  qed auto
qed auto

lemma router_db_ok:
  assumes "router X W K A collate P E request (s, p) = (r, s', p')" and "db_ok (committed s)"
  shows "db_ok (committed s')"
  using router_one_call [OF assms(1)] assms(2) engine_step_moves db_ok_put_cached by metis

text \<open>
  C11. The server refines the engine: under any failures, one request makes at most one call
  of the engine, and besides that changes nothing but the response cache. The call is the one
  that path, method and body name: \<open>POST /holds\<close> the hold of its body, \<open>DELETE /holds/h\<close> the
  release of \<open>h\<close>, \<open>POST /holds/h/confirm\<close> the confirmation of \<open>h\<close> with the booking of its
  body, \<open>POST /cancel-seats\<close> the cancellation of its body, and no other request makes one that
  changes a table. So every request keeps the database consistent. A request that is not
  authentic changes nothing at all, and neither does a \<open>GET\<close> or \<open>HEAD\<close> (or any other method
  that does not write).
\<close>

theorem router_refines_engine:
  assumes "db_ok (committed s)" and "router X W K A collate P E request (s, p) = (r, s', p')"
  shows "db_ok (committed s') \<and>
    (\<exists>d. (d = committed s \<or> (\<exists>c. request_call X W K A E request c \<and> engine_step X P (committed s) c d)) \<and>
       committed s' = d\<lparr>idem_cache := idem_cache (committed s')\<rparr>) \<and>
    ((\<nexists>fw. forwarded K (auth A) (auth_now E) request fw) \<or> \<not> write_method (rq_method request) \<longrightarrow>
       committed s' = committed s)"
proof (intro conjI)
  show "db_ok (committed s')" by (rule router_db_ok [OF assms(2,1)])
  have "d = d\<lparr>idem_cache := idem_cache d\<rparr>" for d by simp
  then show "\<exists>d. (d = committed s \<or> (\<exists>c. request_call X W K A E request c \<and> engine_step X P (committed s) c d)) \<and>
       committed s' = d\<lparr>idem_cache := idem_cache (committed s')\<rparr>"
    using router_one_call [OF assms(2)] put_cached_frame by metis
  from assms(2) show "(\<nexists>fw. forwarded K (auth A) (auth_now E) request fw) \<or> \<not> write_method (rq_method request) \<longrightarrow>
       committed s' = committed s"
  proof (cases rule: router_cases)
    case (forwarded fw)
    then obtain x where run: "layer X K (lookup_env E) (store_env E) (routes X W A (handler_env E) collate P) fw (s, p) = (x, s', p')"
      by (auto simp: flatten_def split: prod.splits)
    have fwm: "rq_method fw = rq_method request"
      using forwarded(1) by (auto simp: forwarded_def split: if_splits)
    have "committed s' = committed s" if "\<not> write_method (rq_method request)"
    proof -
      obtain resp w1 where "routes X W A (handler_env E) collate P fw (s, p) = (resp, w1)" by (metis surj_pair)
      with run that fwm have "routes X W A (handler_env E) collate P fw (s, p) = (resp, s', p')"
        by (simp add: layer_def layer_lookup_def)
      with routes_reads that fwm show ?thesis by metis
    qed
    with forwarded(1) show ?thesis by blast
  qed simp
qed

text \<open>
  C10. A retry is safe: when a write request with an idempotency key was answered with a
  success, a conflict or 422, then any later authentic request with the same scoped key and
  body, until 24 hours after the first reply was stored, is answered with the same status and
  body and the mark \<open>x-idempotent-replayed: true\<close>, and changes nothing. Whatever happens
  with the clocks, signatures and other headers in between, both requests together made the
  inventory and the holds what one run of the handler makes them. The database must not
  fail and the key must be new at the first request.
\<close>

theorem retried_request:
  assumes "schema_ok (committed s)" and "no_faults s"
    and "forwarded K (auth A) (auth_now E1) req1 fw1" and "forwarded K (auth A) (auth_now E2) req2 fw2"
    and "request_key K fw1 = Some key" and "request_hash K fw1 = Some h"
    and "request_key K fw2 = Some key" and "request_hash K fw2 = Some h"
    and "select_cached (db_now (lookup_env E1)) key (committed s) = None"
    and "db_now (lookup_env E1) \<le> db_now (store_env E1)"
    and "add_seconds X (clock (store_env E1) 0) IDEMPOTENCY_TTL = Some e" and "db_now (lookup_env E2) < e"
    and "router X W K A collate P E1 req1 (s, p) = (Some resp, s1, p1)"
    and "is_success_status (rs_status resp) \<or> rs_status resp = 409 \<or> rs_status resp = 422"
  shows "\<exists>s2. router X W K A collate P E2 req2 (s1, p1) =
      (Some \<lparr>rs_status = rs_status resp,
        rs_headers = [(''x-idempotent-replayed'', ''true''), (''content-type'', ''application/json'')],
        rs_body = rs_body resp\<rparr>, s2, p1) \<and>
    committed s2 = committed s1 \<and>
    (\<exists>sa reply sb. committed sa = committed s \<and>
       routes X W A (handler_env E1) collate P fw1 (sa, p) = (Some reply, sb, p1) \<and>
       seat_inventory (committed s2) = seat_inventory (committed sb) \<and>
       seat_holds (committed s2) = seat_holds (committed sb))"
proof -
  have cached: "cacheable (rs_status resp)" using assms(14) by (simp add: cacheable_def)
  let ?layer = "\<lambda>E. layer X K (lookup_env E) (store_env E) (routes X W A (handler_env E) collate P)"
  have router: "router X W K A collate P E req w = (case ?layer E fw w of (r, w1) \<Rightarrow> (map_option (case_sum id id) r, w1))"
    if "forwarded K (auth A) (auth_now E) req fw" for E req fw w
    by (simp add: router_def flatten_def verify_forwards [OF that] option.map_comp comp_def option.map_ident
        split: prod.split)
  obtain x where x: "?layer E1 fw1 (s, p) = (Some x, s1, p1)" "resp = case_sum id id x"
    using assms(13) unfolding router [OF assms(3)] by (auto split: prod.splits)
  have "x = Inr resp"
  proof (cases x)
    case (Inl a)
    from layer_miss_reply [OF assms(5,6,2,9) x(1) [unfolded this]] x(2) Inl cached show ?thesis by simp
  qed (use x in simp)
  note run = x(1) [unfolded this]
  from layer_replay [OF assms(1,2) keeps_cache_routes assms(5,6,9,10,11) run cached
      cacheable_range [OF cached] assms(7,8,12),
      of "store_env E2" "routes X W A (handler_env E2) collate P"]
  obtain s2 sa reply sb d where
    replay: "?layer E2 fw2 (s1, p1) = (Some (Inr \<lparr>rs_status = rs_status resp,
        rs_headers = [(''x-idempotent-replayed'', ''true''), (''content-type'', ''application/json'')],
        rs_body = rs_body resp\<rparr>), s2, p1)" "committed s2 = committed s1"
    and once: "committed sa = committed s" "routes X W A (handler_env E1) collate P fw1 (sa, p) = (Some reply, sb, p1)"
      "committed s1 = (committed sb)\<lparr>idem_cache := d\<rparr>"
    using put_cached_frame by metis
  show ?thesis
    by (rule exI [of _ s2]) (use replay once in \<open>auto simp: router [OF assms(4)]\<close>)
qed

text \<open>The sample request, signed.\<close>

definition signed_post :: "string \<Rightarrow> http_request" where
  "signed_post ts =
     sample_post\<lparr>rq_headers := [(''content-type'', ''application/json''), (''idempotency-key'', ''k''),
         (''x-service-id'', ''terminal''), (''x-timestamp'', ts),
         (''x-signature'', toy_hex (replicate 32 (char_of
            (16 + 3 * length (signing_string (the (parse_i64 ts)) ''POST'' ''/api/v1/holds'' (toy_hex (replicate 32 (char_of (2::nat)))))))))],
       rq_identity := None\<rparr>"

definition env_at :: "64 word \<Rightarrow> time \<Rightarrow> serve_env" where
  "env_at now t = \<lparr>auth_now = now, lookup_env = sample_env 7 t, handler_env = sample_env 7 t, store_env = sample_env 7 t\<rparr>"

lemma signed_post_forwarded:
  assumes "parse_i64 ts = Some n" and "list_all visible ts" and "skew_exceeded False 30 now n = Some False"
  shows "forwarded sample_crypto (auth sample_app) now (signed_post ts) ((signed_post ts)\<lparr>rq_identity := Some ''terminal''\<rparr>)"
proof -
  have up: "to_uppercase ''POST'' = ''POST''" by code_simp
  have vis: "list_all visible ''terminal''" by code_simp
  have "sample_post\<lparr>rq_headers := h, rq_body := Some ''{}'', rq_identity := i\<rparr> = sample_post\<lparr>rq_headers := h, rq_identity := i\<rparr>" for h i
    by (simp add: sample_post_def)
  then show ?thesis
    using assms up vis
    by (simp add: forwarded_def authentic_def signed_post_def sample_app_def sample_auth_def sample_crypto_def
        header_str_def MAX_BODY_BYTES_def) (simp add: sample_post_def MAX_BODY_BYTES_def numeral_2_eq_2)
qed

lemma signed_post_key:
  "request_key sample_crypto ((signed_post ts)\<lparr>rq_identity := Some ''terminal''\<rparr>) =
     Some (scoped_idempotency_key sample_crypto ''terminal'' ''POST'' ''/api/v1/holds'' ''k'')"
  "request_hash sample_crypto ((signed_post ts)\<lparr>rq_identity := Some ''terminal''\<rparr>) =
     Some (hex_encode sample_crypto (sha256 sample_crypto ''{}''))"
  "like_sample ((signed_post ts)\<lparr>rq_identity := Some ''terminal''\<rparr>)"
proof -
  have "list_all visible ''k''" by code_simp
  moreover have "trim ''k'' = ''k''" by (rule trim_id) (simp add: graphic_def)
  ultimately show "request_key sample_crypto ((signed_post ts)\<lparr>rq_identity := Some ''terminal''\<rparr>) =
     Some (scoped_idempotency_key sample_crypto ''terminal'' ''POST'' ''/api/v1/holds'' ''k'')"
    by (simp add: request_key_def signed_post_def sample_post_def write_method_def get_idempotency_key_def header_str_def)
qed (simp_all add: request_hash_def signed_post_def sample_post_def like_sample_def to_bytes_def MAX_BODY_BYTES_def)

lemma signed_run:
  assumes "forwarded sample_crypto (auth sample_app) now (signed_post ts) ((signed_post ts)\<lparr>rq_identity := Some ''terminal''\<rparr>)"
  obtains resp s' p' where "router sample_ext sample_web sample_crypto sample_app collate P (env_at now t)
      (signed_post ts) (fresh_session sample_db [], p) = (Some resp, s', p')"
    and "rs_status resp = 201" and "rs_body resp = Some ''{}''"
proof -
  let ?fw = "(signed_post ts)\<lparr>rq_identity := Some ''terminal''\<rparr>"
  let ?routes = "routes sample_ext sample_web sample_app (sample_env 7 t) collate P"
  have none: "select_cached x k sample_db = None" for x k by (simp add: select_cached_def sample_db_def)
  obtain sa where sa: "committed sa = committed (fresh_session sample_db [])" "no_faults sa"
    and miss: "layer sample_ext sample_crypto (sample_env 7 t) (sample_env 7 t) ?routes ?fw (fresh_session sample_db [], p) =
      (case ?routes ?fw (sa, p) of
         (None, w2) \<Rightarrow> (None, w2)
       | (Some resp, s2, p2) \<Rightarrow>
           (case layer_store sample_ext (sample_env 7 t) (scoped_idempotency_key sample_crypto ''terminal'' ''POST'' ''/api/v1/holds'' ''k'')
              (hex_encode sample_crypto (sha256 sample_crypto ''{}'')) resp s2 of (a, s3) \<Rightarrow> (a, s3, p2)))"
    by (rule layer_miss [OF signed_post_key(1,2), of "fresh_session sample_db []" "sample_env 7 t"]) (simp_all add: none)
  obtain s2 p2 where run: "?routes ?fw (sa, p) =
      (Some \<lparr>rs_status = 201, rs_headers = [(''content-type'', ''application/json'')], rs_body = Some ''{}''\<rparr>, s2, p2)"
    by (rule sample_run [OF signed_post_key(3), of sa]) (use sa in simp_all)
  let ?r = "\<lparr>rs_status = 201, rs_headers = [(''content-type'', ''application/json'')], rs_body = Some ''{}''\<rparr> :: http_response"
  obtain s3 where store: "layer_store sample_ext (sample_env 7 t) (scoped_idempotency_key sample_crypto ''terminal'' ''POST'' ''/api/v1/holds'' ''k'')
      (hex_encode sample_crypto (sha256 sample_crypto ''{}'')) ?r s2 =
    (Some (Inr (?r\<lparr>rs_headers := header_insert ''x-idempotent-replayed'' ''false'' (rs_headers ?r), rs_body := Some ''{}''\<rparr>)), s3)"
    by (rule layer_store_done [of ?r "''{}''" sample_ext "sample_env 7 t"]) (auto simp: to_bytes_def MAX_BODY_BYTES_def)
  show ?thesis
    by (rule that [of "?r\<lparr>rs_headers := header_insert ''x-idempotent-replayed'' ''false'' (rs_headers ?r), rs_body := Some ''{}''\<rparr>" s3 p2])
      (use assms in \<open>simp_all add: router_def flatten_def env_at_def verify_forwards miss run store\<close>)
qed

theorem retried_request_witness:
  "\<exists>resp s1 p1 s2. router sample_ext sample_web sample_crypto sample_app id recording_publish (env_at 1000 0)
        (signed_post ''1000'') (fresh_session sample_db [], []) = (Some resp, s1, p1) \<and> rs_status resp = 201 \<and>
     router sample_ext sample_web sample_crypto sample_app id recording_publish (env_at 1010 86399999999)
        (signed_post ''1005'') (s1, p1) =
       (Some \<lparr>rs_status = 201,
          rs_headers = [(''x-idempotent-replayed'', ''true''), (''content-type'', ''application/json'')],
          rs_body = Some ''{}''\<rparr>, s2, p1) \<and>
     committed s2 = committed s1"
proof -
  have "skew_exceeded False 30 1000 1000 = Some False" "skew_exceeded False 30 1010 1005 = Some False"
    "parse_i64 ''1000'' = Some 1000" "parse_i64 ''1005'' = Some 1005" "list_all visible ''1000''" "list_all visible ''1005''"
    by code_simp+
  then have fw: "forwarded sample_crypto (auth sample_app) 1000 (signed_post ''1000'') ((signed_post ''1000'')\<lparr>rq_identity := Some ''terminal''\<rparr>)"
    "forwarded sample_crypto (auth sample_app) 1010 (signed_post ''1005'') ((signed_post ''1005'')\<lparr>rq_identity := Some ''terminal''\<rparr>)"
    by (simp_all add: signed_post_forwarded)
  obtain resp s1 p1 where run: "router sample_ext sample_web sample_crypto sample_app id recording_publish (env_at 1000 0)
        (signed_post ''1000'') (fresh_session sample_db [], []) = (Some resp, s1, p1)"
    and resp: "rs_status resp = 201" "rs_body resp = Some ''{}''"
    by (rule signed_run [OF fw(1)])
  have "is_success_status (201 :: 16 word)" by code_simp
  then have "is_success_status (rs_status resp) \<or> rs_status resp = 409 \<or> rs_status resp = 422" by (simp add: resp)
  moreover have "select_cached x k sample_db = None" for x k by (simp add: select_cached_def sample_db_def)
  ultimately have "\<exists>s2. router sample_ext sample_web sample_crypto sample_app id recording_publish (env_at 1010 86399999999)
        (signed_post ''1005'') (s1, p1) =
      (Some \<lparr>rs_status = rs_status resp,
        rs_headers = [(''x-idempotent-replayed'', ''true''), (''content-type'', ''application/json'')],
        rs_body = rs_body resp\<rparr>, s2, p1) \<and>
    committed s2 = committed s1"
    using retried_request [OF _ _ _ _ signed_post_key(1,2) signed_post_key(1,2) _ _ _ _ run,
        where ?E2.0 = "env_at 1010 86399999999" and ?req2.0 = "signed_post ''1005''" and e = 86400000000] fw
    by (simp add: env_at_def IDEMPOTENCY_TTL_def) blast
  with run resp show ?thesis by auto
qed

theorem router_refines_engine_witness:
  "\<exists>r s' p' d. router sample_ext sample_web sample_crypto sample_app id recording_publish (env_at 1000 0)
        (signed_post ''1000'') (fresh_session sample_db [], []) = (r, s', p') \<and> db_ok (committed s') \<and>
     (d = sample_db \<or> (\<exists>c. request_call sample_ext sample_web sample_crypto sample_app (env_at 1000 0) (signed_post ''1000'') c \<and>
        engine_step sample_ext recording_publish sample_db c d)) \<and>
     committed s' = d\<lparr>idem_cache := idem_cache (committed s')\<rparr>"
proof -
  obtain r s' p' where run: "router sample_ext sample_web sample_crypto sample_app id recording_publish (env_at 1000 0)
        (signed_post ''1000'') (fresh_session sample_db [], []) = (r, s', p')"
    by (metis surj_pair)
  with router_refines_engine [OF _ run] show ?thesis by auto
qed

end
