(* ===== verification/Reaper_Task.thy ===== *)
theory Reaper_Task
  imports Engine Idempotency
begin

text \<open>
  \<open>engine-server/src/reaper_task.rs\<close>: the two background loops, one that expires holds and one
  that deletes expired cache rows. A loop is a function of its ticks. That the ticks
  of the reaper drain every backlog, that its own panic ends it, and that the sweep
  cannot be seen by a reader of the cache.
\<close>

section \<open>The loops\<close>

text \<open>\<open>Duration::from_secs(interval_secs.max(1))\<close>: \<open>tokio::time::interval\<close> panics on zero.\<close>

definition tick_period :: "64 word \<Rightarrow> nat" where
  "tick_period interval_secs = max (unat interval_secs) 1"

text \<open>What a tick is given: the row order, the clocks and the connection of the lock.\<close>

record tick_env =
  tk_visit :: "hold_row list \<Rightarrow> hold_row list"
  tk_env :: call_env
  tk_conn :: nat

text \<open>The flag is whether the task is still running: a panic ends it.\<close>

fun reaper_run ::
  "ext \<Rightarrow> 'p publish \<Rightarrow> int \<Rightarrow> tick_env list \<Rightarrow> advisory \<times> session \<times> 'p \<Rightarrow> bool \<times> advisory \<times> session \<times> 'p" where
  "reaper_run X P days [] w = (True, w)"
| "reaper_run X P days (t # ts) w =
     (case expire_holds X (tk_visit t) (tk_env t) (tk_conn t) P days w of
        (Panicked, w1) \<Rightarrow> (False, w1)
      | (Ok r, w1) \<Rightarrow> reaper_run X P days ts w1
      | (Err e, w1) \<Rightarrow> reaper_run X P days ts w1)"

fun sweep_run :: "call_env list \<Rightarrow> session \<Rightarrow> session" where
  "sweep_run [] s = s"
| "sweep_run (V # Vs) s = (case sweep_expired V s of (r, s1) \<Rightarrow> sweep_run Vs s1)"

section \<open>Draining\<close>

lemma calm_reap: "calm pool_acquire" "calm (reap_txn visit V)"
proof -
  show "calm (reap_txn visit V)" unfolding reap_txn_def Let_def by (intro calm_intros)
qed (auto simp: calm_def pool_acquire_def split: prod.splits fault.splits dest: calm_next)

lemma lock_calm:
  "try_advisory_lock c l s = (r, l', s') \<Longrightarrow> no_faults s \<Longrightarrow> no_faults s'"
  "advisory_unlock c l s = (l', s') \<Longrightarrow> no_faults s \<Longrightarrow> no_faults s'"
  by (auto simp: try_advisory_lock_def advisory_unlock_def split: prod.splits fault.splits dest: calm_next)

lemma run_reaper_calm: "run_reaper X visit V days s = (r, s') \<Longrightarrow> no_faults s \<Longrightarrow> no_faults s'"
  by (auto simp: run_reaper_def split: if_splits option.splits prod.splits sum.splits
      dest: calmD [OF calm_reap(2)] calmD [OF calm_call(4)])

lemma expire_holds_calm:
  assumes "expire_holds X visit V c P days (l, s, p) = (r, l', s', p')" and "no_faults s"
  shows "no_faults s'"
proof -
  obtain x1 s1 where 1: "pool_acquire s = (x1, s1)" by (metis surj_pair)
  obtain x2 l2 s2 where 2: "try_advisory_lock c l s1 = (x2, l2, s2)" by (metis surj_pair)
  obtain x3 s3 where 3: "run_reaper X visit V days s2 = (x3, s3)" by (metis surj_pair)
  obtain l4 s4 where 4: "advisory_unlock c l2 s3 = (l4, s4)" by (metis surj_pair)
  have "no_faults s1" "no_faults s2" "no_faults s3" "no_faults s4"
    using assms(2) calmD [OF calm_reap(1) _ 1] lock_calm(1) [OF 2] run_reaper_calm [OF 3] lock_calm(2) [OF 4]
    by blast+
  with assms(1) 1 2 3 4 show ?thesis
    by (auto simp: expire_holds_def split: if_splits option.splits sum.splits)
qed

lemma reapable_mono: "t \<le> t' \<Longrightarrow> set (reapable t d) \<subseteq> set (reapable t' d)"
  by (auto simp: reapable_def expired_def)

text \<open>One tick, seen from a later time: it removes what it selected and nothing else of what can be reaped.\<close>

lemma tick_drains:
  assumes "db_ok (committed s)" and "no_faults s" and "\<forall>qs. mset (visit qs) = mset qs"
    and "lockable c l" and "days \<le> 0 \<or> sub_days X (clock V 0) days \<noteq> None"
  obtains n s' p' where "expire_holds X visit V c P days (l, s, p) = (Ok \<lparr>released_count = n\<rparr>, l, s', p')"
    and "n = min 500 (length (reapable (db_now V) (committed s)))"
    and "db_ok (committed s')" and "no_faults s'"
    and "\<And>t. set (reapable t (committed s')) \<subseteq> set (reapable t (committed s))"
    and "\<And>t. db_now V \<le> t \<Longrightarrow> length (reapable t (committed s')) = length (reapable t (committed s)) - n"
proof -
  have v: "visits visit" using assms(3) by (simp add: visits_def)
  obtain r l' s' p' where run: "expire_holds X visit V c P days (l, s, p) = (r, l', s', p')"
    by (metis surj_pair)
  from run show ?thesis
  proof (cases rule: expire_holds_cases)
    case (ran rows)
    let ?qs = "select_expired visit (db_now V) (committed s)"
    note rows = ran_rows [OF ran(6)]
    have ok: "schema_ok (committed s)" using assms(1) by auto
    have len: "length (visit (reapable (db_now V) (committed s))) = length (reapable (db_now V) (committed s))"
      using assms(3) by (metis size_mset)
    have n: "length ?qs = min 500 (length (reapable (db_now V) (committed s)))"
      using len by (simp add: select_expired_def BATCH_LIMIT_def min.commute flip: reapable_def)
    have left: "reapable t (committed s') = filter (\<lambda>q. hr_ref q \<notin> hr_ref ` set ?qs) (reapable t (committed s))" for t
      by (simp add: rows(2) reapable_free_holds)
    have "length (reapable t (committed s')) = length (reapable t (committed s)) - length ?qs" if "db_now V \<le> t" for t
      unfolding left
    proof (rule length_filter_removed)
      show "distinct (map hr_ref (reapable t (committed s)))"
        using ok by (auto simp: reapable_def schema_ok_def distinct_map_filter)
      show "distinct (map hr_ref ?qs)" using v ok by (rule select_expired_distinct)
      have "q \<in> set (reapable t (committed s))" if "q \<in> set ?qs" for q
        using select_expired_sound [OF v that] \<open>db_now V \<le> t\<close>
        by (auto simp: reapable_def expired_def)
      then show "hr_ref ` set ?qs \<subseteq> hr_ref ` set (reapable t (committed s))" by blast
    qed
    moreover have "db_ok (committed s')"
      using reaped_step(1) [OF assms(1) v, of "purged X V days (committed s)" X V days "committed s'" "db_now V"] ran(6)
      by (metis insertCI snd_conv)
    moreover have "no_faults s'" using expire_holds_calm [OF run assms(2)] .
    ultimately show ?thesis
      using that [of "length ?qs" s' p'] run ran assms(2) n left rows(1) by (auto simp: described_def)
  qed (use assms in auto)
qed

text \<open>
  C16. The reaper task terminates its work: let the database not fail, no other instance hold
  the lock, no row be locked by a caller and the retention not overflow. Then the task never
  ends, and after any number of ticks at times between \<open>t0\<close> and \<open>t1\<close> that is at least a
  500th of the number of active holds that expire by \<open>t1\<close>, no hold that had expired at \<open>t0\<close> is
  left, in whatever order the rows are visited.
\<close>

theorem reaper_task_drains:
  assumes "db_ok (committed s)" and "no_faults s"
    and "t0 \<le> t1" and "\<forall>t \<in> set ts. t0 \<le> db_now (tk_env t) \<and> db_now (tk_env t) \<le> t1"
    and "\<forall>t \<in> set ts. \<forall>qs. mset (tk_visit t qs) = mset qs"
    and "\<forall>t \<in> set ts. days \<le> 0 \<or> sub_days X (clock (tk_env t) 0) days \<noteq> None"
    and "length (reapable t1 (committed s)) \<le> 500 * length ts"
  shows "\<exists>s' p'. reaper_run X P days ts (None, s, p) = (True, None, s', p') \<and> db_ok (committed s') \<and>
    reapable t0 (committed s') = []"
proof -
  have "\<exists>s' p'. reaper_run X P days ts (None, s, p) = (True, None, s', p') \<and> db_ok (committed s') \<and>
      set (reapable t0 (committed s')) \<subseteq> set (reapable t0 (committed s)) \<and>
      (length (reapable t1 (committed s)) \<le> 500 * length ts \<longrightarrow> reapable t0 (committed s') = [])"
    using assms(1,2,4-6)
  proof (induction ts arbitrary: s p)
    case Nil
    then show ?case using reapable_mono [OF assms(3), of "committed s"] by auto
  next
    case (Cons t ts)
    have lock: "lockable (tk_conn t) None" by (simp add: lockable_def)
    have visit: "\<forall>qs. mset (tk_visit t qs) = mset qs"
      and days: "days \<le> 0 \<or> sub_days X (clock (tk_env t) 0) days \<noteq> None"
      and time: "t0 \<le> db_now (tk_env t)" "db_now (tk_env t) \<le> t1"
      using Cons.prems(3-5) by auto
    obtain n s1 p1 where pass: "expire_holds X (tk_visit t) (tk_env t) (tk_conn t) P days (None, s, p) =
        (Ok \<lparr>released_count = n\<rparr>, None, s1, p1)"
      and n: "n = min 500 (length (reapable (db_now (tk_env t)) (committed s)))"
      and ok: "db_ok (committed s1)" "no_faults s1"
      and sub: "\<And>t. set (reapable t (committed s1)) \<subseteq> set (reapable t (committed s))"
      and len: "\<And>u. db_now (tk_env t) \<le> u \<Longrightarrow> length (reapable u (committed s1)) = length (reapable u (committed s)) - n"
      by (rule tick_drains [OF Cons.prems(1,2) visit lock days, of P p]) (rule that)
    have "\<exists>s' p'. reaper_run X P days ts (None, s1, p1) = (True, None, s', p') \<and> db_ok (committed s') \<and>
      set (reapable t0 (committed s')) \<subseteq> set (reapable t0 (committed s1)) \<and>
      (length (reapable t1 (committed s1)) \<le> 500 * length ts \<longrightarrow> reapable t0 (committed s') = [])"
      using Cons.prems(3-5) by (intro Cons.IH [OF ok]) auto
    then obtain s' p' where rest: "reaper_run X P days ts (None, s1, p1) = (True, None, s', p')"
      "db_ok (committed s')" "set (reapable t0 (committed s')) \<subseteq> set (reapable t0 (committed s1))"
      "length (reapable t1 (committed s1)) \<le> 500 * length ts \<longrightarrow> reapable t0 (committed s') = []"
      by blast
    have "reapable t0 (committed s') = []" if "length (reapable t1 (committed s)) \<le> 500 * length (t # ts)"
    proof (cases "n = 500")
      case True
      with len [OF time(2)] that have "length (reapable t1 (committed s1)) \<le> 500 * length ts" by simp
      with rest(4) show ?thesis by blast
    next
      case False
      with n have "n = length (reapable (db_now (tk_env t)) (committed s))" by simp
      with len [of "db_now (tk_env t)"] have "reapable (db_now (tk_env t)) (committed s1) = []" by simp
      with reapable_mono [OF time(1), of "committed s1"] rest(3) show ?thesis by simp
    qed
    then show ?case using pass rest(1-3) sub [of t0] by auto
  qed
  with assms(7) show ?thesis by blast
qed

theorem reaper_task_drains_witness:
  "\<exists>s' p'. reaper_run sample_ext recording_publish 30
      [\<lparr>tk_visit = rev, tk_env = sample_env 1 500, tk_conn = 3\<rparr>] (None, fresh_session held_db [], []) =
        (True, None, s', p') \<and> reapable 500 (committed s') = []"
proof -
  have "length (reapable 500 held_db) \<le> 500" by code_simp
  then show ?thesis
    using reaper_task_drains [where s = "fresh_session held_db []" and ?t0.0 = 500 and ?t1.0 = 500 and days = 30
        and X = sample_ext and P = recording_publish and p = "[]"
        and ts = "[\<lparr>tk_visit = rev, tk_env = sample_env 1 500, tk_conn = 3\<rparr>]"]
    by auto
qed

section \<open>The sweep cannot be seen\<close>

lemma sweep_expired_effect:
  assumes "sweep_expired V s = (r, s')"
  shows "committed s' = committed s \<and> (\<exists>e. r = Inl e) \<or> committed s' = sweep_cached (db_now V) (committed s)"
    and "no_faults s \<Longrightarrow> no_faults s' \<and> committed s' = sweep_cached (db_now V) (committed s)"
proof -
  have eff: "delete_expired (db_now V) d = Inr (n, sweep_cached (db_now V) d)"
    if "n = length (filter (\<lambda>r. ik_expires r \<le> db_now V) (idem_cache d))" for n d
    by (simp add: delete_expired_def sweep_cached_def that)
  show "committed s' = committed s \<and> (\<exists>e. r = Inl e) \<or> committed s' = sweep_cached (db_now V) (committed s)"
    using assms unfolding sweep_expired_def
    by (cases r) (auto dest!: pool_exec_Inr pool_exec_Inl simp: eff)
  show "no_faults s' \<and> committed s' = sweep_cached (db_now V) (committed s)" if "no_faults s"
    using assms that calmD [OF calm_call(4) that, of "delete_expired (db_now V)" r s'] unfolding sweep_expired_def
    by (cases r) (auto dest!: pool_exec_Inr pool_exec_Inl simp: eff)
qed

text \<open>
  C32. The sweep loop is only space reclamation: under any failures and any number of ticks, a
  lookup at a time not before the last tick answers for every key what it would answer
  without the loop, and inventory and holds are untouched; on a database that does not fail
  no row is left that had expired at a tick.
\<close>

theorem sweep_invisible:
  assumes "schema_ok (committed s)" and "\<forall>V \<in> set Vs. db_now V \<le> t"
  shows "schema_ok (committed (sweep_run Vs s)) \<and>
    select_cached t k (committed (sweep_run Vs s)) = select_cached t k (committed s) \<and>
    committed (sweep_run Vs s) = (committed s)\<lparr>idem_cache := idem_cache (committed (sweep_run Vs s))\<rparr> \<and>
    (no_faults s \<longrightarrow> (\<forall>V \<in> set Vs. \<forall>r \<in> set (idem_cache (committed (sweep_run Vs s))). db_now V < ik_expires r))"
  using assms
proof (induction Vs arbitrary: s)
  case (Cons V Vs)
  obtain r s1 where run: "sweep_expired V s = (r, s1)" by (metis surj_pair)
  have time: "db_now V \<le> t" "\<forall>V \<in> set Vs. db_now V \<le> t" using Cons.prems(2) by simp_all
  note eff = sweep_expired_effect [OF run]
  have s1: "schema_ok (committed s1)" "select_cached t k (committed s1) = select_cached t k (committed s)"
    "committed s1 = (committed s)\<lparr>idem_cache := idem_cache (committed s1)\<rparr>"
    using eff(1) Cons.prems(1) time(1) by (auto simp: pg.sweep_valid pg.sweep_live) (simp_all add: sweep_cached_def)
  note IH = Cons.IH [OF s1(1) time(2)]
  have sub: "set (idem_cache (committed (sweep_run Us u))) \<subseteq> set (idem_cache (committed u))" for Us u
  proof (induction Us arbitrary: u)
    case (Cons U Us)
    obtain y u1 where y: "sweep_expired U u = (y, u1)" by (metis surj_pair)
    have "set (idem_cache (committed u1)) \<subseteq> set (idem_cache (committed u))"
      using sweep_expired_effect(1) [OF y] by (auto simp: sweep_cached_def)
    with Cons.IH [of u1] y show ?case by auto
  qed simp
  have gone: "db_now V < ik_expires r" if "no_faults s" "r \<in> set (idem_cache (committed (sweep_run Vs s1)))" for r
    using eff(2) [OF that(1)] sub [of Vs s1] that(2) by (auto simp: sweep_cached_def)
  have calm: "no_faults s \<Longrightarrow> no_faults s1" using eff(2) by blast
  have rec: "d2 = d\<lparr>idem_cache := x\<rparr>" if "d2 = d1\<lparr>idem_cache := x\<rparr>" "d1 = d\<lparr>idem_cache := y\<rparr>"
    for d d1 d2 :: db and x y
    using that by simp
  note same = rec [OF _ s1(3), of "committed (sweep_run Vs s1)" "idem_cache (committed (sweep_run Vs s1))"]
  from IH s1(2) run gone calm same show ?case by auto
qed simp

theorem sweep_invisible_witness:
  "select_cached 200 ''k'' (committed (sweep_run [sample_env 1 100, sample_env 1 150]
      (fresh_session (sample_db\<lparr>idem_cache := [cache_row 0 100 ''old'' \<lparr>c_status = 200, c_body = [], c_body_hash = []\<rparr>,
         cache_row 0 300 ''k'' \<lparr>c_status = 201, c_body = ''b'', c_body_hash = ''h''\<rparr>]\<rparr>) []))) =
   Some \<lparr>c_status = 201, c_body = ''b'', c_body_hash = ''h''\<rparr>"
proof -
  let ?d = "sample_db\<lparr>idem_cache := [cache_row 0 100 ''old'' \<lparr>c_status = 200, c_body = [], c_body_hash = []\<rparr>,
         cache_row 0 300 ''k'' \<lparr>c_status = 201, c_body = ''b'', c_body_hash = ''h''\<rparr>]\<rparr>"
  have "schema_ok ?d" using sample_db_ok(2) by (simp add: schema_ok_def)
  moreover have "select_cached 200 ''k'' ?d = Some \<lparr>c_status = 201, c_body = ''b'', c_body_hash = ''h''\<rparr>"
    by (simp add: select_cached_def)
  ultimately show ?thesis
    using sweep_invisible [of "fresh_session ?d []" "[sample_env 1 100, sample_env 1 150]" 200 "''k''"] by simp
qed

end
