(* ===== verification/Boot.thy ===== *)
theory Boot
  imports Config Routes Reaper_Task
begin

text \<open>
  \<open>engine-server/src/main.rs\<close>: the start of the server as a function of the environment and of
  what the outside answers, with the actions it performs in their order. That nothing is
  started before every check has passed, and that the running server has the values of the
  environment.
\<close>

section \<open>The start\<close>

text \<open>
  The answers of the outside to the steps of the start: \<open>Some e\<close> is an error. \<open>read_version\<close> is
  the value in \<open>engine_schema_meta\<close>, if the row exists.
\<close>

record outside =
  connect :: "string \<Rightarrow> 32 word \<Rightarrow> 32 word \<Rightarrow> string option"
  run_migrations :: "string option"
  probe :: "string \<Rightarrow> string option"
  read_version :: "string + string option"
  create_redis_pool :: "string \<Rightarrow> string option"
  bind_listener :: "string \<Rightarrow> string option"

datatype boot_error =
    InvalidConfiguration string
  | ConnectFailed string
  | MigrationsFailed string
  | SchemaCheckFailed string string
  | MetaUnreadable string
  | NoVersionRow
  | VersionMismatch string
  | RedisPoolFailed string
  | BindFailed string string

datatype publisher_kind = RedisPublisher string | NoopPublisher

datatype boot_action =
    Connect string "32 word" "32 word"
  | Migrate
  | Probe string
  | ReadVersion
  | CreateRedisPool string
  | SpawnReaper "64 word" "64 word"
  | SpawnSweep "64 word"
  | Bind string
  | Serve app_state publisher_kind

definition REQUIRED_SCHEMA_VERSION :: string where
  "REQUIRED_SCHEMA_VERSION = ''1''"

definition probed_tables :: "string list" where
  "probed_tables = [''seat_holds'', ''seat_inventory'', ''engine_idempotency_cache'']"

text \<open>A step that may fail, with the action it performs, and the rest: \<open>?\<close> and \<open>bail!\<close>.\<close>

type_synonym boot_result = "boot_error option \<times> boot_action list"

definition attempt ::
  "boot_action \<Rightarrow> string option \<Rightarrow> (string \<Rightarrow> boot_error) \<Rightarrow> boot_result \<Rightarrow> boot_result" where
  "attempt act reply err rest =
     (case reply of
        Some e \<Rightarrow> (Some (err e), [act])
      | None \<Rightarrow> (case rest of (r, acts) \<Rightarrow> (r, act # acts)))"

fun probe_all :: "outside \<Rightarrow> string list \<Rightarrow> boot_result \<Rightarrow> boot_result" where
  "probe_all W [] rest = rest"
| "probe_all W (t # ts) rest = attempt (Probe t) (probe W t) (SchemaCheckFailed t) (probe_all W ts rest)"

definition check_version :: "outside \<Rightarrow> boot_result \<Rightarrow> boot_result" where
  "check_version W rest =
     (case read_version W of
        Inl e \<Rightarrow> (Some (MetaUnreadable e), [ReadVersion])
      | Inr None \<Rightarrow> (Some NoVersionRow, [ReadVersion])
      | Inr (Some db_version) \<Rightarrow>
          if db_version \<noteq> REQUIRED_SCHEMA_VERSION then (Some (VersionMismatch db_version), [ReadVersion])
          else (case rest of (r, acts) \<Rightarrow> (r, ReadVersion # acts)))"

definition state_of :: "bool \<Rightarrow> config \<Rightarrow> app_state" where
  "state_of checks cfg =
     \<lparr>auth = \<lparr>hmac_secret = cfg_hmac_secret cfg, hmac_skew_secs = cfg_hmac_skew_secs cfg,
              allowed_service_ids = cfg_allowed_service_ids cfg, overflow_checks = checks\<rparr>,
      ttl_short_secs = cfg_ttl_short_secs cfg, ttl_long_secs = cfg_ttl_long_secs cfg\<rparr>"

text \<open>The publisher is chosen and given to the rest of the start.\<close>

definition with_publisher :: "outside \<Rightarrow> config \<Rightarrow> (publisher_kind \<Rightarrow> boot_result) \<Rightarrow> boot_result" where
  "with_publisher W cfg rest =
     (case redis_url cfg of
        None \<Rightarrow> rest NoopPublisher
      | Some url \<Rightarrow> attempt (CreateRedisPool url) (create_redis_pool W url) RedisPoolFailed (rest (RedisPublisher url)))"

definition start :: "outside \<Rightarrow> bool \<Rightarrow> config \<Rightarrow> publisher_kind \<Rightarrow> boot_result" where
  "start W checks cfg kind =
     (case attempt (Bind (bind_addr cfg)) (bind_listener W (bind_addr cfg)) (BindFailed (bind_addr cfg))
             (None, [Serve (state_of checks cfg) kind]) of
        (r, acts) \<Rightarrow>
          (r, SpawnReaper (reaper_interval_secs cfg) (confirmed_holds_retention_days cfg) #
              SpawnSweep (idempotency_sweep_interval_secs cfg) # acts))"

text \<open>\<open>main\<close> up to \<open>axum::serve\<close>; \<open>checks\<close> is whether the build has overflow checks.\<close>

definition main :: "outside \<Rightarrow> bool \<Rightarrow> env \<Rightarrow> boot_result" where
  "main W checks e =
     (case from_env e of
        Inl m \<Rightarrow> (Some (InvalidConfiguration m), [])
      | Inr cfg \<Rightarrow>
          attempt (Connect (database_url cfg) (db_min_conn cfg) (db_max_conn cfg))
            (connect W (database_url cfg) (db_min_conn cfg) (db_max_conn cfg)) ConnectFailed
          (attempt Migrate (run_migrations W) MigrationsFailed
          (probe_all W probed_tables
          (check_version W
          (with_publisher W cfg
          (start W checks cfg))))))"

section \<open>Fail fast\<close>

definition starts :: "boot_action \<Rightarrow> bool" where
  "starts a \<longleftrightarrow> (case a of SpawnReaper _ _ \<Rightarrow> True | SpawnSweep _ \<Rightarrow> True | Bind _ \<Rightarrow> True | Serve _ _ \<Rightarrow> True | _ \<Rightarrow> False)"

text \<open>
  C25. The server fails fast: if any background task is spawned, the port bound or a request
  served, then the environment was valid, the database accepted the connection and the
  migrations, all three table probes succeeded, the schema version is the required one, and
  a configured Redis pool could be created; and then the actions so far are exactly these, in
  this order. It serves exactly when the port could be bound as well, with the state of the
  configuration and without an error; otherwise it ends with an error.
\<close>

theorem boot_fails_fast:
  "case main W checks e of (r, acts) \<Rightarrow>
     (if \<exists>a \<in> set acts. starts a then
        (\<exists>cfg. from_env e = Inr cfg \<and>
           connect W (database_url cfg) (db_min_conn cfg) (db_max_conn cfg) = None \<and> run_migrations W = None \<and>
           map (probe W) probed_tables = [None, None, None] \<and> read_version W = Inr (Some ''1'') \<and>
           Option.bind (redis_url cfg) (create_redis_pool W) = None \<and>
           acts = [Connect (database_url cfg) (db_min_conn cfg) (db_max_conn cfg), Migrate] @ map Probe probed_tables @
             [ReadVersion] @ (case redis_url cfg of None \<Rightarrow> [] | Some url \<Rightarrow> [CreateRedisPool url]) @
             [SpawnReaper (reaper_interval_secs cfg) (confirmed_holds_retention_days cfg),
              SpawnSweep (idempotency_sweep_interval_secs cfg), Bind (bind_addr cfg)] @
             (if r = None then
                [Serve (state_of checks cfg) (case redis_url cfg of None \<Rightarrow> NoopPublisher | Some url \<Rightarrow> RedisPublisher url)]
              else []) \<and>
           r = map_option (BindFailed (bind_addr cfg)) (bind_listener W (bind_addr cfg)))
      else r \<noteq> None)"
proof (cases "from_env e")
  case (Inl m)
  then show ?thesis by (simp add: main_def)
next
  case (Inr cfg)
  show ?thesis
  proof (cases "redis_url cfg")
    case None
    with Inr show ?thesis
      by (auto simp: main_def attempt_def check_version_def with_publisher_def start_def probed_tables_def starts_def
          REQUIRED_SCHEMA_VERSION_def split: option.split sum.split)
  next
    case (Some url)
    with Inr show ?thesis
      by (auto simp: main_def attempt_def check_version_def with_publisher_def start_def probed_tables_def starts_def
          REQUIRED_SCHEMA_VERSION_def split: option.split sum.split)
  qed
qed

end
