(* ===== verification/Server.thy ===== *)
theory Server
  imports Boot
begin

text \<open>
  The running server over time: requests that pass through both layers, ticks of the two
  background tasks and inventory seeded by the terminal, in any order and under any failures.
  Every step is a cache update and at most one move of the seat automaton, the one the request
  names; so a sold seat stays sold, and a held seat held, until an authentic request or an
  expiry says otherwise.
\<close>

section \<open>Events\<close>

datatype server_event =
    Request serve_env http_request
  | ReaperTick call_env
  | SweepTick call_env
  | Seeded inv_row

fun event_call :: "ext \<Rightarrow> web_ext \<Rightarrow> crypto \<Rightarrow> app_state \<Rightarrow> server_event \<Rightarrow> engine_call \<Rightarrow> bool" where
  "event_call X W K A (Request E rq) c \<longleftrightarrow> request_call X W K A E rq c"
| "event_call X W K A (ReaperTick V) c \<longleftrightarrow> (\<exists>r. c = ReaperCall V r)"
| "event_call X W K A (SweepTick V) c \<longleftrightarrow> False"
| "event_call X W K A (Seeded row) c \<longleftrightarrow> c = SeedCall row"

inductive server_step ::
  "ext \<Rightarrow> web_ext \<Rightarrow> crypto \<Rightarrow> app_state \<Rightarrow> (string \<Rightarrow> string) \<Rightarrow> 'p publish \<Rightarrow> db \<Rightarrow> server_event \<Rightarrow> db \<Rightarrow> bool"
  for X W K A collate P where
  request: "router X W K A collate P E rq (s, p) = (r, s', p') \<Longrightarrow>
    server_step X W K A collate P (committed s) (Request E rq) (committed s')"
| reaper: "visits visit \<Longrightarrow> expire_holds X visit V c P days (l, s, p) = (r, l', s', p') \<Longrightarrow>
    server_step X W K A collate P (committed s) (ReaperTick V) (committed s')"
| sweep: "sweep_expired V s = (r, s') \<Longrightarrow>
    server_step X W K A collate P (committed s) (SweepTick V) (committed s')"
| seed: "row_at d (inv_key row) = None \<Longrightarrow> \<not> inv_booked row \<Longrightarrow> inv_hold row = None \<Longrightarrow>
    server_step X W K A collate P d (Seeded row) (seed_row row d)"

inductive server_run ::
  "ext \<Rightarrow> web_ext \<Rightarrow> crypto \<Rightarrow> app_state \<Rightarrow> (string \<Rightarrow> string) \<Rightarrow> 'p publish \<Rightarrow> db \<Rightarrow> server_event list \<Rightarrow> db \<Rightarrow> bool"
  for X W K A collate P where
  stop: "server_run X W K A collate P d [] d"
| event: "server_step X W K A collate P d ev d1 \<Longrightarrow> server_run X W K A collate P d1 evs d' \<Longrightarrow>
    server_run X W K A collate P d (ev # evs) d'"

section \<open>Each event is at most one move\<close>

lemma abs_seat_cache [simp]: "abs_seat (d\<lparr>idem_cache := x\<rparr>) k = abs_seat d k"
proof -
  have "seat_at (d\<lparr>idem_cache := x\<rparr>) k = seat_at d k" "hold_at (d\<lparr>idem_cache := x\<rparr>) h = hold_at d h" for h
    by (simp_all add: seat_at_def row_at_def hold_at_def)
  then show ?thesis by (simp only: abs_seat_def)
qed

lemma moves_cache:
  assumes "moves X c d d1" and "\<And>k. abs_seat d' k = abs_seat d1 k"
  shows "moves X c d d'"
  using assms(1) unfolding moves_def assms(2) .

lemma router_moves:
  assumes "router X W K A collate P E rq (s, p) = (r, s', p')" and "db_ok (committed s)"
  shows "db_ok (committed s') \<and> ((\<forall>k. abs_seat (committed s') k = abs_seat (committed s) k) \<or>
    (\<exists>c. request_call X W K A E rq c \<and> moves X c (committed s) (committed s')))"
proof
  show "db_ok (committed s')" using router_db_ok [OF assms] .
  obtain d where d: "d = committed s \<or> (\<exists>c. request_call X W K A E rq c \<and> engine_step X P (committed s) c d)"
    "committed s' = d \<or> (\<exists>now e key v. committed s' = snd (put_cached now e key v d))"
    using router_one_call [OF assms(1)] by blast
  from d(2) have same: "abs_seat (committed s') k = abs_seat d k" for k
    by (metis put_cached_frame abs_seat_cache)
  with d(1) show "(\<forall>k. abs_seat (committed s') k = abs_seat (committed s) k) \<or>
    (\<exists>c. request_call X W K A E rq c \<and> moves X c (committed s) (committed s'))"
    using moves_cache engine_step_moves assms(2) by metis
qed

lemma server_step_moves:
  assumes "server_step X W K A collate P d ev d'" and "db_ok d"
  shows "db_ok d' \<and> ((\<forall>k. abs_seat d' k = abs_seat d k) \<or>
    (\<exists>c. event_call X W K A ev c \<and> moves X c d d'))"
  using assms(1)
proof cases
  case (request E rq s p r s' p')
  with router_moves [OF request(4)] assms(2) show ?thesis by simp
next
  case (reaper visit V c days l s p r l' s' p')
  with engine_step_moves [OF engine_step.reaper [OF reaper(4,5)]] assms(2) show ?thesis by auto
next
  case (sweep V s r s')
  have "\<exists>C. committed s' = (committed s)\<lparr>idem_cache := C\<rparr>"
    using sweep_expired_effect(1) [OF sweep(4)] by (auto simp: sweep_cached_def) (metis db.surjective db.update_convs(3))
  then obtain C where "d' = d\<lparr>idem_cache := C\<rparr>" using sweep by blast
  moreover have "schema_ok d'"
    using sweep_expired_effect(1) [OF sweep(4)] assms(2) sweep pg.sweep_valid by (auto simp: db_ok_def)
  ultimately show ?thesis using assms(2) by (simp add: db_ok_def linked_def exclusive_def)
next
  case (seed row)
  with engine_step_moves [OF engine_step.seed [OF seed(3-5)], of X] assms(2) show ?thesis by simp
qed

section \<open>A seat as the clients see it\<close>

text \<open>
  An authentic request that cancels leg \<open>k\<close>, one that releases the reference \<open>h\<close>, and a tick of
  the reaper at or after \<open>t\<close>: the only events that may take a leg from its owner.
\<close>

definition cancel_request :: "ext \<Rightarrow> web_ext \<Rightarrow> crypto \<Rightarrow> app_state \<Rightarrow> seat_key \<Rightarrow> server_event \<Rightarrow> bool" where
  "cancel_request X W K A k ev \<longleftrightarrow>
     (\<exists>E rq fw b. ev = Request E rq \<and> forwarded K (auth A) (auth_now E) rq fw \<and>
        match_route (rq_path fw) = Some CancelSeats \<and> rq_method fw = ''POST'' \<and>
        extract_json W (decode_cancel_body X) fw = Inr b \<and>
        k \<in> leg_keys (cn_trip_id b) (cn_seat_no b) (cn_leg_indexes b))"

definition release_request :: "web_ext \<Rightarrow> crypto \<Rightarrow> app_state \<Rightarrow> string \<Rightarrow> server_event \<Rightarrow> bool" where
  "release_request W K A h ev \<longleftrightarrow>
     (\<exists>E rq fw seg. ev = Request E rq \<and> forwarded K (auth A) (auth_now E) rq fw \<and>
        match_route (rq_path fw) = Some (HoldRef seg) \<and> rq_method fw = ''DELETE'' \<and>
        percent_decode W seg = Some h)"

definition reaper_tick_from :: "time \<Rightarrow> server_event \<Rightarrow> bool" where
  "reaper_tick_from t ev \<longleftrightarrow> (\<exists>V. ev = ReaperTick V \<and> t \<le> db_now V)"

lemma called_cancel:
  "called X W e fw (CancelCall trip seat legs r) \<longleftrightarrow>
     e = CancelSeats \<and> extract_json W (decode_cancel_body X) fw = Inr \<lparr>cn_trip_id = trip, cn_seat_no = seat, cn_leg_indexes = legs\<rparr>"
  by (cases e) auto

lemma called_release: "called X W e fw (ReleaseCall h r) \<longleftrightarrow> (\<exists>seg. e = HoldRef seg \<and> percent_decode W seg = Some h)"
  by (cases e) auto

lemma event_cancels: "event_call X W K A ev c \<Longrightarrow> cancels c k \<Longrightarrow> cancel_request X W K A k ev"
  unfolding cancels_def cancel_request_def
  by (cases ev) (fastforce simp: request_call_def called_cancel)+

lemma event_releases: "event_call X W K A ev (ReleaseCall h r) \<Longrightarrow> release_request W K A h ev"
  unfolding release_request_def
  by (cases ev) (auto simp: request_call_def called_release)

lemma event_reaps: "event_call X W K A ev (ReaperCall V r) \<Longrightarrow> ev = ReaperTick V"
proof (cases ev)
  case (Request E rq)
  have "\<not> called X W e fw (ReaperCall V r)" for e fw by (cases e) auto
  then show "event_call X W K A ev (ReaperCall V r) \<Longrightarrow> ev = ReaperTick V"
    using Request by (auto simp: request_call_def)
qed auto

lemma server_step_seat:
  assumes "server_step X W K A collate P d ev d'" and "db_ok d" and "abs_seat d k = Some a"
    and "\<not> cancel_request X W K A k ev"
  shows "(a = ABooked \<longrightarrow> abs_seat d' k = Some ABooked) \<and>
    (\<forall>h t. a = AHeld h t \<longrightarrow> \<not> release_request W K A h ev \<longrightarrow> \<not> reaper_tick_from t ev \<longrightarrow>
       abs_seat d' k \<in> {Some (AHeld h t), Some ABooked})"
  using server_step_moves [OF assms(1,2), THEN conjunct2]
proof
  assume "\<forall>k. abs_seat d' k = abs_seat d k"
  then have "abs_seat d' k = abs_seat d k" by blast
  with assms(3) show ?thesis by simp
next
  assume "\<exists>c. event_call X W K A ev c \<and> moves X c d d'"
  then obtain c a' where c: "event_call X W K A ev c" and a': "abs_seat d' k = Some a'" "seat_move X c k a a'"
    using moves_Some [OF _ assms(3)] by blast
  have nc: "\<not> cancels c k" using event_cancels [OF c] assms(4) by blast
  show ?thesis
  proof (intro conjI impI allI)
    assume "a = ABooked"
    with booked_stays a' nc show "abs_seat d' k = Some ABooked" by blast
  next
    fix h t assume h: "a = AHeld h t" "\<not> release_request W K A h ev" "\<not> reaper_tick_from t ev"
    have "\<forall>r. c \<noteq> ReleaseCall h r" using event_releases c h(2) by blast
    moreover have "\<forall>V r. c = ReaperCall V r \<longrightarrow> db_now V < t"
      using event_reaps c h(3) by (metis linorder_not_le reaper_tick_from_def)
    ultimately show "abs_seat d' k \<in> {Some (AHeld h t), Some ABooked}"
      using held_stays [of X c k h t a'] a' h(1) nc by auto
  qed
qed

lemma server_run_db_ok: "server_run X W K A collate P d evs d' \<Longrightarrow> db_ok d \<Longrightarrow> db_ok d'"
  by (induction rule: server_run.induct) (auto dest: server_step_moves)

lemma server_run_booked:
  assumes "server_run X W K A collate P d evs d'" and "db_ok d" and "abs_seat d k = Some ABooked"
    and "\<forall>ev \<in> set evs. \<not> cancel_request X W K A k ev"
  shows "abs_seat d' k = Some ABooked"
  using assms
proof (induction rule: server_run.induct)
  case (event d ev d1 evs d')
  have "db_ok d1" using server_step_moves [OF event.hyps(1) event.prems(1)] ..
  moreover have "abs_seat d1 k = Some ABooked"
    using server_step_seat [OF event.hyps(1) event.prems(1,2)] event.prems(3) by simp
  ultimately show ?case using event.IH event.prems(3) by simp
qed

text \<open>
  C12. A seat is safe with the running server: take any sequence of requests, from anybody, of
  ticks of the two background tasks and of seats put on sale, under any failures. The database
  stays consistent. A booked leg stays booked unless an authentic \<open>POST /cancel-seats\<close> names it;
  a leg held by \<open>h\<close> until \<open>t\<close> stays held by \<open>h\<close> until \<open>t\<close>, or is booked, unless such a request
  names it, an authentic \<open>DELETE\<close> names \<open>h\<close>, or the reaper ticks at or after \<open>t\<close>.
\<close>

theorem served_seats_safe:
  assumes "server_run X W K A collate P d evs d'" and "db_ok d"
    and "\<forall>ev \<in> set evs. \<not> cancel_request X W K A k ev"
  shows "db_ok d' \<and>
    (seat_at d k = Some SBooked \<longrightarrow> seat_at d' k = Some SBooked) \<and>
    (abs_seat d k = Some (AHeld h t) \<longrightarrow>
       (\<forall>ev \<in> set evs. \<not> release_request W K A h ev \<and> \<not> reaper_tick_from t ev) \<longrightarrow>
       abs_seat d' k \<in> {Some (AHeld h t), Some ABooked})"
proof -
  have seat: "seat_at d k = Some SBooked \<longleftrightarrow> abs_seat d k = Some ABooked" for d
    by (auto simp: abs_seat_def split: option.split seat.split)
  have "abs_seat d' k \<in> {Some (AHeld h t), Some ABooked}"
    if "abs_seat d k = Some (AHeld h t)" "\<forall>ev \<in> set evs. \<not> release_request W K A h ev \<and> \<not> reaper_tick_from t ev"
    using assms that
  proof (induction rule: server_run.induct)
    case (event d ev d1 evs d')
    have ok: "db_ok d1" using server_step_moves [OF event.hyps(1) event.prems(1)] ..
    have "abs_seat d1 k \<in> {Some (AHeld h t), Some ABooked}"
      using server_step_seat [OF event.hyps(1) event.prems(1,3)] event.prems(2,4) by simp
    with event.IH [OF ok] server_run_booked [OF event.hyps(2) ok, of k] event.prems(2,4) show ?case by auto
  qed simp
  with server_run_db_ok [OF assms(1,2)] server_run_booked [OF assms(1,2) _ assms(3)] show ?thesis
    unfolding seat by blast
qed

theorem served_seats_safe_witness:
  "\<exists>d'. server_run sample_ext sample_web sample_crypto sample_app id recording_publish (book_hold ''h'' ''BK'' held_db)
      [Request (env_at 1000 0) (signed_post ''1000''), ReaperTick (sample_env 1 900)] d' \<and>
     db_ok d' \<and> seat_at d' (1, ''1A'', 0) = Some SBooked"
proof -
  let ?d = "book_hold ''h'' ''BK'' held_db"
  obtain r1 s1 p1 where run1: "router sample_ext sample_web sample_crypto sample_app id recording_publish (env_at 1000 0)
      (signed_post ''1000'') (fresh_session ?d [], []) = (r1, s1, p1)" by (metis surj_pair)
  obtain r l' s' p' where run2: "expire_holds sample_ext (\<lambda>qs. qs) (sample_env 1 900) 3 recording_publish 30
      (None, s1, p1) = (r, l', s', p')" by (metis surj_pair)
  have v: "visits (\<lambda>qs. qs)" by (simp add: visits_def)
  have run: "server_run sample_ext sample_web sample_crypto sample_app id recording_publish ?d
      [Request (env_at 1000 0) (signed_post ''1000''), ReaperTick (sample_env 1 900)] (committed s')"
    by (rule server_run.event [OF server_step.request [OF run1, simplified]
          server_run.event [OF server_step.reaper [OF v run2, simplified] server_run.stop]])
  have "match_route (rq_path fw) \<noteq> Some CancelSeats" if "forwarded sample_crypto (auth sample_app) now (signed_post ''1000'') fw" for now fw
  proof -
    have "rq_path fw = ''/api/v1/holds''"
      using that by (auto simp: forwarded_def signed_post_def sample_post_def split: if_splits)
    moreover have "match_route ''/api/v1/holds'' = Some Holds" by code_simp
    ultimately show ?thesis by simp
  qed
  then have "\<forall>ev \<in> set [Request (env_at 1000 0) (signed_post ''1000''), ReaperTick (sample_env 1 900)].
      \<not> cancel_request sample_ext sample_web sample_crypto sample_app (1, ''1A'', 0) ev"
    by (auto simp: cancel_request_def)
  moreover have "db_ok ?d" and "seat_at ?d (1, ''1A'', 0) = Some SBooked"
    by (simp_all add: db_ok_book_hold seat_at_book_hold)
  ultimately show ?thesis using served_seats_safe [OF run, of "(1, ''1A'', 0)"] run by blast
qed

end
