(* ===== verification/Loadtest.thy ===== *)
theory Loadtest
  imports Routes
begin

text \<open>
  \<open>loadtest/src/main.rs\<close>: the client side of the load test, the only client of the API in the
  repository. The requests it signs and sends, how one operation counts the replies, and that
  the server understands what it is sent.
\<close>

section \<open>Requests\<close>

definition hold_payload :: "ext \<Rightarrow> uuid \<Rightarrow> string \<Rightarrow> json" where
  "hold_payload X trip_id seat_no =
     JObj [(''leg_indexes'', JArr [JNum 1]),
           (''operator_id'', JStr (''loadtest-'' @ seat_no)),
           (''seat_no'', JStr seat_no),
           (''trip_id'', JStr (uuid_to_string X trip_id)),
           (''ttl_class'', JStr ''short'')]"

definition confirm_payload :: "ext \<Rightarrow> uuid \<Rightarrow> string \<Rightarrow> json" where
  "confirm_payload X booking_id seat_no =
     JObj [(''booking_id'', JStr (uuid_to_string X booking_id)),
           (''operator_id'', JStr (''loadtest-'' @ seat_no))]"

text \<open>A signed request with a body and an idempotency key, or without both.\<close>

definition signed_headers :: "string \<times> string \<times> string \<Rightarrow> (string \<times> string) list" where
  "signed_headers hs =
     (case hs of (svc, ts, sig) \<Rightarrow> [(''x-service-id'', svc), (''x-timestamp'', ts), (''x-signature'', sig)])"

definition message :: "string \<Rightarrow> string \<Rightarrow> (string \<times> string) list \<Rightarrow> string \<Rightarrow> http_request" where
  "message method path headers body =
     \<lparr>rq_method = method, rq_path = path, rq_query = [], rq_headers = headers, rq_body = Some body,
      rq_identity = None\<rparr>"

definition post_message :: "string \<Rightarrow> string \<times> string \<times> string \<Rightarrow> string \<Rightarrow> string \<Rightarrow> http_request" where
  "post_message path hs idem body =
     message ''POST'' path
       ([(''content-type'', ''application/json'')] @ signed_headers hs @ [(''idempotency-key'', idem)]) body"

section \<open>One operation\<close>

record stats =
  hold_hist :: "nat list"
  second_hist :: "nat list"
  st_ok :: nat
  st_conflict :: nat
  st_second_ok :: nat
  st_errors :: nat

definition new_stats :: stats where
  "new_stats = \<lparr>hold_hist = [], second_hist = [], st_ok = 0, st_conflict = 0, st_second_ok = 0, st_errors = 0\<rparr>"

text \<open>What an operation reads from its surroundings: clocks, fresh ids, measured times.\<close>

record op_env =
  sign_now1 :: "64 word"
  sign_now2 :: "64 word"
  idem1 :: uuid
  idem2 :: uuid
  booking :: uuid
  micros1 :: nat
  micros2 :: nat

text \<open>
  \<open>send\<close> is the HTTP client with the server behind it (\<open>None\<close>: no response), \<open>parse\<close> its JSON
  reader. An early return (\<open>?\<close>) and the panic of a refused HMAC key end the operation with the
  totals as they are.
\<close>

definition second_op ::
  "ext \<Rightarrow> crypto \<Rightarrow> 'w service \<Rightarrow> op_env \<Rightarrow> string \<Rightarrow> string \<Rightarrow> string \<Rightarrow> string \<Rightarrow> stats \<Rightarrow> 'w \<Rightarrow>
   stats \<times> 'w" where
  "second_op X K send E secret seat_no scenario hold_ref s w =
     (let record_reply = (\<lambda>reply.
            (case reply of (resp, w1) \<Rightarrow>
               (s\<lparr>second_hist := second_hist s @ [micros2 E div 1000],
                        st_second_ok := st_second_ok s +
                          (case resp of None \<Rightarrow> 0 | Some r \<Rightarrow> if is_success_status (rs_status r) then 1 else 0)\<rparr>, w1)))
      in if scenario = ''hold-confirm'' then
           (let cpath = ''/api/v1/holds/'' @ hold_ref @ ''/confirm''
            in case json_to_string X (confirm_payload X (booking E) seat_no) of
                 None \<Rightarrow> (s, w)
               | Some cbody \<Rightarrow>
            (case sign K (sign_now2 E) ''POST'' cpath cbody secret of
               None \<Rightarrow> (s, w)
             | Some ch \<Rightarrow> record_reply (send (post_message cpath ch (uuid_to_string X (idem2 E)) cbody) w)))
         else
           (let rpath = ''/api/v1/holds/'' @ hold_ref
            in case sign K (sign_now2 E) ''DELETE'' rpath [] secret of
                 None \<Rightarrow> (s, w)
               | Some rh \<Rightarrow> record_reply (send (message ''DELETE'' rpath (signed_headers rh) []) w)))"

text \<open>The hold of an operation; it returns the reference if the operation goes on.\<close>

definition hold_op ::
  "ext \<Rightarrow> crypto \<Rightarrow> (string \<Rightarrow> json option) \<Rightarrow> 'w service \<Rightarrow> op_env \<Rightarrow> string \<Rightarrow> uuid \<Rightarrow> string \<Rightarrow>
   stats \<Rightarrow> 'w \<Rightarrow> string option \<times> stats \<times> 'w" where
  "hold_op X K parse send E secret trip_id seat_no s w =
     (let path = ''/api/v1/holds''
      in case json_to_string X (hold_payload X trip_id seat_no) of
           None \<Rightarrow> (None, s, w)
         | Some body \<Rightarrow>
      (case sign K (sign_now1 E) ''POST'' path body secret of
         None \<Rightarrow> (None, s, w)
       | Some hs \<Rightarrow>
      (case send (post_message path hs (uuid_to_string X (idem1 E)) body) w of
         (None, w1) \<Rightarrow> (None, s\<lparr>st_errors := st_errors s + 1\<rparr>, w1)
       | (Some r, w1) \<Rightarrow>
           if is_success_status (rs_status r) then
             (case Option.bind (rs_body r) parse of
                None \<Rightarrow> (None, s, w1)
              | Some v \<Rightarrow>
                  (let hold_ref = (case Option.bind (json_get v ''hold_ref'') as_string of None \<Rightarrow> [] | Some h \<Rightarrow> h)
                   in (Some hold_ref,
                       s\<lparr>hold_hist := hold_hist s @ [micros1 E div 1000], st_ok := st_ok s + 1\<rparr>, w1)))
           else if rs_status r = 409 \<or> rs_status r = 422 then
             (None, s\<lparr>hold_hist := hold_hist s @ [micros1 E div 1000], st_conflict := st_conflict s + 1\<rparr>, w1)
           else (None, s\<lparr>st_errors := st_errors s + 1\<rparr>, w1))))"

definition run_one ::
  "ext \<Rightarrow> crypto \<Rightarrow> (string \<Rightarrow> json option) \<Rightarrow> 'w service \<Rightarrow> op_env \<Rightarrow> string \<Rightarrow> uuid \<Rightarrow> string \<Rightarrow> string \<Rightarrow>
   stats \<Rightarrow> 'w \<Rightarrow> stats \<times> 'w" where
  "run_one X K parse send E secret trip_id seat_no scenario s w =
     (case hold_op X K parse send E secret trip_id seat_no s w of
        (None, s1, w1) \<Rightarrow> (s1, w1)
      | (Some hold_ref, s1, w1) \<Rightarrow> second_op X K send E secret seat_no scenario hold_ref s1 w1)"

section \<open>The totals\<close>

abbreviation replies :: "stats \<Rightarrow> nat" where
  "replies s \<equiv> st_ok s + st_conflict s + st_errors s"

definition stats_ok :: "stats \<Rightarrow> bool" where
  "stats_ok s \<longleftrightarrow>
     length (hold_hist s) = st_ok s + st_conflict s \<and> st_second_ok s \<le> length (second_hist s) \<and>
     length (second_hist s) \<le> st_ok s"

lemma second_op_stats:
  assumes "second_op X K send E secret seat_no scenario hold_ref s w = (s', w')"
  shows "hold_hist s' = hold_hist s" and "replies s' = replies s" and "st_ok s' = st_ok s"
    and "st_conflict s' = st_conflict s"
    and "second_hist s' = second_hist s \<and> st_second_ok s' = st_second_ok s \<or>
      length (second_hist s') = Suc (length (second_hist s)) \<and> st_second_ok s' \<le> Suc (st_second_ok s)"
  using assms by (auto simp: second_op_def Let_def split: if_splits option.splits prod.splits)

lemma hold_op_stats:
  assumes "hold_op X K parse send E secret trip_id seat_no s w = (x, s', w')"
  shows "second_hist s' = second_hist s" and "st_second_ok s' = st_second_ok s"
    and "st_ok s' = st_ok s + (if x = None then 0 else 1)"
    and "length (hold_hist s') + st_ok s + st_conflict s = length (hold_hist s) + st_ok s' + st_conflict s'"
    and "replies s \<le> replies s'" and "replies s' \<le> Suc (replies s)"
  using assms
  by (auto simp: hold_op_def Let_def split: if_splits option.splits prod.splits)

text \<open>A reply is counted unless the request could not be built or a success has no JSON body.\<close>

definition accounted :: "ext \<Rightarrow> crypto \<Rightarrow> (string \<Rightarrow> json option) \<Rightarrow> 'w service \<Rightarrow> string \<Rightarrow> bool" where
  "accounted X K parse send secret \<longleftrightarrow>
     (\<forall>j. json_to_string X j \<noteq> None) \<and> (\<forall>m. hmac_sha256 K secret m \<noteq> None) \<and>
     (\<forall>rq w r w1. send rq w = (Some r, w1) \<longrightarrow> is_success_status (rs_status r) \<longrightarrow> Option.bind (rs_body r) parse \<noteq> None)"

lemma sign_Some: "hmac_sha256 K secret m \<noteq> None \<Longrightarrow>
   m = show_i64 t @ ''.'' @ to_uppercase method @ ''.'' @ path @ ''.'' @ hex_encode K (sha256 K body) \<Longrightarrow>
   \<exists>hs. sign K t method path body secret = Some hs"
  by (auto simp: sign_def Let_def)

lemma hold_op_counts:
  assumes "accounted X K parse send secret"
    and "hold_op X K parse send E secret trip_id seat_no s w = (x, s', w')"
  shows "replies s' = Suc (replies s)"
proof -
  obtain body where body: "json_to_string X (hold_payload X trip_id seat_no) = Some body"
    using assms(1) unfolding accounted_def by blast
  obtain hs where hs: "sign K (sign_now1 E) ''POST'' ''/api/v1/holds'' body secret = Some hs"
    using assms(1) sign_Some [OF _ refl] unfolding accounted_def by blast
  obtain resp w1 where send: "send (post_message ''/api/v1/holds'' hs (uuid_to_string X (idem1 E)) body) w = (resp, w1)"
    by (metis surj_pair)
  show ?thesis
  proof (cases "\<exists>r. resp = Some r \<and> is_success_status (rs_status r)")
    case True
    then obtain r where r: "resp = Some r" "is_success_status (rs_status r)" by blast
    then obtain v where "Option.bind (rs_body r) parse = Some v"
      using assms(1) send unfolding accounted_def by blast
    with assms(2) body hs send r show ?thesis by (auto simp: hold_op_def Let_def)
  next
    case False
    with assms(2) body hs send show ?thesis
      by (cases resp) (auto simp: hold_op_def split: if_splits)
  qed
qed

section \<open>The server understands the client\<close>

text \<open>\<open>serde_json\<close> reads back what it wrote.\<close>

definition json_exact :: "ext \<Rightarrow> web_ext \<Rightarrow> bool" where
  "json_exact X W \<longleftrightarrow> (\<forall>j b. json_to_string X j = Some b \<longrightarrow> read_json W b = Inr j)"

definition loadtest_request :: "uuid \<Rightarrow> string \<Rightarrow> seat_hold_request" where
  "loadtest_request trip_id seat_no =
     \<lparr>req_trip_id = trip_id, req_seat_no = seat_no, req_leg_indexes = [1],
      req_operator_id = ''loadtest-'' @ seat_no, req_ttl_class = Short\<rparr>"

lemma decode_hold_payload:
  assumes "wire_strings_ok X"
  shows "decode_hold_request X (hold_payload X trip_id seat_no) = Some (loadtest_request trip_id seat_no)"
  using wire_strings_okD(1) [OF assms]
  by (simp add: decode_hold_request_def hold_payload_def de_uuid_def as_ttl_class_def ttl_class_of_string_def
      loadtest_request_def)

text \<open>
  The server understands the load test: the hold that an operation sends, to a server that
  shares its secret and whose clock is within the skew, passes the authentication as service
  \<open>loadtest\<close>, is routed and decoded, and ends in one call of the engine that asks for the
  operation's seat, leg 1 and the short TTL of the server.
\<close>

theorem loadtest_hold_understood:
  assumes "crypto_ok K" and "wire_strings_ok X" and "json_exact X W" and "json_content_type W ''application/json''"
    and "json_to_string X (hold_payload X trip_id seat_no) = Some body" and "length body \<le> MAX_BODY_BYTES"
    and "sign K t ''POST'' ''/api/v1/holds'' body (hmac_secret (auth A)) = Some hs"
    and "skew_exceeded (overflow_checks (auth A)) (hmac_skew_secs (auth A)) now t = Some False"
    and "allowed_service_ids (auth A) = [] \<or> ''loadtest'' \<in> set (allowed_service_ids (auth A))"
    and "trim seat_no \<noteq> []"
  shows "\<exists>fw. forwarded K (auth A) now (post_message ''/api/v1/holds'' hs idem body) fw \<and>
    rq_identity fw = Some ''loadtest'' \<and>
    routes X W A V collate P fw w =
      finish X (answer (\<lambda>r. (hold_status r, hold_result_to_json X r))
        (atomic_hold X V P (loadtest_request trip_id seat_no) (sint (ttl_short_secs A)) w))"
proof -
  let ?rq = "post_message ''/api/v1/holds'' hs idem body"
  let ?fw = "?rq\<lparr>rq_body := Some body, rq_identity := Some ''loadtest''\<rparr>"
  obtain svc ts sig where hs: "hs = (svc, ts, sig)" by (cases hs)
  have "authentic K (auth A) now ?rq ''loadtest'' body"
    by (rule sign_authentic [OF assms(1) _ assms(8) _ assms(6,9), where svc = svc and ts = ts and sig = sig])
      (use assms(7) in \<open>simp_all add: post_message_def message_def signed_headers_def hs\<close>)
  then have fw: "forwarded K (auth A) now ?rq ?fw"
    by (auto simp: forwarded_def post_message_def message_def)
  have ct: "list_all visible ''application/json''" by code_simp
  have "extract_json W (decode_hold_request X) ?fw = Inr (loadtest_request trip_id seat_no)"
    using assms(3-6) ct decode_hold_payload [OF assms(2)]
    by (simp add: extract_json_def post_message_def message_def header_str_def json_exact_def MAX_BODY_BYTES_def)
  moreover have "match_route (rq_path ?fw) = Some Holds" "rq_method ?fw = endpoint_method Holds"
    using sample_post_route(1) by (simp_all add: post_message_def message_def sample_post_def)
  ultimately have "routes X W A V collate P ?fw w =
      finish X (post_hold X A V P (loadtest_request trip_id seat_no) w)"
    by (simp add: routes_at handle_def)
  also have "\<dots> = finish X (answer (\<lambda>r. (hold_status r, hold_result_to_json X r))
        (atomic_hold X V P (loadtest_request trip_id seat_no) (sint (ttl_short_secs A)) w))"
    using assms(10) by (simp add: post_hold_def loadtest_request_def)
  finally show ?thesis using fw by (intro exI [of _ ?fw]) simp
qed

definition echo_web :: web_ext where
  "echo_web =
     \<lparr>json_content_type = (\<lambda>c. c = ''application/json''),
      read_json = (\<lambda>b. Inr (hold_payload sample_ext 1 ''1A'')), percent_decode = Some, rejection_text = (\<lambda>_. [])\<rparr>"

definition echo_ext :: ext where
  "echo_ext = sample_ext\<lparr>json_to_string := (\<lambda>j. if j = hold_payload sample_ext 1 ''1A'' then Some ''{}'' else None)\<rparr>"

lemma echo_ext_ok [simp]: "wire_strings_ok echo_ext" "json_exact echo_ext echo_web"
  "hold_payload echo_ext 1 ''1A'' = hold_payload sample_ext 1 ''1A''"
  using sample_ext_ok(1) by (simp_all add: echo_ext_def wire_strings_ok_def json_exact_def echo_web_def hold_payload_def)

theorem loadtest_hold_understood_witness:
  "\<exists>hs fw. sign sample_crypto 1000 ''POST'' ''/api/v1/holds'' ''{}'' ''0123456789abcdef'' = Some hs \<and>
     forwarded sample_crypto sample_auth 1020 (post_message ''/api/v1/holds'' hs ''k'' ''{}'') fw \<and>
     routes echo_ext echo_web sample_app (sample_env 7 0) id recording_publish fw (fresh_session sample_db [], []) =
       finish echo_ext (answer (\<lambda>r. (hold_status r, hold_result_to_json echo_ext r))
         (atomic_hold echo_ext (sample_env 7 0) recording_publish (loadtest_request 1 ''1A'') 300
            (fresh_session sample_db [], [])))"
proof -
  let ?s = "sign sample_crypto 1000 ''POST'' ''/api/v1/holds'' ''{}'' (hmac_secret (auth sample_app))"
  obtain hs where hs: "?s = Some hs" by (auto simp: sign_def sample_crypto_def Let_def)
  have skew: "skew_exceeded (overflow_checks (auth sample_app)) (hmac_skew_secs (auth sample_app)) 1020 1000 = Some False"
    by code_simp
  have "trim ''1A'' = ''1A''" by (rule trim_id) (simp add: graphic_def)
  moreover have "json_to_string echo_ext (hold_payload echo_ext 1 ''1A'') = Some ''{}''"
    unfolding echo_ext_ok by (simp add: echo_ext_def)
  moreover have "json_content_type echo_web ''application/json''" by (simp add: echo_web_def)
  moreover have "sint (300 :: 64 word) = 300" by code_simp
  ultimately show ?thesis
    using loadtest_hold_understood [OF sample_crypto_ok echo_ext_ok(1,2) _ _ _ hs skew, of 1 "''1A''" "''k''"
        "sample_env 7 0" id recording_publish "(fresh_session sample_db [], [])"] hs
    by (auto simp: sample_app_def sample_auth_def MAX_BODY_BYTES_def)
qed

end
