(* ===== verification/Loadtest_Main.thy ===== *)
theory Loadtest_Main
  imports Loadtest
begin

text \<open>
  \<open>main\<close> of the load test: its arguments, the synthetic seats it seeds and cleans up, the health
  check, the operations as tasks under a semaphore in any interleaving, and the report. That
  with permits and seats the tasks cannot get stuck, that the loop panics without seats, that
  the totals account for the operations in every interleaving, that a finished run leaves none of its rows, and that a failed health check leaves all of them.
\<close>

section \<open>Arguments\<close>

record args =
  arg_engine_url :: string
  arg_hmac_secret :: string
  arg_database_url :: string
  arg_seats :: "64 word"
  arg_concurrency :: "64 word"
  arg_ops :: "64 word"
  arg_scenario :: string
  arg_trip_id :: "uuid option"

text \<open>
  \<open>given\<close> is what clap finds for an argument, on the command line or in the environment;
  \<open>None\<close> as the result is a usage error.
\<close>

definition usize_or :: "nat \<Rightarrow> string option \<Rightarrow> 64 word option" where
  "usize_or dflt v =
     (case v of None \<Rightarrow> Some (of_nat dflt) | Some t \<Rightarrow> map_option word_of_int (parse_int 0 (2 ^ 64 - 1) t))"

definition parse_args :: "ext \<Rightarrow> (string \<Rightarrow> string option) \<Rightarrow> args option" where
  "parse_args X given =
     Option.bind (given ''RESERVATION_ENGINE_HMAC_SECRET'') (\<lambda>secret.
     Option.bind (given ''ENGINE_DATABASE_URL'') (\<lambda>url.
     Option.bind (usize_or 200 (given ''SEATS'')) (\<lambda>seats.
     Option.bind (usize_or 32 (given ''CONCURRENCY'')) (\<lambda>concurrency.
     Option.bind (usize_or 2000 (given ''OPS'')) (\<lambda>ops.
     Option.bind (case given ''TRIP_ID'' of None \<Rightarrow> Some None | Some t \<Rightarrow> map_option Some (uuid_parse X t)) (\<lambda>trip.
       Some \<lparr>arg_engine_url = (case given ''ENGINE_URL'' of None \<Rightarrow> ''http://localhost:8000'' | Some u \<Rightarrow> u),
             arg_hmac_secret = secret, arg_database_url = url, arg_seats = seats,
             arg_concurrency = concurrency, arg_ops = ops,
             arg_scenario = (case given ''SCENARIO'' of None \<Rightarrow> ''hold-release'' | Some c \<Rightarrow> c),
             arg_trip_id = trip\<rparr>))))))"

section \<open>Seats\<close>

text \<open>
  What the run reads from its surroundings: whether the pool connects and the client builds,
  the newest row of \<open>trips\<close> (a table of the terminal) or the error of reading it, the hexadecimal
  digits of a fresh UUID, row ids, the size of a task handle, what each operation reads, the JSON reader of the client,
  and the texts and quantiles of the report.
\<close>

record load_env =
  connects :: bool
  newest_trip :: "sqlx_error + uuid option"
  run_digits :: string
  seat_ids :: "nat \<Rightarrow> uuid"
  client_builds :: bool
  handle_bytes :: nat
  op_envs :: "nat \<Rightarrow> op_env"
  read_reply :: "string \<Rightarrow> json option"
  elapsed_text :: string
  rate_text :: "nat \<Rightarrow> string"
  value_at_quantile :: "nat list \<Rightarrow> nat \<Rightarrow> nat"

definition choose_trip :: "load_env \<Rightarrow> args \<Rightarrow> uuid option dbm" where
  "choose_trip L A =
     (case arg_trip_id A of
        Some t \<Rightarrow> qret (Some t)
      | None \<Rightarrow> pool_exec (\<lambda>d. map_sum id (\<lambda>row. (row, d)) (newest_trip L)))"

definition seat_prefix :: "load_env \<Rightarrow> string" where
  "seat_prefix L = ''LT-'' @ take 8 (run_digits L) @ ''-''"

text \<open>\<open>format!("{}{:04}", prefix, i)\<close>\<close>

definition seat_name :: "string \<Rightarrow> nat \<Rightarrow> string" where
  "seat_name pre i = (let ds = show_nat i in pre @ replicate (4 - length ds) CHR ''0'' @ ds)"

text \<open>\<open>INSERT INTO seat_inventory ... VALUES ($1, $2, 1, false, NULL)\<close>, subject to the unique index.\<close>

definition insert_seat :: "uuid \<Rightarrow> uuid \<Rightarrow> string \<Rightarrow> unit stmt" where
  "insert_seat rid trip seat d =
     (if row_at d (trip, seat, 1) \<noteq> None then Inl (UniqueViolation ''uniq_seat_inv_trip_seat_leg'')
      else Inr ((), d\<lparr>seat_inventory := seat_inventory d @
        [\<lparr>inv_id = rid, inv_trip = trip, inv_seat = seat, inv_leg = 1, inv_booked = False, inv_hold = None\<rparr>]\<rparr>))"

fun insert_seats :: "(nat \<Rightarrow> uuid) \<Rightarrow> uuid \<Rightarrow> string \<Rightarrow> nat list \<Rightarrow> unit dbm" where
  "insert_seats ids trip pre [] = qret ()"
| "insert_seats ids trip pre (i # is) =
     qbind (tx_exec (insert_seat (ids i) trip (seat_name pre i))) (\<lambda>_. insert_seats ids trip pre is)"

definition seed_txn :: "(nat \<Rightarrow> uuid) \<Rightarrow> uuid \<Rightarrow> string \<Rightarrow> nat \<Rightarrow> unit dbm" where
  "seed_txn ids trip pre seats =
     qbind tx_begin (\<lambda>_.
     qbind (insert_seats ids trip pre [0 ..< seats]) (\<lambda>_.
     tx_commit))"

text \<open>\<open>DELETE ... WHERE trip_id = $1 AND seat_no LIKE 'prefix%'\<close>; the prefix has no wildcard.\<close>

definition delete_run_holds :: "uuid \<Rightarrow> string \<Rightarrow> db \<Rightarrow> db" where
  "delete_run_holds trip pre d =
     d\<lparr>seat_holds := delete_where (\<lambda>q. hr_trip q = trip \<and> prefix pre (hr_seat q)) (seat_holds d)\<rparr>"

definition delete_run_seats :: "uuid \<Rightarrow> string \<Rightarrow> db \<Rightarrow> db" where
  "delete_run_seats trip pre d =
     d\<lparr>seat_inventory := delete_where (\<lambda>r. inv_trip r = trip \<and> prefix pre (inv_seat r)) (seat_inventory d)\<rparr>"

definition cleanup :: "uuid \<Rightarrow> string \<Rightarrow> unit dbm" where
  "cleanup trip pre =
     qbind (pool_exec (command (delete_run_holds trip pre))) (\<lambda>_.
     pool_exec (command (delete_run_seats trip pre)))"

section \<open>The tasks\<close>

text \<open>
  The loop of \<open>main\<close> waits for a permit of the semaphore, computes the seat of the operation
  (\<open>i % args.seats\<close> panics when there are no seats, which ends \<open>main\<close>: \<open>halted\<close>) and spawns a task that
  holds the permit to its end. A task owns its seat; its two exchanges with the server, each
  with the counting that follows, are its steps, and the totals only grow by additions under
  the mutex. Which task moves next is a schedule; a choice that is not possible is skipped.
\<close>

datatype task = AtHold string | AtSecond string string | Ended

record 'w load_state =
  tasks :: "task list"
  halted :: bool
  totals :: stats
  world :: 'w

datatype choice = Spawn | Step nat

definition permits_out :: "task list \<Rightarrow> nat" where
  "permits_out ts = length (filter (\<lambda>t. t \<noteq> Ended) ts)"

definition spawn :: "args \<Rightarrow> string \<Rightarrow> 'w load_state \<Rightarrow> 'w load_state" where
  "spawn A pre st =
     (let i = length (tasks st)
      in if halted st \<or> unat (arg_ops A) \<le> i \<or> unat (arg_concurrency A) \<le> permits_out (tasks st) then st
         else if arg_seats A = 0 then st\<lparr>halted := True\<rparr>
         else st\<lparr>tasks := tasks st @ [AtHold (seat_name pre (i mod unat (arg_seats A)))]\<rparr>)"

definition task_step ::
  "ext \<Rightarrow> crypto \<Rightarrow> load_env \<Rightarrow> 'w service \<Rightarrow> args \<Rightarrow> uuid \<Rightarrow> nat \<Rightarrow> 'w load_state \<Rightarrow> 'w load_state" where
  "task_step X K L send A trip i st =
     (if halted st \<or> length (tasks st) \<le> i then st
      else
      (case tasks st ! i of
         AtHold seat_no \<Rightarrow>
           (case hold_op X K (read_reply L) send (op_envs L i) (arg_hmac_secret A) trip seat_no (totals st) (world st) of
              (x, s, w) \<Rightarrow>
                st\<lparr>tasks := (tasks st)[i := (case x of None \<Rightarrow> Ended | Some hold_ref \<Rightarrow> AtSecond seat_no hold_ref)],
                   totals := s, world := w\<rparr>)
       | AtSecond seat_no hold_ref \<Rightarrow>
           (case second_op X K send (op_envs L i) (arg_hmac_secret A) seat_no (arg_scenario A) hold_ref (totals st) (world st) of
              (s, w) \<Rightarrow> st\<lparr>tasks := (tasks st)[i := Ended], totals := s, world := w\<rparr>)
       | Ended \<Rightarrow> st))"

fun run_choice ::
  "ext \<Rightarrow> crypto \<Rightarrow> load_env \<Rightarrow> 'w service \<Rightarrow> args \<Rightarrow> uuid \<Rightarrow> string \<Rightarrow> choice \<Rightarrow> 'w load_state \<Rightarrow> 'w load_state" where
  "run_choice X K L send A trip pre Spawn st = spawn A pre st"
| "run_choice X K L send A trip pre (Step i) st = task_step X K L send A trip i st"

definition no_tasks :: "'w \<Rightarrow> 'w load_state" where
  "no_tasks w = \<lparr>tasks = [], halted = False, totals = new_stats, world = w\<rparr>"

text \<open>
  The operations of a run; \<open>None\<close> is a panic before the first: \<open>Semaphore::new\<close> refuses more than
  \<open>usize::MAX >> 3\<close> permits, \<open>Vec::with_capacity\<close> more than \<open>isize::MAX\<close> bytes of handles.
\<close>

definition panics_early :: "load_env \<Rightarrow> args \<Rightarrow> bool" where
  "panics_early L A \<longleftrightarrow> 2 ^ 61 \<le> unat (arg_concurrency A) \<or> 2 ^ 63 \<le> handle_bytes L * unat (arg_ops A)"

definition run_tasks ::
  "ext \<Rightarrow> crypto \<Rightarrow> load_env \<Rightarrow> 'w service \<Rightarrow> args \<Rightarrow> uuid \<Rightarrow> string \<Rightarrow> choice list \<Rightarrow> 'w \<Rightarrow> 'w load_state option" where
  "run_tasks X K L send A trip pre sched w =
     (if panics_early L A then None
      else Some (fold (run_choice X K L send A trip pre) sched (no_tasks w)))"

text \<open>\<open>join_all\<close> returns.\<close>

definition joined :: "args \<Rightarrow> 'w load_state \<Rightarrow> bool" where
  "joined A st \<longleftrightarrow> \<not> halted st \<and> length (tasks st) = unat (arg_ops A) \<and> list_all (\<lambda>t. t = Ended) (tasks st)"

section \<open>The report\<close>

definition pad :: "nat \<Rightarrow> string \<Rightarrow> string" where
  "pad n t = t @ replicate (n - length t) CHR '' ''"

definition quantiles :: "load_env \<Rightarrow> string \<Rightarrow> nat list \<Rightarrow> string" where
  "quantiles L label h =
     pad 8 (label @ '':'') @ '' p50='' @ show_nat (value_at_quantile L h 50) @ ''ms  p95='' @
     show_nat (value_at_quantile L h 95) @ ''ms  p99='' @ show_nat (value_at_quantile L h 99) @ ''ms''"

definition print_hist :: "load_env \<Rightarrow> string \<Rightarrow> nat list \<Rightarrow> nat \<Rightarrow> nat \<Rightarrow> string" where
  "print_hist L label h ok confl =
     quantiles L label h @ ''   ok='' @ show_nat ok @ ''  conflict='' @ show_nat confl"

definition print_hist_simple :: "load_env \<Rightarrow> string \<Rightarrow> nat list \<Rightarrow> nat \<Rightarrow> string" where
  "print_hist_simple L label h ok = quantiles L label h @ ''   ok='' @ show_nat ok"

definition report :: "load_env \<Rightarrow> args \<Rightarrow> stats \<Rightarrow> string list" where
  "report L A s =
     (let total_ops = st_ok s + st_conflict s + st_errors s;
          label = (if arg_scenario A = ''hold-confirm'' then ''confirm'' else ''release'')
      in [[],
          ''[done] '' @ show_nat total_ops @ '' ops in '' @ elapsed_text L @ ''s = '' @ rate_text L total_ops @ '' req/s'',
          print_hist L ''hold'' (hold_hist s) (st_ok s) (st_conflict s),
          print_hist_simple L label (second_hist s) (st_second_ok s),
          ''errors:  '' @ show_nat (st_errors s)])"

section \<open>The run\<close>

text \<open>
  The database of the load test is the server's: both work on one session. A run ends with an
  error, a panic or a report, waits forever for a permit, or is still running when the
  schedule ends.
\<close>

datatype load_end = LoadError | LoadPanic | LoadStuck | LoadRunning | LoadDone "string list"

definition drive ::
  "ext \<Rightarrow> crypto \<Rightarrow> load_env \<Rightarrow> (session \<times> 'p) service \<Rightarrow> args \<Rightarrow> choice list \<Rightarrow> uuid \<Rightarrow> string \<Rightarrow>
   session \<times> 'p \<Rightarrow> load_end \<times> session \<times> 'p" where
  "drive X K L send A sched trip pre w =
     (case run_tasks X K L send A trip pre sched w of
        None \<Rightarrow> (LoadPanic, w)
      | Some st \<Rightarrow>
          (case world st of (s1, p1) \<Rightarrow>
             if halted st then (LoadPanic, s1, p1)
             else if joined A st then
               (case cleanup trip pre s1 of
                  (Inl e, s2) \<Rightarrow> (LoadError, s2, p1)
                | (Inr u, s2) \<Rightarrow> (LoadDone (report L A (totals st)), s2, p1))
             else if arg_concurrency A = 0 then (LoadStuck, s1, p1)
             else (LoadRunning, s1, p1)))"

definition health_request :: http_request where
  "health_request = message ''GET'' ''/api/v1/healthz'' [] []"

definition check_health :: "(session \<times> 'p) service \<Rightarrow> session \<times> 'p \<Rightarrow> bool \<times> session \<times> 'p" where
  "check_health send w =
     (case send health_request w of
        (None, w1) \<Rightarrow> (False, w1)
      | (Some r, w1) \<Rightarrow> (is_success_status (rs_status r), w1))"

definition load_main ::
  "ext \<Rightarrow> crypto \<Rightarrow> load_env \<Rightarrow> (session \<times> 'p) service \<Rightarrow> args \<Rightarrow> choice list \<Rightarrow>
   session \<times> 'p \<Rightarrow> load_end \<times> session \<times> 'p" where
  "load_main X K L send A sched w =
     (let (s, p) = w; pre = seat_prefix L
      in if \<not> connects L then (LoadError, w)
      else
      (case choose_trip L A s of
         (Inl e, s1) \<Rightarrow> (LoadError, s1, p)
       | (Inr None, s1) \<Rightarrow> (LoadError, s1, p)
       | (Inr (Some trip), s1) \<Rightarrow>
      (case seed_txn (seat_ids L) trip pre (unat (arg_seats A)) s1 of
         (Inl e, s2) \<Rightarrow> (LoadError, s2, p)
       | (Inr u, s2) \<Rightarrow>
      if \<not> client_builds L then (LoadError, s2, p)
      else
      (case check_health send (s2, p) of
         (False, w3) \<Rightarrow> (LoadError, w3)
       | (True, w3) \<Rightarrow> drive X K L send A sched trip pre w3))))"

section \<open>Every interleaving ends and is accounted for\<close>

lemma length_filter_update:
  "i < length xs \<Longrightarrow> length (filter P (xs[i := x])) + (if P (xs ! i) then 1 else 0) =
     length (filter P xs) + (if P x then 1 else 0)"
proof (induction xs arbitrary: i)
  case (Cons y ys)
  then show ?case using Cons.IH [of "i - 1"] by (cases i) simp_all
qed simp

definition at_hold :: "task list \<Rightarrow> nat" where
  "at_hold ts = length (filter (\<lambda>t. \<exists>z. t = AtHold z) ts)"

definition at_second :: "task list \<Rightarrow> nat" where
  "at_second ts = length (filter (\<lambda>t. \<exists>z h. t = AtSecond z h) ts)"

lemma permits_split: "permits_out ts = at_hold ts + at_second ts"
proof (induction ts)
  case (Cons t ts)
  then show ?case by (cases t) (simp_all add: permits_out_def at_hold_def at_second_def)
qed (simp add: permits_out_def at_hold_def at_second_def)

lemma at_update:
  assumes "i < length ts"
  shows "at_hold (ts[i := t]) + (if \<exists>z. ts ! i = AtHold z then 1 else 0) = at_hold ts + (if \<exists>z. t = AtHold z then 1 else 0)"
    and "at_second (ts[i := t]) + (if \<exists>z h. ts ! i = AtSecond z h then 1 else 0) =
      at_second ts + (if \<exists>z h. t = AtSecond z h then 1 else 0)"
  unfolding at_hold_def at_second_def
  using length_filter_update [OF assms, of "\<lambda>t. \<exists>z. t = AtHold z" t]
    length_filter_update [OF assms, of "\<lambda>t. \<exists>z h. t = AtSecond z h" t] by simp_all

text \<open>The invariant of the tasks; \<open>full\<close> is whether every reply is counted.\<close>

definition tasks_ok :: "args \<Rightarrow> bool \<Rightarrow> 'w load_state \<Rightarrow> bool" where
  "tasks_ok A full st \<longleftrightarrow>
     (let s = totals st; ts = tasks st in
        length ts \<le> unat (arg_ops A) \<and> permits_out ts \<le> unat (arg_concurrency A) \<and>
        (arg_seats A = 0 \<longrightarrow> ts = []) \<and> (halted st \<longrightarrow> arg_seats A = 0 \<and> arg_ops A \<noteq> 0) \<and>
        length (hold_hist s) = st_ok s + st_conflict s \<and>
        st_second_ok s \<le> length (second_hist s) \<and> length (second_hist s) + at_second ts \<le> st_ok s \<and>
        replies s + at_hold ts \<le> length ts \<and> (full \<longrightarrow> replies s + at_hold ts = length ts))"

lemma tasks_ok_choice:
  assumes "tasks_ok A full st" and "full \<Longrightarrow> accounted X K (read_reply L) send (arg_hmac_secret A)"
  shows "tasks_ok A full (run_choice X K L send A trip pre c st)"
proof (cases c)
  case Spawn
  have "unat (arg_ops A) \<le> 0" if "arg_ops A = 0" using that by simp
  with Spawn assms(1) show ?thesis
    by (auto simp: tasks_ok_def spawn_def Let_def permits_out_def at_hold_def at_second_def)
next
  case (Step i)
  show ?thesis
  proof (cases "\<not> halted st \<and> i < length (tasks st) \<and> tasks st ! i \<noteq> Ended")
    case True
    then have i: "\<not> halted st" "i < length (tasks st)" by simp_all
    show ?thesis
    proof (cases "tasks st ! i")
      case (AtHold z)
      obtain x s w where op: "hold_op X K (read_reply L) send (op_envs L i) (arg_hmac_secret A) trip z (totals st) (world st) = (x, s, w)"
        by (metis surj_pair)
      have count: "full \<Longrightarrow> replies s = Suc (replies (totals st))" using hold_op_counts [OF assms(2) op] .
      show ?thesis
        using assms(1) hold_op_stats [OF op] count at_update [OF i(2), of Ended] at_update [OF i(2), of "AtSecond z (the x)"]
        by (cases x) (auto simp: Step tasks_ok_def task_step_def Let_def i AtHold op permits_split)
    next
      case (AtSecond z h)
      obtain s w where op: "second_op X K send (op_envs L i) (arg_hmac_secret A) z (arg_scenario A) h (totals st) (world st) = (s, w)"
        by (metis surj_pair)
      show ?thesis
        using assms(1) second_op_stats [OF op] at_update [OF i(2), of Ended]
        by (auto simp: Step tasks_ok_def task_step_def Let_def i AtSecond op permits_split)
    qed (use True in simp)
  qed (use assms(1) Step in \<open>auto simp: task_step_def\<close>)
qed

lemma tasks_ok_fold:
  assumes "tasks_ok A full st" and "full \<Longrightarrow> accounted X K (read_reply L) send (arg_hmac_secret A)"
  shows "tasks_ok A full (fold (run_choice X K L send A trip pre) sched st)"
  using assms(1)
  by (induction sched arbitrary: st) (simp_all add: tasks_ok_choice [OF _ assms(2)])

text \<open>What is left to do, in steps: three for a task to come, two or one for a task that runs.\<close>

definition steps_left :: "args \<Rightarrow> 'w load_state \<Rightarrow> nat" where
  "steps_left A st = 3 * (unat (arg_ops A) - length (tasks st)) + 2 * at_hold (tasks st) + at_second (tasks st)"

lemma some_choice:
  assumes "length (tasks st) \<le> unat (arg_ops A)" and "\<not> joined A st" and "0 < unat (arg_concurrency A)"
    and "\<not> halted st" and "arg_seats A \<noteq> 0"
  shows "\<exists>c. steps_left A (run_choice X K L send A trip pre c st) < steps_left A st \<and>
    \<not> halted (run_choice X K L send A trip pre c st)"
proof (cases "\<exists>i < length (tasks st). tasks st ! i \<noteq> Ended")
  case True
  then obtain i where i: "i < length (tasks st)" "tasks st ! i \<noteq> Ended" by blast
  have "steps_left A (task_step X K L send A trip i st) < steps_left A st \<and> \<not> halted (task_step X K L send A trip i st)"
  proof (cases "tasks st ! i")
    case (AtHold z)
    obtain x s w where "hold_op X K (read_reply L) send (op_envs L i) (arg_hmac_secret A) trip z (totals st) (world st) = (x, s, w)"
      by (metis surj_pair)
    then show ?thesis
      using i assms(4) at_update [OF i(1), of Ended] at_update [OF i(1), of "AtSecond z (the x)"]
      by (cases x) (simp_all add: AtHold task_step_def steps_left_def)
  next
    case (AtSecond z h)
    then show ?thesis
      using i assms(4) at_update [OF i(1), of Ended] by (simp add: task_step_def steps_left_def split: prod.split)
  qed (use i in simp)
  then show ?thesis by (metis run_choice.simps(2))
next
  case False
  then have ended: "list_all (\<lambda>t. t = Ended) (tasks st)" by (auto simp: list_all_length)
  then have "permits_out (tasks st) = 0" by (simp add: permits_out_def list_all_iff)
  moreover have "length (tasks st) < unat (arg_ops A)" using assms(1,2,4) ended by (auto simp: joined_def)
  ultimately have "steps_left A (spawn A pre st) < steps_left A st \<and> \<not> halted (spawn A pre st)"
    using assms(3-5) by (simp add: spawn_def Let_def steps_left_def at_hold_def at_second_def)
  then show ?thesis by (metis run_choice.simps(1))
qed

lemma can_join:
  assumes "tasks_ok A False st" and "0 < unat (arg_concurrency A)" and "\<not> halted st" and "arg_seats A \<noteq> 0"
  shows "\<exists>more. length more \<le> steps_left A st \<and> joined A (fold (run_choice X K L send A trip pre) more st)"
  using assms(1,3)
proof (induction "steps_left A st" arbitrary: st rule: less_induct)
  case less
  show ?case
  proof (cases "joined A st")
    case True
    then show ?thesis by (intro exI [of _ "[]"]) simp
  next
    case False
    have "length (tasks st) \<le> unat (arg_ops A)" using less.prems(1) by (simp add: tasks_ok_def Let_def)
    from some_choice [OF this False assms(2) less.prems(2) assms(4), of X K L send trip pre] obtain c where
      c: "steps_left A (run_choice X K L send A trip pre c st) < steps_left A st"
        "\<not> halted (run_choice X K L send A trip pre c st)" by blast
    have "tasks_ok A False (run_choice X K L send A trip pre c st)" using tasks_ok_choice [OF less.prems(1)] by blast
    from less.hyps [OF c(1) this c(2)] obtain more where
      "length more \<le> steps_left A (run_choice X K L send A trip pre c st)"
      "joined A (fold (run_choice X K L send A trip pre) more (run_choice X K L send A trip pre c st))" by blast
    with c(1) show ?thesis by (intro exI [of _ "c # more"]) simp
  qed
qed

text \<open>
  C40. The totals of a load test account for its operations, in every interleaving of the tasks
  and for any server: at every point at most \<open>--concurrency\<close> operations are in flight, every
  hold latency belongs to one success or conflict, every second latency to one success, and at
  most one reply is counted per operation. A run that has begun, with a positive concurrency and
  at least one seat, can always be completed, in three steps per operation at most; then
  exactly one reply is counted per operation when every request can be built and every success
  carries a JSON body (a success whose body cannot be read is in no total). Without seats
  no operation is ever spawned: with operations to run, no schedule completes and the first
  turn of the loop that has a permit panics. Without permits no operation is spawned either.
\<close>

theorem loadtest_accounting:
  assumes "run_tasks X K L send A trip pre sched w = Some st" and "s = totals st"
  shows "permits_out (tasks st) \<le> unat (arg_concurrency A) \<and> length (tasks st) \<le> unat (arg_ops A) \<and>
    length (hold_hist s) = st_ok s + st_conflict s \<and> st_second_ok s \<le> length (second_hist s) \<and>
    length (second_hist s) \<le> st_ok s \<and> replies s \<le> length (tasks st) \<and>
    (accounted X K (read_reply L) send (arg_hmac_secret A) \<longrightarrow> joined A st \<longrightarrow> replies s = unat (arg_ops A)) \<and>
    (arg_concurrency A \<noteq> 0 \<longrightarrow> arg_seats A \<noteq> 0 \<longrightarrow>
       (\<exists>more st'. length more \<le> 3 * unat (arg_ops A) \<and>
          run_tasks X K L send A trip pre (sched @ more) w = Some st' \<and> joined A st')) \<and>
    (arg_seats A = 0 \<longrightarrow> arg_ops A \<noteq> 0 \<longrightarrow>
       tasks st = [] \<and> \<not> joined A st \<and> (arg_concurrency A \<noteq> 0 \<longrightarrow> halted (spawn A pre st))) \<and>
    (halted st \<longrightarrow> arg_seats A = 0)"
proof -
  have st: "st = fold (run_choice X K L send A trip pre) sched (no_tasks w)" and early: "\<not> panics_early L A"
    using assms(1) by (simp_all add: run_tasks_def split: if_splits)
  have init: "tasks_ok A full (no_tasks w)" for full
    by (simp add: tasks_ok_def no_tasks_def new_stats_def permits_out_def at_hold_def at_second_def)
  have ok: "tasks_ok A False st" unfolding st by (rule tasks_ok_fold [OF init]) simp
  have full: "tasks_ok A True st" if "accounted X K (read_reply L) send (arg_hmac_secret A)"
    unfolding st by (rule tasks_ok_fold [OF init]) (use that in simp)
  have ended: "at_hold (tasks st) = 0" if "joined A st"
    using that by (auto simp: joined_def at_hold_def list_all_iff filter_empty_conv)
  have "replies s = unat (arg_ops A)" if "accounted X K (read_reply L) send (arg_hmac_secret A)" "joined A st"
    using full [OF that(1)] ended [OF that(2)] that(2) by (simp add: tasks_ok_def Let_def assms(2) joined_def)
  moreover have "\<exists>more st'. length more \<le> 3 * unat (arg_ops A) \<and>
      run_tasks X K L send A trip pre (sched @ more) w = Some st' \<and> joined A st'"
    if some: "arg_concurrency A \<noteq> 0" "arg_seats A \<noteq> 0"
  proof -
    have "permits_out (tasks st) \<le> length (tasks st)" by (simp add: permits_out_def)
    then have tasks_le: "at_hold (tasks st) + at_second (tasks st) \<le> length (tasks st)" "length (tasks st) \<le> unat (arg_ops A)"
      using ok by (simp_all add: tasks_ok_def Let_def permits_split)
    have "0 < unat (arg_concurrency A)" using some(1) by (simp add: unat_gt_0)
    moreover have "\<not> halted st" using ok some(2) by (auto simp: tasks_ok_def Let_def)
    ultimately obtain more where "length more \<le> steps_left A st"
      "joined A (fold (run_choice X K L send A trip pre) more st)" using can_join [OF ok _ _ some(2)] by blast
    moreover have "steps_left A st \<le> 3 * unat (arg_ops A)" using tasks_le by (simp add: steps_left_def)
    ultimately show ?thesis using early st by (intro exI [of _ more]) (simp add: run_tasks_def)
  qed
  moreover have "tasks st = [] \<and> \<not> joined A st \<and> (arg_concurrency A \<noteq> 0 \<longrightarrow> halted (spawn A pre st))"
    if none: "arg_seats A = 0" "arg_ops A \<noteq> 0"
  proof -
    have "tasks st = []" using ok none(1) by (simp add: tasks_ok_def Let_def)
    moreover have "0 < unat (arg_ops A)" using none(2) by (simp add: unat_gt_0)
    moreover have "0 < unat (arg_concurrency A)" if "arg_concurrency A \<noteq> 0" using that by (simp add: unat_gt_0)
    ultimately show ?thesis using none(1) by (auto simp: joined_def spawn_def Let_def permits_out_def)
  qed
  ultimately show ?thesis using ok by (simp add: tasks_ok_def Let_def assms(2))
qed

text \<open>A run of two operations against a server that is always busy.\<close>

definition sample_op :: op_env where
  "sample_op = \<lparr>sign_now1 = 1000, sign_now2 = 1000, idem1 = 1, idem2 = 2, booking = 3, micros1 = 7000, micros2 = 9000\<rparr>"

definition sample_load :: load_env where
  "sample_load =
     \<lparr>connects = True, newest_trip = Inr None, run_digits = ''0123456789'', seat_ids = of_nat, client_builds = True, handle_bytes = 8,
      op_envs = (\<lambda>_. sample_op), read_reply = (\<lambda>_. None), elapsed_text = ''1.00'', rate_text = show_nat,
      value_at_quantile = (\<lambda>h q. 0)\<rparr>"

definition sample_args :: args where
  "sample_args =
     \<lparr>arg_engine_url = [], arg_hmac_secret = ''0123456789abcdef'', arg_database_url = [], arg_seats = 2,
      arg_concurrency = 1, arg_ops = 2, arg_scenario = ''hold-release'', arg_trip_id = Some 1\<rparr>"

definition busy :: "http_request \<Rightarrow> nat \<Rightarrow> http_response option \<times> nat" where
  "busy rq n = (Some \<lparr>rs_status = 409, rs_headers = [], rs_body = None\<rparr>, n + 1)"

lemma busy_hold:
  "hold_op sample_ext sample_crypto parse busy E secret trip seat s w =
     (None, s\<lparr>hold_hist := hold_hist s @ [micros1 E div 1000], st_conflict := st_conflict s + 1\<rparr>, w + 1)"
proof -
  have "\<not> is_success_status 409" by code_simp
  moreover obtain hs where "sign sample_crypto (sign_now1 E) ''POST'' ''/api/v1/holds'' ''{}'' secret = Some hs"
    by (auto simp: sign_def sample_crypto_def Let_def)
  ultimately show ?thesis by (simp add: hold_op_def busy_def sample_ext_def)
qed

theorem loadtest_accounting_witness:
  "\<exists>st. run_tasks sample_ext sample_crypto sample_load busy sample_args 1 ''LT-'' [Spawn, Spawn, Step 0, Spawn, Step 1] 0 = Some st \<and>
     joined sample_args st \<and> replies (totals st) = 2"
proof -
  let ?sched = "[Spawn, Spawn, Step 0, Spawn, Step 1]"
  have early: "\<not> panics_early sample_load sample_args" by (simp add: panics_early_def sample_load_def sample_args_def)
  then obtain st where run: "run_tasks sample_ext sample_crypto sample_load busy sample_args 1 ''LT-'' ?sched 0 = Some st"
    by (simp add: run_tasks_def)
  have "\<not> is_success_status 409" by code_simp
  then have acc: "accounted sample_ext sample_crypto (read_reply sample_load) busy (arg_hmac_secret sample_args)"
    by (simp add: accounted_def sample_ext_def sample_crypto_def busy_def)
  have "joined sample_args st"
    using run early
    by (auto simp: run_tasks_def no_tasks_def spawn_def task_step_def busy_hold permits_out_def joined_def sample_args_def Let_def)
  with loadtest_accounting [OF run refl] acc run show ?thesis by (simp add: sample_args_def)
qed

section \<open>The seats of a run\<close>

definition run_row :: "(nat \<Rightarrow> uuid) \<Rightarrow> uuid \<Rightarrow> string \<Rightarrow> nat \<Rightarrow> inv_row" where
  "run_row ids trip pre i =
     \<lparr>inv_id = ids i, inv_trip = trip, inv_seat = seat_name pre i, inv_leg = 1, inv_booked = False, inv_hold = None\<rparr>"

fun insert_eff :: "(nat \<Rightarrow> uuid) \<Rightarrow> uuid \<Rightarrow> string \<Rightarrow> nat list \<Rightarrow> db \<Rightarrow> sqlx_error + db" where
  "insert_eff ids trip pre [] d = Inr d"
| "insert_eff ids trip pre (i # is) d =
     (case insert_seat (ids i) trip (seat_name pre i) d of
        Inl e \<Rightarrow> Inl e | Inr (_, d1) \<Rightarrow> insert_eff ids trip pre is d1)"

definition seed_eff :: "(nat \<Rightarrow> uuid) \<Rightarrow> uuid \<Rightarrow> string \<Rightarrow> nat \<Rightarrow> db \<Rightarrow> (sqlx_error + unit) \<times> db" where
  "seed_eff ids trip pre n d =
     (case insert_eff ids trip pre [0 ..< n] d of Inl e \<Rightarrow> (Inl e, d) | Inr d' \<Rightarrow> (Inr (), d'))"

lemma insert_seats_Inr:
  "insert_seats ids trip pre is s = (Inr u, s') \<Longrightarrow>
     committed s' = committed s \<and> insert_eff ids trip pre is (work s) = Inr (work s') \<and> (no_faults s \<longrightarrow> no_faults s')"
  by (induction "is" arbitrary: s) (auto simp: dbm_simps dest!: tx_exec_Inr)

lemma insert_seats_Inl:
  "insert_seats ids trip pre is s = (Inl e, s') \<Longrightarrow>
     committed s' = committed s \<and> (no_faults s \<longrightarrow> insert_eff ids trip pre is (work s) = Inl e)"
  by (induction "is" arbitrary: s) (auto simp: dbm_simps dest!: tx_exec_Inr tx_exec_Inl)

interpretation seed_txn: transaction "seed_txn ids trip pre n" "seed_eff ids trip pre n" for ids trip pre n
proof unfold_locales
  show "seed_eff ids trip pre n (committed s) = (Inr x, committed s')" if "seed_txn ids trip pre n s = (Inr x, s')" for s x s'
    using that by (auto simp: seed_txn_def dbm_simps seed_eff_def dest!: tx_begin_Inr insert_seats_Inr tx_commit_Inr)
  show "committed s' = committed s \<or> committed s' = snd (seed_eff ids trip pre n (committed s))"
    if "seed_txn ids trip pre n s = (Inl e, s')" for s e s'
    using that by (auto simp: seed_txn_def dbm_simps seed_eff_def dest!: call_frames insert_seats_Inr insert_seats_Inl)
  show "seed_eff ids trip pre n (committed s) = (Inl e, committed s') \<and> committed s' = committed s"
    if "no_faults s" "seed_txn ids trip pre n s = (Inl e, s')" for s e s'
    using that
    by (auto simp: seed_txn_def dbm_simps seed_eff_def
        dest!: tx_begin_Inr tx_begin_Inl tx_commit_Inl insert_seats_Inr insert_seats_Inl)
qed

lemma seat_name_inj: "seat_name pre i = seat_name pre j \<longleftrightarrow> i = j"
proof
  have zeros: "parse_digits 0 (replicate k CHR ''0'') = Some 0" for k
    by (induction k) (simp_all add: digit_value_def)
  have read: "parse_digits 0 (replicate k CHR ''0'' @ show_nat n) = Some n" for k n
    by (simp add: parse_digits_append zeros parse_digits_show)
  assume "seat_name pre i = seat_name pre j"
  then have "replicate (4 - length (show_nat i)) CHR ''0'' @ show_nat i = replicate (4 - length (show_nat j)) CHR ''0'' @ show_nat j"
    by (simp add: seat_name_def Let_def)
  then show "i = j" using read by (metis option.inject)
qed simp

lemma insert_seat_seeds:
  "insert_seat (ids i) trip (seat_name pre i) d =
     (if row_at d (trip, seat_name pre i, 1) \<noteq> None then Inl (UniqueViolation ''uniq_seat_inv_trip_seat_leg'')
      else Inr ((), seed_row (run_row ids trip pre i) d))"
  by (simp add: insert_seat_def seed_row_def run_row_def)

lemma run_row_simps [simp]:
  "inv_key (run_row ids trip pre i) = (trip, seat_name pre i, 1)"
  "inv_booked (run_row ids trip pre i) = False" "inv_hold (run_row ids trip pre i) = None"
  by (simp_all add: run_row_def inv_key_def)

lemma seat_at_seed_row:
  "row_at d (inv_key r) = None \<Longrightarrow> \<not> inv_booked r \<Longrightarrow> inv_hold r = None \<Longrightarrow>
   seat_at (seed_row r d) k = (if k = inv_key r then Some SFree else seat_at d k)"
  by (auto simp: seed_row_def seat_at_def row_at_def lookup_by_append seat_of_def split: option.split)

lemma insert_eff_seats:
  assumes "insert_eff ids trip pre is d = Inr d'" and "db_ok d"
  shows "db_ok d' \<and> (\<forall>k. seat_at d' k = (if k \<in> (\<lambda>i. (trip, seat_name pre i, 1)) ` set is then Some SFree else seat_at d k))"
  using assms
proof (induction "is" arbitrary: d)
  case (Cons i "is")
  let ?d = "seed_row (run_row ids trip pre i) d"
  have new: "row_at d (trip, seat_name pre i, 1) = None" and rest: "insert_eff ids trip pre is ?d = Inr d'"
    using Cons.prems(1) by (simp_all add: insert_seat_seeds split: if_splits)
  have "db_ok ?d" using db_ok_seed [OF Cons.prems(2), of "run_row ids trip pre i"] new by simp
  from Cons.IH [OF rest this] show ?case
    using new by (simp add: seat_at_seed_row)
qed simp

lemma insert_eff_fresh:
  assumes "distinct is" and "\<forall>i \<in> set is. seat_at d (trip, seat_name pre i, 1) = None"
  shows "\<exists>d'. insert_eff ids trip pre is d = Inr d'"
  using assms
proof (induction "is" arbitrary: d)
  case (Cons i "is")
  have new: "row_at d (trip, seat_name pre i, 1) = None" using Cons.prems(2) by (simp add: seat_at_None)
  have "\<forall>j \<in> set is. seat_at (seed_row (run_row ids trip pre i) d) (trip, seat_name pre j, 1) = None"
    using Cons.prems new by (auto simp: seat_at_seed_row seat_name_inj)
  with Cons.IH [of "seed_row (run_row ids trip pre i) d"] Cons.prems(1) new show ?case
    by (simp add: insert_seat_seeds)
qed simp

text \<open>
  A failed health check leaves the synthetic seats behind: when the server cannot be reached,
  the load test ends with an error after it has committed its seats, and none of its cleanup
  runs. Every one of the \<open>--seats\<close> seats stays in the inventory of a real trip, free for sale.
\<close>

theorem failed_health_check_leaves_seats:
  assumes "db_ok (committed s)" and "no_faults s" and "connects L" and "arg_trip_id A = Some trip"
    and "\<forall>i < unat (arg_seats A). seat_at (committed s) (trip, seat_name (seat_prefix L) i, 1) = None"
    and "\<forall>w. send health_request w = (None, w)"
  shows "\<exists>s'. load_main X K L send A sched (s, p) = (LoadError, s', p) \<and> db_ok (committed s') \<and>
    (\<forall>i < unat (arg_seats A). seat_at (committed s') (trip, seat_name (seat_prefix L) i, 1) = Some SFree)"
proof -
  let ?n = "unat (arg_seats A)" and ?pre = "seat_prefix L"
  obtain d' where d': "insert_eff (seat_ids L) trip ?pre [0 ..< ?n] (committed s) = Inr d'"
    using insert_eff_fresh [of "[0 ..< ?n]" "committed s" trip ?pre "seat_ids L"] assms(5) by auto
  obtain r s2 where seed: "seed_txn (seat_ids L) trip ?pre ?n s = (r, s2)" by (metis surj_pair)
  have "(r, committed s2) = (Inr (), d')"
    using seed_txn.serial [OF assms(2), of "seat_ids L" trip ?pre ?n] by (simp add: seed seed_eff_def d')
  then have "load_main X K L send A sched (s, p) = (LoadError, s2, p)" "committed s2 = d'"
    using assms(3,4,6) seed by (simp_all add: load_main_def choose_trip_def qret_def check_health_def)
  with insert_eff_seats [OF d' assms(1)] show ?thesis by auto
qed

lemma delete_run_seats_ok:
  assumes "db_ok d"
  shows "db_ok (delete_run_seats trip pre (delete_run_holds trip pre d))"
proof -
  let ?d = "delete_run_seats trip pre (delete_run_holds trip pre d)"
  have ok: "schema_ok ?d"
    using assms by (auto simp: db_ok_def schema_ok_def delete_run_seats_def delete_run_holds_def distinct_map_delete_where)
  have "linked ?d" unfolding linked_def
  proof (intro ballI allI impI)
    fix r h assume r: "r \<in> set (seat_inventory ?d)" "inv_hold r = Some h"
    then have r': "r \<in> set (seat_inventory d)" "\<not> (inv_trip r = trip \<and> prefix pre (inv_seat r))"
      by (auto simp: delete_run_seats_def delete_run_holds_def)
    with assms r(2) obtain q where q: "q \<in> set (seat_holds d)" "hr_ref q = h" "hr_booking q = None"
      "in_legs (hr_trip q) (hr_seat q) (hr_legs q) r" unfolding db_ok_def linked_def by blast
    then have "q \<in> set (seat_holds ?d)"
      using r'(2) by (auto simp: in_legs_def delete_run_seats_def delete_run_holds_def)
    with q show "\<exists>q \<in> set (seat_holds ?d). hr_ref q = h \<and> hr_booking q = None \<and> in_legs (hr_trip q) (hr_seat q) (hr_legs q) r"
      by blast
  qed
  moreover have "exclusive ?d" using assms by (auto simp: db_ok_def exclusive_def delete_run_seats_def delete_run_holds_def)
  ultimately show ?thesis using ok by (simp add: db_ok_def)
qed

text \<open>A server that keeps the database consistent, as the real one does.\<close>

definition keeps_db_ok :: "(session \<times> 'p) service \<Rightarrow> bool" where
  "keeps_db_ok send \<longleftrightarrow>
     (\<forall>rq s p. db_ok (committed s) \<longrightarrow> db_ok (committed (fst (snd (send rq (s, p))))))"

lemma keeps_db_ok_router: "keeps_db_ok (\<lambda>rq w. router X W K A collate P (E rq w) rq w)"
  unfolding keeps_db_ok_def by (metis prod.collapse router_db_ok)

lemma keeps_sendD: "keeps_db_ok send \<Longrightarrow> send rq w = (r, w') \<Longrightarrow> db_ok (committed (fst w)) \<Longrightarrow> db_ok (committed (fst w'))"
  unfolding keeps_db_ok_def by (metis fst_conv prod.collapse snd_conv)

lemma keeps_ops:
  assumes "keeps_db_ok send" and "db_ok (committed (fst w))"
  shows "hold_op X K parse send E secret trip seat s w = (x, s', w') \<Longrightarrow> db_ok (committed (fst w'))"
    and "second_op X K send E secret seat scenario h s w = (s', w') \<Longrightarrow> db_ok (committed (fst w'))"
  using assms
  by (auto simp: hold_op_def second_op_def Let_def split: if_splits option.splits prod.splits dest: keeps_sendD)

lemma keeps_choice:
  assumes "keeps_db_ok send" and "db_ok (committed (fst (world st)))"
  shows "db_ok (committed (fst (world (run_choice X K L send A trip pre c st))))"
proof (cases c)
  case (Step i)
  have "db_ok (committed (fst w))" if "hold_op X K (read_reply L) send (op_envs L i) (arg_hmac_secret A) trip z (totals st) (world st) = (x, s, w)"
    for z x s w using keeps_ops(1) [OF assms that] .
  moreover have "db_ok (committed (fst w))" if "second_op X K send (op_envs L i) (arg_hmac_secret A) z (arg_scenario A) g (totals st) (world st) = (y, w)"
    for z g y w using keeps_ops(2) [OF assms that] .
  ultimately show ?thesis using assms(2)
    by (cases "tasks st ! i") (auto simp: Step task_step_def split: prod.split)
qed (use assms(2) in \<open>simp add: spawn_def Let_def\<close>)

lemma keeps_fold:
  assumes "keeps_db_ok send" and "db_ok (committed (fst (world st)))"
  shows "db_ok (committed (fst (world (fold (run_choice X K L send A trip pre) sched st))))"
  using assms(2)
  by (induction sched arbitrary: st) (simp_all add: keeps_choice [OF assms(1)])

text \<open>
  A run of the load test that ends with its report leaves the shared database consistent and
  none of its rows behind, whatever was in flight and in whatever order.
\<close>

theorem loadtest_cleans_up:
  assumes "load_main X K L send A sched (s, p) = (LoadDone lines, s', p')"
    and "keeps_db_ok send" and "db_ok (committed s)"
  shows "db_ok (committed s') \<and>
    (\<exists>trip. (case arg_trip_id A of Some t \<Rightarrow> trip = t | None \<Rightarrow> newest_trip L = Inr (Some trip)) \<and>
       (\<forall>seat leg. prefix (seat_prefix L) seat \<longrightarrow> seat_at (committed s') (trip, seat, leg) = None) \<and>
       (\<forall>h q. hold_at (committed s') h = Some q \<longrightarrow> hr_trip q = trip \<longrightarrow> \<not> prefix (seat_prefix L) (hr_seat q)))"
proof -
  let ?pre = "seat_prefix L"
  obtain trip s1 where trip: "choose_trip L A s = (Inr (Some trip), s1)"
    and "case seed_txn (seat_ids L) trip ?pre (unat (arg_seats A)) s1 of
         (Inl e, s2) \<Rightarrow> False
       | (Inr u, s2) \<Rightarrow>
           (case check_health send (s2, p) of
              (h, w3) \<Rightarrow> h \<and> drive X K L send A sched trip ?pre w3 = (LoadDone lines, s', p'))"
    using assms(1) by (auto simp: load_main_def Let_def split: if_splits prod.splits sum.splits option.splits bool.splits)
  then obtain u s2 w3 where seed: "seed_txn (seat_ids L) trip ?pre (unat (arg_seats A)) s1 = (Inr u, s2)"
    and health: "check_health send (s2, p) = (True, w3)"
    and drive: "drive X K L send A sched trip ?pre w3 = (LoadDone lines, s', p')"
    by (auto split: prod.splits sum.splits)
  have chosen: "case arg_trip_id A of Some t \<Rightarrow> trip = t | None \<Rightarrow> newest_trip L = Inr (Some trip)" "committed s1 = committed s"
    using trip by (auto simp: choose_trip_def qret_def split: option.splits dest!: pool_exec_Inr)
      (cases "newest_trip L"; simp)+
  have "db_ok (committed s2)"
    using seed_txn.replied [OF seed] insert_eff_seats assms(3) chosen(2)
    by (auto simp: seed_eff_def split: sum.splits)
  then have w3: "db_ok (committed (fst w3))"
    using health keeps_sendD [OF assms(2), of health_request "(s2, p)"]
    by (auto simp: check_health_def split: prod.splits option.splits)
  obtain st sa pa where st: "run_tasks X K L send A trip ?pre sched w3 = Some st" "world st = (sa, pa)"
    and "cleanup trip ?pre sa = (Inr (), s')"
    using drive by (auto simp: drive_def split: if_splits prod.splits sum.splits option.splits)
  have sa: "db_ok (committed sa)"
    using keeps_fold [OF assms(2), of "no_tasks w3" X K L A trip ?pre sched] w3 st
    by (auto simp: run_tasks_def no_tasks_def split: if_splits)
  have "\<exists>u. cleanup trip ?pre sa = (Inr u, s')" using \<open>cleanup trip ?pre sa = (Inr (), s')\<close> by blast
  then have s': "committed s' = delete_run_seats trip ?pre (delete_run_holds trip ?pre (committed sa))"
    by (auto simp: cleanup_def dbm_simps dest!: pool_exec_Inr)
  have "seat_at (committed s') (trip, seat, leg) = None" if "prefix ?pre seat" for seat leg
    unfolding s' seat_at_None row_at_None using that by (auto simp: delete_run_seats_def inv_key_def)
  moreover have "\<not> (hr_trip q = trip \<and> prefix ?pre (hr_seat q))" if "hold_at (committed s') h = Some q" for h q
    using lookup_by_SomeD [OF that [unfolded hold_at_def]] by (auto simp: s' delete_run_seats_def delete_run_holds_def)
  ultimately show ?thesis using chosen(1) delete_run_seats_ok [OF sa] s' by auto
qed

end
