(* ===== verification/Locking.thy ===== *)
theory Locking
  imports Engine
begin

text \<open>
  The five transactions of the engine, \<open>run_hold_txn\<close>, \<open>confirm_booking\<close>, \<open>release_hold_by_ref\<close>,
  \<open>cancel_booking_seats\<close> and the reaper's, cut at the row locks they wait for: the step relation,
  the invariant that says what each knows while others run, and that a transaction at its end
  answers and writes as the code does when it runs alone.
\<close>

section \<open>Transactions, locks and steps\<close>

text \<open>
  What the code relies on of PostgreSQL (read committed). A statement determines its rows when
  it starts. A \<open>FOR UPDATE\<close> or an \<open>UPDATE\<close> then locks them one by one, in the order of \<open>ORDER BY\<close> or
  else in any order, waits while another transaction has the lock, and goes on with the last
  committed version of the row, if it still qualifies; \<open>SKIP LOCKED\<close> does not wait. A lock is
  kept until the transaction ends. What a transaction writes is seen by others when it
  commits. So the writes of a transaction that has all its locks and its \<open>COMMIT\<close> are one step.
\<close>

datatype txn =
    HoldTx hold_row
  | ConfirmTx string string time
  | ReleaseTx string
  | CancelTx uuid string "int list"
  | ReapTx time

text \<open>What the transaction returns; \<open>Aborted\<close> is an error before \<open>COMMIT\<close>, a deadlock for example.\<close>

datatype reply =
    HoldReply "hold_failure_reason + unit"
  | Rejected sqlx_error
  | ConfirmReply "string + hold_row"
  | ReleaseReply "hold_row option"
  | CancelReply unit
  | ReapReply "(uuid \<times> string \<times> int list) list"
  | Aborted

text \<open>
  \<open>Locking ks rows\<close>: a hold that has read \<open>rows\<close> and is still to lock \<open>ks\<close>. \<open>AwaitHold\<close>: a hold row
  was found and is still to be locked. \<open>Found qs\<close>: the hold rows \<open>qs\<close> are locked and read.
  \<open>Rows qs ks\<close>: of the inventory rows of the next statement \<open>ks\<close> are still to be locked.
\<close>

datatype tx_state =
    Idle
  | Locking "seat_key list" "(bool \<times> string option) list"
  | AwaitHold
  | Found "hold_row list"
  | Rows "hold_row list" "seat_key list"
  | Replied reply

record system =
  tables :: db
  row_owner :: "seat_key \<Rightarrow> nat option"
  hold_owner :: "string \<Rightarrow> nat option"
  txs :: "nat \<Rightarrow> tx_state"

definition columns :: "db \<Rightarrow> seat_key \<Rightarrow> bool \<times> string option" where
  "columns d k = (case row_at d k of None \<Rightarrow> (False, None) | Some r \<Rightarrow> (inv_booked r, inv_hold r))"

definition lock_order :: "hold_row \<Rightarrow> db \<Rightarrow> seat_key list" where
  "lock_order q d =
     sort_key (\<lambda>(trip, seat, leg). leg)
       (filter (\<lambda>(trip, seat, leg). trip = hr_trip q \<and> seat = hr_seat q \<and> leg \<in> set (hr_legs q))
          (map inv_key (seat_inventory d)))"

text \<open>The hold after its rows are locked: the two checks, or the writes.\<close>

definition after_select :: "hold_row \<Rightarrow> (bool \<times> string option) list \<Rightarrow> db \<Rightarrow> reply \<times> db" where
  "after_select q rows d =
     (if length rows \<noteq> length (hr_legs q) then (HoldReply (Inl IncompleteInventory), d)
      else if conflicting rows then (HoldReply (Inl SeatConflict), d)
      else
        (case insert_hold q (mark_held (hr_trip q) (hr_seat q) (hr_legs q) (hr_ref q) d) of
           Inl e \<Rightarrow> (Rejected e, d)
         | Inr (u, d') \<Rightarrow> (HoldReply (Inr u), d')))"

text \<open>The hold row that a confirmation or a release asks for, and what they answer without it.\<close>

fun wanted :: "txn \<Rightarrow> db \<Rightarrow> hold_row option" where
  "wanted (ConfirmTx h b now) d = select_live_hold h now d"
| "wanted (ReleaseTx h) d = select_active_hold h d"
| "wanted _ d = None"

fun refused :: "txn \<Rightarrow> hold_row option \<Rightarrow> reply option" where
  "refused (ConfirmTx h b now) None = Some (ConfirmReply (Inl ''HOLD_EXPIRED_OR_MISSING''))"
| "refused (ConfirmTx h b now) (Some q) =
     (if hr_booking q \<noteq> None then Some (ConfirmReply (Inl ''HOLD_ALREADY_CONSUMED'')) else None)"
| "refused (ReleaseTx h) None = Some (ReleaseReply None)"
| "refused _ _ = None"

text \<open>The inventory rows that the next statement of a transaction locks.\<close>

fun targeted :: "txn \<Rightarrow> hold_row list \<Rightarrow> inv_row \<Rightarrow> bool" where
  "targeted (CancelTx trip seat legs) qs r = in_legs trip seat legs r"
| "targeted _ qs r = (\<exists>q \<in> set qs. inv_hold r = Some (hr_ref q))"

definition targets :: "txn \<Rightarrow> hold_row list \<Rightarrow> db \<Rightarrow> seat_key set" where
  "targets t qs d = inv_key ` {r \<in> set (seat_inventory d). targeted t qs r}"

text \<open>The writes of a transaction that has its locks, and its answer.\<close>

fun write_all :: "txn \<Rightarrow> hold_row list \<Rightarrow> db \<Rightarrow> reply \<times> db" where
  "write_all (ConfirmTx h b now) qs d = (ConfirmReply (Inr (hd qs)), consume_hold h b (book_held h d))"
| "write_all (ReleaseTx h) qs d = (ReleaseReply (Some (hd qs)), delete_hold h (clear_ref h d))"
| "write_all (CancelTx trip seat legs) qs d = (CancelReply (), clear_legs trip seat legs d)"
| "write_all (ReapTx now) qs d =
     (ReapReply (map (\<lambda>q. (hr_trip q, hr_seat q, hr_legs q)) qs),
      delete_active (map hr_ref qs) (clear_refs (map hr_ref qs) d))"
| "write_all (HoldTx q) qs d = (Aborted, d)"

text \<open>End of a transaction: its locks are given back.\<close>

definition finish_tx :: "nat \<Rightarrow> reply \<Rightarrow> db \<Rightarrow> system \<Rightarrow> system" where
  "finish_tx i r d S =
     S\<lparr>tables := d, row_owner := (\<lambda>k. if row_owner S k = Some i then None else row_owner S k),
       hold_owner := (\<lambda>h. if hold_owner S h = Some i then None else hold_owner S h),
       txs := (txs S)(i := Replied r)\<rparr>"

definition goto :: "nat \<Rightarrow> tx_state \<Rightarrow> system \<Rightarrow> system" where
  "goto i st S = S\<lparr>txs := (txs S)(i := st)\<rparr>"

definition lock_row :: "nat \<Rightarrow> seat_key \<Rightarrow> system \<Rightarrow> system" where
  "lock_row i k S = S\<lparr>row_owner := (row_owner S)(k := Some i)\<rparr>"

definition lock_hold :: "nat \<Rightarrow> string \<Rightarrow> system \<Rightarrow> system" where
  "lock_hold i h S = S\<lparr>hold_owner := (hold_owner S)(h := Some i)\<rparr>"

definition row_free :: "nat \<Rightarrow> seat_key \<Rightarrow> system \<Rightarrow> bool" where
  "row_free i k S \<longleftrightarrow> row_owner S k = None \<or> row_owner S k = Some i"

text \<open>A step of transaction \<open>i\<close>, which runs \<open>Q i\<close>.\<close>

inductive tx_step :: "(nat \<Rightarrow> txn) \<Rightarrow> nat \<Rightarrow> system \<Rightarrow> system \<Rightarrow> bool" for Q i where
  hold_select: "Q i = HoldTx q \<Longrightarrow> txs S i = Idle \<Longrightarrow>
    tx_step Q i S (goto i (Locking (lock_order q (tables S)) []) S)"
| hold_lock: "txs S i = Locking (k # ks) rows \<Longrightarrow> row_free i k S \<Longrightarrow>
    tx_step Q i S (goto i (Locking ks (rows @ [columns (tables S) k])) (lock_row i k S))"
| hold_finish: "Q i = HoldTx q \<Longrightarrow> txs S i = Locking [] rows \<Longrightarrow> hold_owner S (hr_ref q) = None \<Longrightarrow>
    after_select q rows (tables S) = (r, d) \<Longrightarrow> tx_step Q i S (finish_tx i r d S)"
| ref_missing: "txs S i = Idle \<Longrightarrow> wanted (Q i) (tables S) = None \<Longrightarrow> refused (Q i) None = Some r \<Longrightarrow>
    tx_step Q i S (finish_tx i r (tables S) S)"
| ref_wait: "txs S i = Idle \<Longrightarrow> wanted (Q i) (tables S) \<noteq> None \<Longrightarrow> tx_step Q i S (goto i AwaitHold S)"
| ref_refused: "txs S i = AwaitHold \<Longrightarrow> wanted (Q i) (tables S) = w \<Longrightarrow> refused (Q i) w = Some r \<Longrightarrow>
    (\<forall>q. w = Some q \<longrightarrow> hold_owner S (hr_ref q) = None) \<Longrightarrow>
    tx_step Q i S (finish_tx i r (tables S) S)"
| ref_take: "txs S i = AwaitHold \<Longrightarrow> wanted (Q i) (tables S) = Some q \<Longrightarrow> refused (Q i) (Some q) = None \<Longrightarrow>
    hold_owner S (hr_ref q) = None \<Longrightarrow>
    tx_step Q i S (goto i (Found [q]) (lock_hold i (hr_ref q) S))"
| reap_start: "Q i = ReapTx now \<Longrightarrow> txs S i = Idle \<Longrightarrow> tx_step Q i S (goto i (Found []) S)"
| reap_take: "Q i = ReapTx now \<Longrightarrow> txs S i = Found qs \<Longrightarrow> length qs < BATCH_LIMIT \<Longrightarrow>
    q \<in> set (seat_holds (tables S)) \<Longrightarrow> expired now q \<Longrightarrow> hold_owner S (hr_ref q) = None \<Longrightarrow>
    tx_step Q i S (goto i (Found (qs @ [q])) (lock_hold i (hr_ref q) S))"
| reap_none: "Q i = ReapTx now \<Longrightarrow> txs S i = Found [] \<Longrightarrow> tx_step Q i S (finish_tx i (ReapReply []) (tables S) S)"
| scan: "txs S i = Found qs \<Longrightarrow> qs \<noteq> [] \<Longrightarrow> distinct ks \<Longrightarrow> set ks = targets (Q i) qs (tables S) \<Longrightarrow>
    tx_step Q i S (goto i (Rows qs ks) S)"
| cancel_scan: "Q i = CancelTx trip seat legs \<Longrightarrow> txs S i = Idle \<Longrightarrow> distinct ks \<Longrightarrow>
    set ks = targets (Q i) [] (tables S) \<Longrightarrow> tx_step Q i S (goto i (Rows [] ks) S)"
| lock: "txs S i = Rows qs (k # ks) \<Longrightarrow> row_free i k S \<Longrightarrow>
    tx_step Q i S (goto i (Rows qs ks) (lock_row i k S))"
| finish: "txs S i = Rows qs [] \<Longrightarrow> write_all (Q i) qs (tables S) = (r, d) \<Longrightarrow>
    tx_step Q i S (finish_tx i r d S)"

text \<open>
  A committed step of anything else: it respects the locks, neither adds nor removes inventory
  rows, keeps the database consistent and does not hand out a reference whose hold row is locked.
\<close>

definition held_keys :: "db \<Rightarrow> string \<Rightarrow> seat_key set" where
  "held_keys d h = {k. \<exists>r. row_at d k = Some r \<and> inv_hold r = Some h}"

definition keeps_locks :: "system \<Rightarrow> db \<Rightarrow> bool" where
  "keeps_locks S d \<longleftrightarrow>
     map inv_key (seat_inventory d) = map inv_key (seat_inventory (tables S)) \<and>
     (\<forall>k. row_owner S k \<noteq> None \<longrightarrow> row_at d k = row_at (tables S) k) \<and>
     (\<forall>h. hold_owner S h \<noteq> None \<longrightarrow> hold_at d h = hold_at (tables S) h \<and> held_keys d h \<subseteq> held_keys (tables S) h)"

inductive sys_run :: "(nat \<Rightarrow> txn) \<Rightarrow> system \<Rightarrow> system \<Rightarrow> bool" for Q S0 where
  stop: "sys_run Q S0 S0"
| step: "sys_run Q S0 S \<Longrightarrow> tx_step Q i S S' \<Longrightarrow> sys_run Q S0 S'"
| abort: "sys_run Q S0 S \<Longrightarrow> \<forall>r. txs S i \<noteq> Replied r \<Longrightarrow> sys_run Q S0 (finish_tx i Aborted (tables S) S)"
| other: "sys_run Q S0 S \<Longrightarrow> db_ok d \<Longrightarrow> keeps_locks S d \<Longrightarrow> sys_run Q S0 (S\<lparr>tables := d\<rparr>)"

definition initial :: "db \<Rightarrow> system" where
  "initial d = \<lparr>tables = d, row_owner = (\<lambda>_. None), hold_owner = (\<lambda>_. None), txs = (\<lambda>_. Idle)\<rparr>"

section \<open>The transactions as the code runs them, alone\<close>

definition runs :: "'a dbm \<Rightarrow> sqlx_error + 'a \<Rightarrow> db \<Rightarrow> db \<Rightarrow> bool" where
  "runs m x d d' \<longleftrightarrow> (case m (fresh_session d []) of (y, s) \<Rightarrow> y = x \<and> committed s = d')"

context transaction begin

lemma runs_eff: "runs txn x d d' \<longleftrightarrow> eff d = (x, d')"
  using serial [of "fresh_session d []"] by (auto simp: runs_def split: prod.splits)

end

definition env_of :: "hold_row \<Rightarrow> call_env" where
  "env_of q = \<lparr>new_uuid = hr_id q, row_id = hr_id q, clock = (\<lambda>_. hr_created q), db_now = hr_created q\<rparr>"

definition at_time :: "time \<Rightarrow> call_env" where
  "at_time now = \<lparr>new_uuid = 0, row_id = 0, clock = (\<lambda>_. now), db_now = now\<rparr>"

text \<open>\<open>alone t r d d'\<close>: transaction \<open>t\<close>, run on \<open>d\<close> without failures, may answer \<open>r\<close> and commit \<open>d'\<close>.\<close>

definition hold_run :: "hold_row \<Rightarrow> (hold_failure_reason + unit) dbm" where
  "hold_run q =
     run_hold_txn (env_of q) (hr_trip q) (hr_seat q) (hr_legs q) (hr_operator q) (hr_class q) (hr_ref q)
       (hr_expires q)"

fun alone :: "txn \<Rightarrow> reply \<Rightarrow> db \<Rightarrow> db \<Rightarrow> bool" where
  "alone (HoldTx q) (HoldReply x) d d' = runs (hold_run q) (Inr x) d d'"
| "alone (HoldTx q) (Rejected e) d d' = runs (hold_run q) (Inl e) d d'"
| "alone (ConfirmTx h b now) (ConfirmReply x) d d' = runs (confirm_txn (at_time now) h b) (Inr x) d d'"
| "alone (ReleaseTx h) (ReleaseReply x) d d' = runs (release_txn h) (Inr x) d d'"
| "alone (CancelTx trip seat legs) (CancelReply x) d d' = runs (cancel_txn trip seat legs) (Inr x) d d'"
| "alone (ReapTx now) (ReapReply x) d d' =
     (\<exists>visit. visits visit \<and> runs (reap_txn visit (at_time now)) (Inr x) d d')"
| "alone t Aborted d d' = (d' = d)"
| "alone _ _ _ _ = False"

text \<open>... which are the serial effects.\<close>

definition plain :: "txn \<Rightarrow> bool" where
  "plain t \<longleftrightarrow> (\<forall>q. t = HoldTx q \<longrightarrow> hr_booking q = None)"

lemma hold_run_eff:
  assumes "hr_booking q = None"
  shows "runs (hold_run q) x d d' \<longleftrightarrow> hold_eff q d = (x, d')"
proof -
  have "new_hold_row (env_of q) (hr_trip q) (hr_seat q) (hr_legs q) (hr_operator q) (hr_class q) (hr_ref q)
      (hr_expires q) = q"
    using assms by (cases q) (simp add: new_hold_row_def env_of_def)
  then show ?thesis by (simp add: hold_run_def hold_txn.runs_eff)
qed

lemma at_time_now [simp]: "db_now (at_time now) = now"
  by (simp add: at_time_def)

lemmas runs_effs = hold_run_eff confirm_txn.runs_eff release_txn.runs_eff cancel_txn.runs_eff reap_txn.runs_eff

section \<open>Invariants\<close>

text \<open>What a transaction knows of the hold rows it has locked.\<close>

fun claims :: "txn \<Rightarrow> hold_row list \<Rightarrow> bool" where
  "claims (ConfirmTx h b now) qs \<longleftrightarrow> (\<exists>q. qs = [q] \<and> hr_ref q = h \<and> now < hr_expires q \<and> hr_booking q = None)"
| "claims (ReleaseTx h) qs \<longleftrightarrow> (\<exists>q. qs = [q] \<and> hr_ref q = h \<and> hr_booking q = None)"
| "claims (ReapTx now) qs \<longleftrightarrow>
     distinct (map hr_ref qs) \<and> length qs \<le> BATCH_LIMIT \<and> (\<forall>q \<in> set qs. expired now q)"
| "claims (CancelTx trip seat legs) qs \<longleftrightarrow> qs = []"
| "claims (HoldTx q) qs \<longleftrightarrow> False"

definition no_rows :: "(seat_key \<Rightarrow> nat option) \<Rightarrow> nat \<Rightarrow> bool" where
  "no_rows ro i \<longleftrightarrow> (\<forall>k. ro k \<noteq> Some i)"

definition owns_holds :: "(string \<Rightarrow> nat option) \<Rightarrow> nat \<Rightarrow> hold_row list \<Rightarrow> bool" where
  "owns_holds ho i qs \<longleftrightarrow> (\<forall>h. ho h = Some i \<longleftrightarrow> h \<in> hr_ref ` set qs)"

definition read_holds :: "db \<Rightarrow> hold_row list \<Rightarrow> bool" where
  "read_holds d qs \<longleftrightarrow> (\<forall>q \<in> set qs. hold_at d (hr_ref q) = Some q)"

fun tx_inv :: "txn \<Rightarrow> db \<Rightarrow> (seat_key \<Rightarrow> nat option) \<Rightarrow> (string \<Rightarrow> nat option) \<Rightarrow> nat \<Rightarrow> tx_state \<Rightarrow> bool" where
  "tx_inv t d ro ho i (Locking ks rows) \<longleftrightarrow> owns_holds ho i [] \<and>
     (\<exists>q held. t = HoldTx q \<and> lock_order q d = held @ ks \<and> rows = map (columns d) held \<and>
        (\<forall>k. ro k = Some i \<longleftrightarrow> k \<in> set held))"
| "tx_inv t d ro ho i (Found qs) \<longleftrightarrow> claims t qs \<and> read_holds d qs \<and> owns_holds ho i qs \<and> no_rows ro i"
| "tx_inv t d ro ho i (Rows qs ks) \<longleftrightarrow> claims t qs \<and> read_holds d qs \<and> owns_holds ho i qs \<and>
     (\<forall>k \<in> targets t qs d. k \<in> set ks \<or> ro k = Some i)"
| "tx_inv t d ro ho i AwaitHold \<longleftrightarrow> owns_holds ho i [] \<and> no_rows ro i \<and> (\<forall>q. t \<noteq> HoldTx q)"
| "tx_inv t d ro ho i _ \<longleftrightarrow> owns_holds ho i [] \<and> no_rows ro i"

definition sys_inv :: "(nat \<Rightarrow> txn) \<Rightarrow> system \<Rightarrow> bool" where
  "sys_inv Q S \<longleftrightarrow> db_ok (tables S) \<and>
     (\<forall>i. tx_inv (Q i) (tables S) (row_owner S) (hold_owner S) i (txs S i))"

lemma sys_invD: "sys_inv Q S \<Longrightarrow> tx_inv (Q i) (tables S) (row_owner S) (hold_owner S) i (txs S i)"
  by (simp add: sys_inv_def)

lemma sys_inv_ok: "sys_inv Q S \<Longrightarrow> db_ok (tables S)" "sys_inv Q S \<Longrightarrow> schema_ok (tables S)"
  by (simp_all add: sys_inv_def db_ok_def)

text \<open>\<open>d'\<close> is as \<open>d\<close> where transaction \<open>i\<close> has locked it.\<close>

definition respects_locks :: "(seat_key \<Rightarrow> nat option) \<Rightarrow> (string \<Rightarrow> nat option) \<Rightarrow> nat \<Rightarrow> db \<Rightarrow> db \<Rightarrow> bool" where
  "respects_locks ro ho i d d' \<longleftrightarrow>
     map inv_key (seat_inventory d') = map inv_key (seat_inventory d) \<and>
     (\<forall>k. ro k = Some i \<longrightarrow> row_at d' k = row_at d k) \<and>
     (\<forall>h. ho h = Some i \<longrightarrow> hold_at d' h = hold_at d h \<and> held_keys d' h \<subseteq> held_keys d h)"

lemma respects_refl [simp]: "respects_locks ro ho i d d"
  by (simp add: respects_locks_def)

lemma targets_row_at:
  assumes "schema_ok d"
  shows "k \<in> targets t qs d \<longleftrightarrow> (\<exists>r. row_at d k = Some r \<and> targeted t qs r)"
  unfolding targets_def using row_at_Some [OF assms] by auto

lemma targets_held:
  assumes "schema_ok d" and "\<And>trip seat legs. t \<noteq> CancelTx trip seat legs"
  shows "targets t qs d = (\<Union>q \<in> set qs. held_keys d (hr_ref q))"
proof -
  have "targeted t qs r \<longleftrightarrow> (\<exists>q \<in> set qs. inv_hold r = Some (hr_ref q))" for r
    using assms(2) by (cases t) auto
  then show ?thesis
    by (intro set_eqI) (simp add: targets_row_at [OF assms(1)] held_keys_def, blast)
qed

lemma targets_cancel:
  "targets (CancelTx trip seat legs) qs d = leg_keys trip seat legs \<inter> inv_key ` set (seat_inventory d)"
  by (auto simp: targets_def in_legs_key)

lemma tx_inv_respects:
  assumes "tx_inv t d ro ho i st" and "respects_locks ro ho i d d'" and "schema_ok d" and "schema_ok d'"
    and "\<And>k. ro' k = Some i \<longleftrightarrow> ro k = Some i" and "\<And>h. ho' h = Some i \<longleftrightarrow> ho h = Some i"
  shows "tx_inv t d' ro' ho' i st"
proof -
  have keys: "map inv_key (seat_inventory d') = map inv_key (seat_inventory d)"
    and rows: "\<And>k. ro k = Some i \<Longrightarrow> row_at d' k = row_at d k"
    and holds: "\<And>h. ho h = Some i \<Longrightarrow> hold_at d' h = hold_at d h \<and> held_keys d' h \<subseteq> held_keys d h"
    using assms(2) by (auto simp: respects_locks_def)
  have own: "owns_holds ho' i qs = owns_holds ho i qs" "no_rows ro' i = no_rows ro i" for qs
    using assms(5,6) by (simp_all add: owns_holds_def no_rows_def)
  have read: "read_holds d' qs" if "read_holds d qs" "owns_holds ho i qs" for qs
    using that holds by (auto simp: read_holds_def owns_holds_def)
  show ?thesis
  proof (cases st)
    case (Locking ks rows')
    then obtain q held where h: "t = HoldTx q" "lock_order q d = held @ ks" "rows' = map (columns d) held"
      "\<forall>k. ro k = Some i \<longleftrightarrow> k \<in> set held" using assms(1) by auto
    have "map (columns d') held = map (columns d) held"
    proof (rule map_cong [OF refl])
      fix k assume "k \<in> set held"
      then have "ro k = Some i" using h(4) by blast
      from rows [OF this] show "columns d' k = columns d k" by (simp add: columns_def)
    qed
    moreover have "lock_order q d' = lock_order q d" by (simp add: lock_order_def keys)
    ultimately show ?thesis using h Locking assms(1,5) own by simp
  next
    case (Rows qs ks)
    then have inv: "claims t qs" "read_holds d qs" "owns_holds ho i qs"
      "\<And>k. k \<in> targets t qs d \<Longrightarrow> k \<in> set ks \<or> ro k = Some i" using assms(1) by auto
    have "targets t qs d' \<subseteq> targets t qs d"
    proof (cases "\<exists>trip seat legs. t = CancelTx trip seat legs")
      case True
      then show ?thesis using arg_cong [OF keys, of set] by (auto simp: targets_cancel)
    next
      case False
      have "held_keys d' (hr_ref q) \<subseteq> held_keys d (hr_ref q)" if "q \<in> set qs" for q
        using that inv(3) holds [of "hr_ref q"] by (simp add: owns_holds_def)
      then have "(\<Union>q \<in> set qs. held_keys d' (hr_ref q)) \<subseteq> (\<Union>q \<in> set qs. held_keys d (hr_ref q))"
        by (intro UN_mono) simp_all
      with False show ?thesis by (simp add: targets_held assms(3,4))
    qed
    with inv(4) have "\<forall>k \<in> targets t qs d'. k \<in> set ks \<or> ro' k = Some i" using assms(5) by blast
    with inv(1-3) read own Rows show ?thesis by simp
  qed (use assms(1) own read in auto)
qed

text \<open>
  What transaction \<open>i\<close> may do to the tables when it ends: it writes rows it has locked, hold
  rows it has locked or that did not exist, and hands out references only of new hold rows.
\<close>

definition own_writes :: "(seat_key \<Rightarrow> nat option) \<Rightarrow> (string \<Rightarrow> nat option) \<Rightarrow> nat \<Rightarrow> db \<Rightarrow> db \<Rightarrow> bool" where
  "own_writes ro ho i d d' \<longleftrightarrow>
     map inv_key (seat_inventory d') = map inv_key (seat_inventory d) \<and>
     (\<forall>k. row_at d' k \<noteq> row_at d k \<longrightarrow> ro k = Some i) \<and>
     (\<forall>h. hold_at d' h \<noteq> hold_at d h \<longrightarrow> ho h = Some i \<or> hold_at d h = None) \<and>
     (\<forall>h. held_keys d' h \<subseteq> held_keys d h \<or> hold_at d h = None)"

lemma own_writes_refl [simp]: "own_writes ro ho i d d"
  by (simp add: own_writes_def)

lemma own_writes_respects:
  assumes "own_writes ro ho i d d'" and "j \<noteq> i" and "\<And>h. ho h = Some j \<Longrightarrow> hold_at d h \<noteq> None"
  shows "respects_locks ro ho j d d'"
  unfolding respects_locks_def
proof (intro conjI allI impI)
  fix k assume "ro k = Some j"
  then show "row_at d' k = row_at d k"
    using assms(1,2) unfolding own_writes_def by (metis option.inject)
next
  fix h assume "ho h = Some j"
  with assms(3) have "hold_at d h \<noteq> None" "ho h \<noteq> Some i" using assms(2) by auto
  then have "hold_at d' h = hold_at d h \<and> held_keys d' h \<subseteq> held_keys d h"
    using assms(1) unfolding own_writes_def by metis
  then show "hold_at d' h = hold_at d h" "held_keys d' h \<subseteq> held_keys d h" by simp_all
qed (use assms(1) in \<open>simp add: own_writes_def\<close>)

lemma inv_hold_exists:
  assumes "tx_inv t d ro ho i st" and "ho h = Some i"
  shows "hold_at d h \<noteq> None"
proof (cases st)
  case (Found qs)
  with assms show ?thesis by (auto simp: owns_holds_def read_holds_def)
next
  case (Rows qs ks)
  with assms show ?thesis by (auto simp: owns_holds_def read_holds_def)
qed (use assms in \<open>auto simp: owns_holds_def\<close>)

text \<open>A change of one transaction's state and locks, with writes of its own.\<close>

lemma sys_inv_change:
  assumes "sys_inv Q S" and "own_writes (row_owner S) (hold_owner S) i (tables S) d" and "db_ok d"
    and "tx_inv (Q i) d ro ho i st"
    and "\<And>j k. j \<noteq> i \<Longrightarrow> ro k = Some j \<longleftrightarrow> row_owner S k = Some j"
    and "\<And>j h. j \<noteq> i \<Longrightarrow> ho h = Some j \<longleftrightarrow> hold_owner S h = Some j"
  shows "sys_inv Q \<lparr>tables = d, row_owner = ro, hold_owner = ho, txs = (txs S)(i := st)\<rparr>"
  unfolding sys_inv_def system.simps
proof (intro conjI allI)
  fix j
  show "tx_inv (Q j) d ro ho j (((txs S)(i := st)) j)"
  proof (cases "j = i")
    case True
    with assms(4) show ?thesis by simp
  next
    case False
    have "respects_locks (row_owner S) (hold_owner S) j (tables S) d"
      by (rule own_writes_respects [OF assms(2) False]) (rule inv_hold_exists [OF sys_invD [OF assms(1)]])
    from tx_inv_respects [OF sys_invD [OF assms(1)] this sys_inv_ok(2) [OF assms(1)]] False assms(3,5,6)
    show ?thesis by (simp add: db_ok_def)
  qed
qed (rule assms(3))

lemma sys_inv_goto:
  assumes "sys_inv Q S" and "tx_inv (Q i) (tables S) (row_owner S) (hold_owner S) i st"
  shows "sys_inv Q (goto i st S)"
proof -
  have "goto i st S = \<lparr>tables = tables S, row_owner = row_owner S, hold_owner = hold_owner S, txs = (txs S)(i := st)\<rparr>"
    by (simp add: goto_def)
  with sys_inv_change [OF assms(1) own_writes_refl sys_inv_ok(1) [OF assms(1)] assms(2) refl refl] show ?thesis by simp
qed

lemma sys_inv_lock_row:
  assumes "sys_inv Q S" and "row_free i k S"
    and "tx_inv (Q i) (tables S) ((row_owner S)(k := Some i)) (hold_owner S) i st"
  shows "sys_inv Q (goto i st (lock_row i k S))"
proof -
  have "goto i st (lock_row i k S) =
      \<lparr>tables = tables S, row_owner = (row_owner S)(k := Some i), hold_owner = hold_owner S, txs = (txs S)(i := st)\<rparr>"
    by (simp add: goto_def lock_row_def)
  moreover have "sys_inv Q \<dots>"
    by (rule sys_inv_change [OF assms(1) own_writes_refl sys_inv_ok(1) [OF assms(1)] assms(3)])
      (use assms(2) in \<open>auto simp: row_free_def\<close>)
  ultimately show ?thesis by (simp only:)
qed

lemma sys_inv_lock_hold:
  assumes "sys_inv Q S" and "hold_owner S h = None"
    and "tx_inv (Q i) (tables S) (row_owner S) ((hold_owner S)(h := Some i)) i st"
  shows "sys_inv Q (goto i st (lock_hold i h S))"
proof -
  have "goto i st (lock_hold i h S) =
      \<lparr>tables = tables S, row_owner = row_owner S, hold_owner = (hold_owner S)(h := Some i), txs = (txs S)(i := st)\<rparr>"
    by (simp add: goto_def lock_hold_def)
  moreover have "sys_inv Q \<dots>"
    by (rule sys_inv_change [OF assms(1) own_writes_refl sys_inv_ok(1) [OF assms(1)] assms(3)])
      (use assms(2) in auto)
  ultimately show ?thesis by (simp only:)
qed

lemma sys_inv_finish:
  assumes "sys_inv Q S" and "own_writes (row_owner S) (hold_owner S) i (tables S) d" and "db_ok d"
  shows "sys_inv Q (finish_tx i r d S)"
proof -
  have "finish_tx i r d S =
      \<lparr>tables = d, row_owner = (\<lambda>k. if row_owner S k = Some i then None else row_owner S k),
       hold_owner = (\<lambda>h. if hold_owner S h = Some i then None else hold_owner S h), txs = (txs S)(i := Replied r)\<rparr>"
    by (simp add: finish_tx_def)
  moreover have "sys_inv Q \<dots>"
    by (rule sys_inv_change [OF assms]) (auto simp: owns_holds_def no_rows_def)
  ultimately show ?thesis by simp
qed

section \<open>The end of a transaction\<close>

lemma set_lock_order: "set (lock_order q d) = {k \<in> inv_key ` set (seat_inventory d). k \<in> hold_keys q}"
proof -
  have "(case k of (trip, seat, leg) \<Rightarrow> trip = hr_trip q \<and> seat = hr_seat q \<and> leg \<in> set (hr_legs q)) \<longleftrightarrow> k \<in> hold_keys q" for k
    by (cases k) auto
  then show ?thesis by (auto simp: lock_order_def)
qed

lemma columns_lock_order:
  assumes "schema_ok d"
  shows "map (columns d) (lock_order q d) = select_legs (hr_trip q) (hr_seat q) (hr_legs q) d"
proof -
  have "sort_key (\<lambda>(trip, seat, leg). leg) (map inv_key rs) = map inv_key (sort_key inv_leg rs)" for rs
  proof -
    have ins: "insort_key (\<lambda>(trip, seat, leg). leg) (inv_key r) (map inv_key qs) = map inv_key (insort_key inv_leg r qs)" for r qs
      by (induction qs) (auto simp: inv_key_def)
    show ?thesis by (induction rs) (simp_all add: ins)
  qed
  moreover have "filter (\<lambda>(trip, seat, leg). trip = hr_trip q \<and> seat = hr_seat q \<and> leg \<in> set (hr_legs q)) (map inv_key rs) =
      map inv_key (filter (in_legs (hr_trip q) (hr_seat q) (hr_legs q)) rs)" for rs
    by (induction rs) (auto simp: inv_key_def in_legs_def)
  moreover have "columns d (inv_key r) = (inv_booked r, inv_hold r)" if "r \<in> set (seat_inventory d)" for r
    using that assms by (auto simp: columns_def row_at_def schema_ok_def lookup_by_distinct)
  ultimately show ?thesis
    by (simp add: lock_order_def select_legs_def)
qed


text \<open>With all rows locked, the rest of a hold is its serial effect.\<close>

definition hold_reply :: "sqlx_error + (hold_failure_reason + unit) \<Rightarrow> reply" where
  "hold_reply x = (case x of Inl e \<Rightarrow> Rejected e | Inr y \<Rightarrow> HoldReply y)"

lemma after_select_eff:
  assumes "schema_ok d"
  shows "after_select q (map (columns d) (lock_order q d)) d = (case hold_eff q d of (x, d') \<Rightarrow> (hold_reply x, d'))"
  unfolding columns_lock_order [OF assms] after_select_def
  by (auto simp: hold_eff_defs hold_reply_def)

lemma alone_hold:
  assumes "hr_booking q = None" and "hold_eff q d = (x, d')"
  shows "alone (HoldTx q) (hold_reply x) d d'"
  using assms by (cases x) (simp_all add: hold_reply_def hold_run_eff)

lemma hold_finish_ok:
  assumes "tx_inv (HoldTx q) d ro ho i (Locking [] rows)" and "db_ok d" and "hr_booking q = None"
    and "after_select q rows d = (r, d')"
  shows "alone (HoldTx q) r d d' \<and> own_writes ro ho i d d' \<and> db_ok d'"
proof -
  have ok: "schema_ok d" using assms(2) by (simp add: db_ok_def)
  have rows: "rows = map (columns d) (lock_order q d)" and own: "\<forall>k. ro k = Some i \<longleftrightarrow> k \<in> set (lock_order q d)"
    using assms(1) by auto
  obtain x where x: "hold_eff q d = (x, d')" "r = hold_reply x"
    using assms(4) after_select_eff [OF ok, of q] by (auto simp: rows split: prod.splits)
  have "own_writes ro ho i d d'"
  proof (cases "d' = d")
    case False
    with x(1) have d': "d' = place_hold q d" and new: "hr_ref q \<notin> hold_refs d"
      by (auto simp: hold_eff_def split: if_splits)
    have "ro k = Some i" if "row_at d' k \<noteq> row_at d k" for k
    proof -
      have "k \<in> hold_keys q \<and> row_at d k \<noteq> None"
        using that by (cases "row_at d k"; cases "k \<in> hold_keys q") (simp_all add: d' row_at_place_hold)
      then have "k \<in> set (lock_order q d)" by (simp add: set_lock_order row_at_None)
      with own show ?thesis by blast
    qed
    moreover have "hold_at d h = None" if "hold_at d' h \<noteq> hold_at d h" for h
      using that by (auto simp: d' hold_at_place_hold split: option.splits)
    moreover have "held_keys d' h \<subseteq> held_keys d h \<or> hold_at d h = None" for h
      using new by (cases "h = hr_ref q")
        (auto simp: held_keys_def d' row_at_place_hold hold_at_None split: if_splits)
    moreover have "map inv_key (seat_inventory d') = map inv_key (seat_inventory d)"
      by (simp add: d' place_hold_def mark_held_def map_update_where_key)
    ultimately show ?thesis by (simp add: own_writes_def)
  qed simp
  moreover have "db_ok d'"
    using hold_eff_invariants(1) [OF assms(2,3)] x(1) by simp
  ultimately show ?thesis
    using alone_hold [OF assms(3) x(1)] x(2) by simp
qed

text \<open>The writes of the other transactions.\<close>

lemma own_writes_targets:
  assumes "schema_ok d" and "\<forall>k \<in> targets t qs d. ro k = Some i" and "owns_holds ho i qs"
    and "map inv_key (seat_inventory d') = map inv_key (seat_inventory d)"
    and "\<And>k r. row_at d k = Some r \<Longrightarrow> \<not> targeted t qs r \<Longrightarrow> row_at d' k = row_at d k"
    and "\<And>k. row_at d k = None \<Longrightarrow> row_at d' k = None"
    and "\<And>h. h \<notin> hr_ref ` set qs \<Longrightarrow> hold_at d' h = hold_at d h"
    and "\<And>k r' h. row_at d' k = Some r' \<Longrightarrow> inv_hold r' = Some h \<Longrightarrow> row_at d k = Some r'"
  shows "own_writes ro ho i d d'"
  unfolding own_writes_def
proof (intro conjI allI impI)
  fix k assume "row_at d' k \<noteq> row_at d k"
  with assms(5) [of k] assms(6) [of k] obtain r where "row_at d k = Some r" "targeted t qs r"
    by (cases "row_at d k") auto
  with assms(2) show "ro k = Some i" by (simp add: targets_row_at [OF assms(1)])
next
  fix h assume "hold_at d' h \<noteq> hold_at d h"
  with assms(7) have "h \<in> hr_ref ` set qs" by blast
  with assms(3) show "ho h = Some i \<or> hold_at d h = None" by (simp add: owns_holds_def)
next
  fix h
  have "held_keys d' h \<subseteq> held_keys d h"
    unfolding held_keys_def using assms(8) by blast
  then show "held_keys d' h \<subseteq> held_keys d h \<or> hold_at d h = None" ..
qed (rule assms(4))

lemma confirm_finish_ok:
  assumes inv: "tx_inv (ConfirmTx h b now) d ro ho i (Rows qs [])" and "db_ok d"
    and w: "write_all (ConfirmTx h b now) qs d = (r, d')"
  shows "alone (ConfirmTx h b now) r d d' \<and> own_writes ro ho i d d' \<and> db_ok d'"
proof -
  have ok: "schema_ok d" using assms(2) by (simp add: db_ok_def)
  obtain q where q: "qs = [q]" "hr_ref q = h" "now < hr_expires q" "hr_booking q = None" "hold_at d h = Some q"
    using inv by (auto simp: read_holds_def)
  have d': "d' = book_hold h b d" "r = ConfirmReply (Inr q)"
    using w q(1) by (auto simp: book_hold_def)
  have "confirm_eff h b now d = (Inr (Inr q), d')"
    using q ok by (simp add: confirm_eff_booked d')
  moreover have "own_writes ro ho i d d'"
  proof (rule own_writes_targets [where t = "ConfirmTx h b now" and qs = qs, OF ok])
    show "map inv_key (seat_inventory d') = map inv_key (seat_inventory d)"
      by (simp add: d' book_hold_def consume_hold_def book_held_def map_update_where_key)
  qed (use inv q in \<open>auto simp: d' row_at_book_hold hold_at_book_hold_other split: if_splits\<close>)
  ultimately show ?thesis
    using db_ok_book_hold [OF assms(2)] by (simp add: d' confirm_txn.runs_eff)
qed

lemma release_finish_ok:
  assumes inv: "tx_inv (ReleaseTx h) d ro ho i (Rows qs [])" and "db_ok d"
    and w: "write_all (ReleaseTx h) qs d = (r, d')"
  shows "alone (ReleaseTx h) r d d' \<and> own_writes ro ho i d d' \<and> db_ok d'"
proof -
  have ok: "schema_ok d" using assms(2) by (simp add: db_ok_def)
  obtain q where q: "qs = [q]" "hr_ref q = h" "hr_booking q = None" "hold_at d h = Some q"
    using inv by (auto simp: read_holds_def)
  have d': "d' = free_hold h d" "r = ReleaseReply (Some q)"
    using w q(1) by (auto simp: free_hold_def)
  have "release_eff h d = (Inr (Some q), d')"
    using q ok by (simp add: release_eff_def select_active_hold_eq d')
  moreover have "own_writes ro ho i d d'"
  proof (rule own_writes_targets [where t = "ReleaseTx h" and qs = qs, OF ok])
    show "map inv_key (seat_inventory d') = map inv_key (seat_inventory d)"
      by (simp add: d' free_hold_def delete_hold_def clear_ref_def map_update_where_key)
  qed (use inv q in \<open>auto simp: d' row_at_free_hold hold_at_free_hold ok split: if_splits\<close>)
  ultimately show ?thesis
    using db_ok_free_hold [OF assms(2)] by (simp add: d' release_txn.runs_eff)
qed

lemma cancel_finish_ok:
  assumes inv: "tx_inv (CancelTx trip seat legs) d ro ho i (Rows qs [])" and "db_ok d"
    and w: "write_all (CancelTx trip seat legs) qs d = (r, d')"
  shows "alone (CancelTx trip seat legs) r d d' \<and> own_writes ro ho i d d' \<and> db_ok d'"
proof -
  have ok: "schema_ok d" using assms(2) by (simp add: db_ok_def)
  have d': "d' = clear_legs trip seat legs d" "r = CancelReply ()" using w by auto
  have "own_writes ro ho i d d'"
  proof (rule own_writes_targets [where t = "CancelTx trip seat legs" and qs = qs, OF ok])
    show "map inv_key (seat_inventory d') = map inv_key (seat_inventory d)"
      by (simp add: d' clear_legs_def map_update_where_key)
    show "row_at d' k = row_at d k" if "row_at d k = Some r" "\<not> targeted (CancelTx trip seat legs) qs r" for k r
      using that row_at_key [OF that(1)] by (auto simp: d' row_at_clear_legs in_legs_key)
    show "row_at d k = Some r'" if "row_at d' k = Some r'" "inv_hold r' = Some g" for k r' g
      using that unfolding d' by (rule clear_legs_row)
  qed (use inv in \<open>auto simp: d' row_at_clear_legs\<close>)
  then show ?thesis
    using db_ok_clear_legs [OF assms(2)] by (simp add: d' cancel_txn.runs_eff cancel_eff_def)
qed

lemma mset_distinct_subset:
  assumes "distinct xs" and "set xs \<subseteq> set ys"
  shows "mset xs \<subseteq># mset ys"
proof (rule mset_subset_eqI)
  fix a
  show "count (mset xs) a \<le> count (mset ys) a"
  proof (cases "a \<in> set xs")
    case True
    then have "count (mset xs) a = 1" using assms(1) by (simp add: distinct_count_atmost_1)
    moreover have "count (mset ys) a > 0" using True assms(2) by (metis count_greater_zero_iff set_mset_mset subsetD)
    ultimately show ?thesis by simp
  next
    case False
    then have "count (mset xs) a = 0" by (simp add: count_eq_zero_iff)
    then show ?thesis by (simp only: le0)
  qed
qed

text \<open>The server may meet the qualifying rows so that a pass takes exactly \<open>qs\<close>.\<close>

lemma reap_visit:
  assumes "distinct qs" and "length qs \<le> BATCH_LIMIT" and "\<forall>q \<in> set qs. expired now q \<and> q \<in> set (seat_holds d)"
  obtains visit where "visits visit" and "select_expired visit now d = qs"
proof
  show "visits (\<lambda>rows. filter (\<lambda>q. q \<in> set rows) qs)"
    unfolding visits_def
  proof
    fix rows
    show "mset (filter (\<lambda>q. q \<in> set rows) qs) \<subseteq># mset rows"
      by (rule mset_distinct_subset) (use assms(1) in auto)
  qed
  have "filter (\<lambda>q. q \<in> set (filter (expired now) (seat_holds d))) qs = qs"
    by (rule filter_True) (use assms(3) in auto)
  with assms(2) show "select_expired (\<lambda>rows. filter (\<lambda>q. q \<in> set rows) qs) now d = qs"
    by (simp only: select_expired_def take_all)
qed

lemma reap_finish_ok:
  assumes inv: "tx_inv (ReapTx now) d ro ho i (Rows qs [])" and "db_ok d"
    and w: "write_all (ReapTx now) qs d = (r, d')"
  shows "alone (ReapTx now) r d d' \<and> own_writes ro ho i d d' \<and> db_ok d'"
proof -
  have ok: "schema_ok d" using assms(2) by (simp add: db_ok_def)
  have qs: "distinct (map hr_ref qs)" "length qs \<le> BATCH_LIMIT" "\<forall>q \<in> set qs. expired now q"
    "\<forall>q \<in> set qs. hold_at d (hr_ref q) = Some q" using inv by (auto simp: read_holds_def)
  have d': "d' = free_holds (map hr_ref qs) d" "r = ReapReply (map (\<lambda>q. (hr_trip q, hr_seat q, hr_legs q)) qs)"
    using w by (auto simp: free_holds_def)
  have "\<forall>q \<in> set qs. expired now q \<and> q \<in> set (seat_holds d)"
    using qs(3,4) hold_at_Some [OF ok] by blast
  moreover have "distinct qs" using qs(1) by (simp add: distinct_map)
  ultimately obtain visit where v: "visits visit" "select_expired visit now d = qs"
    using qs(2) reap_visit by blast
  have "reap_eff visit now d = (Inr (map (\<lambda>q. (hr_trip q, hr_seat q, hr_legs q)) qs), d')"
    by (simp add: reap_eff_def v(2) d')
  with v(1) have "alone (ReapTx now) r d d'" by (auto simp: d'(2) reap_txn.runs_eff)
  moreover have "own_writes ro ho i d d'"
  proof (rule own_writes_targets [where t = "ReapTx now" and qs = qs, OF ok])
    show "map inv_key (seat_inventory d') = map inv_key (seat_inventory d)"
      by (simp add: d' free_holds_def delete_active_def clear_refs_def map_update_where_key)
    show "row_at d k = Some r'" if "row_at d' k = Some r'" "inv_hold r' = Some g" for k r' g
      using free_holds_row [of "map hr_ref qs" d k r' g] that by (simp add: d')
    show "hold_at d' h = hold_at d h" if "h \<notin> hr_ref ` set qs" for h
      using that by (simp add: d' hold_at_free_holds ok split: option.split)
    show "row_at d' k = row_at d k" if "row_at d k = Some r" "\<not> targeted (ReapTx now) qs r" for k r
      using that by (auto simp: d' row_at_free_holds)
  qed (use inv in \<open>auto simp: d' row_at_free_holds\<close>)
  ultimately show ?thesis
    using db_ok_free_holds [OF assms(2)] by (simp add: d'(1))
qed

lemma finish_ok:
  assumes "tx_inv t d ro ho i (Rows qs [])" and "db_ok d" and "write_all t qs d = (r, d')"
  shows "alone t r d d' \<and> own_writes ro ho i d d' \<and> db_ok d'"
proof (cases t)
  case (HoldTx q)
  with assms(1) show ?thesis by simp
qed (use assms confirm_finish_ok release_finish_ok cancel_finish_ok reap_finish_ok in metis)+

text \<open>An answer without writes.\<close>

lemma refused_alone:
  assumes "wanted t d = w" and "refused t w = Some r"
  shows "alone t r d d"
  using assms
  by (cases t; cases w)
    (auto simp: confirm_txn.runs_eff release_txn.runs_eff confirm_eff_def release_eff_def split: if_splits)

lemma reap_none_alone: "alone (ReapTx now) (ReapReply []) d d"
proof -
  have "visits (\<lambda>_. [])" by (simp add: visits_def)
  then show ?thesis by (auto simp: reap_txn.runs_eff reap_eff_def select_expired_def intro!: exI [of _ "\<lambda>_. []"])
qed

lemma refused_ref: "wanted t d = Some q \<Longrightarrow> refused t (Some q) = None \<Longrightarrow> schema_ok d \<Longrightarrow>
   claims t [q] \<and> hold_at d (hr_ref q) = Some q"
  by (cases t)
    (auto simp: select_live_hold_eq select_active_hold_eq split: option.splits if_splits dest: hold_at_key)

end
