(* ===== verification/Interleaving.thy ===== *)
theory Interleaving
  imports Locking
begin

text \<open>
  Any number of the transactions of \<open>Locking\<close> interleaved, with aborts and other statements
  between them. That each still acts as if it were alone at the moment it answers, writes only
  rows it has locked and keeps the database consistent, and that together they act as one
  after another.
\<close>

section \<open>Steps and runs\<close>

text \<open>What a step does: it answers as if alone, writing what is its own, or changes no table.\<close>

definition step_ok :: "txn \<Rightarrow> nat \<Rightarrow> system \<Rightarrow> system \<Rightarrow> bool" where
  "step_ok t i S S' \<longleftrightarrow>
     (\<forall>j. j \<noteq> i \<longrightarrow> txs S' j = txs S j) \<and> (\<forall>r. txs S i \<noteq> Replied r) \<and>
     (case txs S' i of
        Replied r \<Rightarrow> alone t r (tables S) (tables S') \<and>
          own_writes (row_owner S) (hold_owner S) i (tables S) (tables S') \<and>
          no_rows (row_owner S') i \<and> owns_holds (hold_owner S') i []
      | _ \<Rightarrow> tables S' = tables S)"

lemma step_ok_finish:
  assumes "\<forall>r. txs S i \<noteq> Replied r" and "alone t r (tables S) d"
    and "own_writes (row_owner S) (hold_owner S) i (tables S) d"
  shows "step_ok t i S (finish_tx i r d S)"
  using assms by (simp add: step_ok_def finish_tx_def no_rows_def owns_holds_def)

lemma step_ok_move:
  assumes "\<forall>r. txs S i \<noteq> Replied r" and "\<forall>r. st \<noteq> Replied r"
  shows "step_ok t i S (goto i st S)" and "step_ok t i S (goto i st (lock_row i k S))"
    and "step_ok t i S (goto i st (lock_hold i h S))"
  using assms by (auto simp: step_ok_def goto_def lock_row_def lock_hold_def split: tx_state.splits)

lemma system_of_goto [simp]:
  "tables (goto i st S) = tables S" "row_owner (goto i st S) = row_owner S" "hold_owner (goto i st S) = hold_owner S"
  by (simp_all add: goto_def)

lemma tx_step_ok:
  assumes inv: "sys_inv Q S" and plain: "plain (Q i)" and step: "tx_step Q i S S'"
  shows "sys_inv Q S' \<and> step_ok (Q i) i S S'"
proof -
  note me = sys_invD [OF inv, of i] and ok = sys_inv_ok [OF inv]
  have fin: "sys_inv Q (finish_tx i r d S) \<and> step_ok (Q i) i S (finish_tx i r d S)"
    if "alone (Q i) r (tables S) d \<and> own_writes (row_owner S) (hold_owner S) i (tables S) d \<and> db_ok d"
      "\<forall>r. txs S i \<noteq> Replied r" for r d
    using that sys_inv_finish [OF inv] step_ok_finish by blast
  have silent: "sys_inv Q (finish_tx i r (tables S) S) \<and> step_ok (Q i) i S (finish_tx i r (tables S) S)"
    if "alone (Q i) r (tables S) (tables S)" "\<forall>r. txs S i \<noteq> Replied r" for r
    using fin that ok by simp
  from step show ?thesis
  proof cases
    case (hold_select q)
    have "tx_inv (Q i) (tables S) (row_owner S) (hold_owner S) i (Locking (lock_order q (tables S)) [])"
      using me hold_select by (simp add: no_rows_def)
    from sys_inv_goto [OF inv this] hold_select show ?thesis by (simp add: step_ok_move)
  next
    case (hold_lock k ks rows)
    then obtain q held where h: "Q i = HoldTx q" "lock_order q (tables S) = held @ k # ks"
      "rows = map (columns (tables S)) held" "\<forall>k. row_owner S k = Some i \<longleftrightarrow> k \<in> set held" "owns_holds (hold_owner S) i []"
      using me by auto
    have "tx_inv (Q i) (tables S) ((row_owner S)(k := Some i)) (hold_owner S) i (Locking ks (rows @ [columns (tables S) k]))"
      using h by (auto intro!: exI [of _ "held @ [k]"])
    from sys_inv_lock_row [OF inv hold_lock(3) this] hold_lock show ?thesis by (simp add: step_ok_move)
  next
    case (hold_finish q rows r d)
    have "tx_inv (HoldTx q) (tables S) (row_owner S) (hold_owner S) i (Locking [] rows)" "hr_booking q = None"
      using me plain hold_finish(2,3) by (simp_all add: plain_def)
    from fin [of r d] hold_finish_ok [OF this(1) ok(1) this(2) hold_finish(5)] hold_finish(1-3)
    show ?thesis by simp
  next
    case (ref_missing r)
    from refused_alone [OF ref_missing(3,4)] ref_missing show ?thesis by (simp add: silent)
  next
    case ref_wait
    have "tx_inv (Q i) (tables S) (row_owner S) (hold_owner S) i AwaitHold"
      using me ref_wait by (cases "Q i") simp_all
    from sys_inv_goto [OF inv this] ref_wait show ?thesis by (simp add: step_ok_move)
  next
    case (ref_refused w r)
    from refused_alone [OF ref_refused(3,4)] ref_refused show ?thesis by (simp add: silent)
  next
    case (ref_take q)
    have "tx_inv (Q i) (tables S) (row_owner S) ((hold_owner S)(hr_ref q := Some i)) i (Found [q])"
      using me ref_take(2) refused_ref [OF ref_take(3,4) ok(2)] by (simp add: read_holds_def owns_holds_def)
    from sys_inv_lock_hold [OF inv ref_take(5) this] ref_take show ?thesis by (simp add: step_ok_move)
  next
    case (reap_start now)
    have "tx_inv (Q i) (tables S) (row_owner S) (hold_owner S) i (Found [])"
      using me reap_start by (simp add: read_holds_def)
    from sys_inv_goto [OF inv this] reap_start show ?thesis by (simp add: step_ok_move)
  next
    case (reap_take now qs q)
    have at: "hold_at (tables S) (hr_ref q) = Some q" using reap_take(5) ok(2) by (simp add: hold_at_Some)
    have f: "claims (Q i) qs" "read_holds (tables S) qs" "owns_holds (hold_owner S) i qs" "no_rows (row_owner S) i"
      using me reap_take(3) by simp_all
    have "hr_ref q \<notin> hr_ref ` set qs" using f(3) reap_take(7) unfolding owns_holds_def by (metis option.distinct(1))
    then have "tx_inv (Q i) (tables S) (row_owner S) ((hold_owner S)(hr_ref q := Some i)) i (Found (qs @ [q]))"
      using f at reap_take(2,4,6) by (auto simp: read_holds_def owns_holds_def)
    from sys_inv_lock_hold [OF inv reap_take(7) this] reap_take show ?thesis by (simp add: step_ok_move)
  next
    case (reap_none now)
    with silent [of "ReapReply []"] reap_none_alone [of now "tables S"] show ?thesis
      by (simp del: alone.simps)
  next
    case (scan qs ks)
    have "tx_inv (Q i) (tables S) (row_owner S) (hold_owner S) i (Rows qs ks)"
      using me scan by simp
    from sys_inv_goto [OF inv this] scan show ?thesis by (simp add: step_ok_move)
  next
    case (cancel_scan trip seat legs ks)
    have "tx_inv (Q i) (tables S) (row_owner S) (hold_owner S) i (Rows [] ks)"
      using me cancel_scan by (simp add: read_holds_def)
    from sys_inv_goto [OF inv this] cancel_scan show ?thesis by (simp add: step_ok_move)
  next
    case (lock qs k ks)
    have "tx_inv (Q i) (tables S) ((row_owner S)(k := Some i)) (hold_owner S) i (Rows qs ks)"
      using me lock(2) by auto
    from sys_inv_lock_row [OF inv lock(3) this] lock show ?thesis by (simp add: step_ok_move)
  next
    case (finish qs r d)
    from finish_ok [OF _ ok(1) finish(3), of "row_owner S" "hold_owner S" i] me finish show ?thesis by (simp add: fin)
  qed
qed

lemma sys_inv_initial: "db_ok d \<Longrightarrow> sys_inv Q (initial d)"
  by (simp add: sys_inv_def initial_def owns_holds_def no_rows_def)

lemma sys_inv_other:
  assumes "sys_inv Q S" and "db_ok d" and "keeps_locks S d"
  shows "sys_inv Q (S\<lparr>tables := d\<rparr>)"
  unfolding sys_inv_def
proof (intro conjI allI)
  fix j
  have "respects_locks (row_owner S) (hold_owner S) j (tables S) d"
    using assms(3) by (simp add: respects_locks_def keeps_locks_def)
  from tx_inv_respects [OF sys_invD [OF assms(1)] this sys_inv_ok(2) [OF assms(1)] _ refl refl] assms(2)
  show "tx_inv (Q j) (tables (S\<lparr>tables := d\<rparr>)) (row_owner (S\<lparr>tables := d\<rparr>)) (hold_owner (S\<lparr>tables := d\<rparr>)) j
      (txs (S\<lparr>tables := d\<rparr>) j)"
    by (simp add: db_ok_def)
qed (use assms(2) in simp)

lemma sys_inv_run:
  assumes "sys_run Q (initial d0) S" and "db_ok d0" and "\<forall>i. plain (Q i)"
  shows "sys_inv Q S"
  using assms(1)
proof (induction rule: sys_run.induct)
  case stop
  show ?case by (rule sys_inv_initial [OF assms(2)])
next
  case (step S i S')
  from tx_step_ok [OF step(3) _ step(2)] assms(3) show ?case by blast
next
  case (abort S i)
  from sys_inv_finish [OF abort(3) own_writes_refl sys_inv_ok(1) [OF abort(3)]] show ?case .
next
  case (other S d)
  from sys_inv_other [OF other(4,2,3)] show ?case .
qed

text \<open>
  C13. A transaction among others is atomic: however the row locks of holds, confirmations,
  releases, cancellations and reaper passes interleave with each other, with aborts and with
  anything else that respects the locks, the database is consistent at every moment, and the
  step at which a transaction answers has the reply and the effect that the code has when it
  runs alone on the tables of that moment. It writes only inventory rows and hold rows it has
  locked (or the new hold row) and gives all its locks back; every other step changes no table.
\<close>

theorem concurrent_transactions_atomic:
  assumes "db_ok d0" and "\<forall>i. plain (Q i)" and "sys_run Q (initial d0) S" and "tx_step Q i S S'"
  shows "db_ok (tables S') \<and>
    (case txs S' i of
       Replied r \<Rightarrow>
         alone (Q i) r (tables S) (tables S') \<and>
         (\<forall>k. row_at (tables S') k \<noteq> row_at (tables S) k \<longrightarrow> row_owner S k = Some i) \<and>
         (\<forall>h. hold_at (tables S') h \<noteq> hold_at (tables S) h \<longrightarrow>
            hold_owner S h = Some i \<or> hold_at (tables S) h = None) \<and>
         (\<forall>k. row_owner S' k \<noteq> Some i) \<and> (\<forall>h. hold_owner S' h \<noteq> Some i)
     | _ \<Rightarrow> tables S' = tables S) \<and>
    (\<forall>j. j \<noteq> i \<longrightarrow> txs S' j = txs S j)"
proof -
  note inv = sys_inv_run [OF assms(3,1,2)]
  have "sys_inv Q S'" and ok: "step_ok (Q i) i S S'"
    using tx_step_ok [OF inv _ assms(4)] assms(2) by blast+
  then have "db_ok (tables S')" by (simp add: sys_inv_ok)
  moreover have "\<forall>j. j \<noteq> i \<longrightarrow> txs S' j = txs S j" using ok by (simp add: step_ok_def)
  ultimately show ?thesis
    using ok unfolding step_ok_def own_writes_def no_rows_def owns_holds_def by (simp split: tx_state.splits)
qed

section \<open>Equivalence with a serial order\<close>

fun serial :: "(nat \<Rightarrow> txn) \<Rightarrow> (nat \<times> reply) list \<Rightarrow> db \<Rightarrow> db \<Rightarrow> bool" where
  "serial Q [] d d' \<longleftrightarrow> d' = d"
| "serial Q ((i, r) # rs) d d' \<longleftrightarrow> (\<exists>d1. alone (Q i) r d d1 \<and> serial Q rs d1 d')"

lemma serial_append: "serial Q (rs @ qs) d d' \<longleftrightarrow> (\<exists>d1. serial Q rs d d1 \<and> serial Q qs d1 d')"
proof (induction rs arbitrary: d)
  case (Cons x rs)
  then show ?case by (cases x) (simp, blast)
qed simp

inductive txs_run :: "(nat \<Rightarrow> txn) \<Rightarrow> system \<Rightarrow> system \<Rightarrow> bool" for Q S0 where
  stop: "txs_run Q S0 S0"
| step: "txs_run Q S0 S \<Longrightarrow> tx_step Q i S S' \<Longrightarrow> txs_run Q S0 S'"
| abort: "txs_run Q S0 S \<Longrightarrow> \<forall>r. txs S i \<noteq> Replied r \<Longrightarrow> txs_run Q S0 (finish_tx i Aborted (tables S) S)"

lemma txs_run_sys: "txs_run Q S0 S \<Longrightarrow> sys_run Q S0 S"
  by (induction rule: txs_run.induct) (auto intro: sys_run.intros)

text \<open>\<open>rs\<close> are the answers so far, in their order.\<close>

definition answered :: "(nat \<Rightarrow> txn) \<Rightarrow> db \<Rightarrow> (nat \<times> reply) list \<Rightarrow> system \<Rightarrow> bool" where
  "answered Q d0 rs S \<longleftrightarrow> distinct (map fst rs) \<and> serial Q rs d0 (tables S) \<and>
     (\<forall>i r. txs S i = Replied r \<longleftrightarrow> (i, r) \<in> set rs)"

lemma answered_step:
  assumes "answered Q d0 rs S" and "step_ok (Q i) i S S'"
  shows "\<exists>rs'. answered Q d0 rs' S'"
proof (cases "\<exists>r. txs S' i = Replied r")
  case False
  then have "tables S' = tables S" using assms(2) by (cases "txs S' i") (auto simp: step_ok_def)
  moreover have "txs S' j = Replied q \<longleftrightarrow> txs S j = Replied q" for j q
    using assms(2) False unfolding step_ok_def by metis
  ultimately show ?thesis using assms(1) by (auto simp: answered_def)
next
  case True
  then obtain r where r: "txs S' i = Replied r" by blast
  with assms(2) have alone: "alone (Q i) r (tables S) (tables S')" by (simp add: step_ok_def)
  have new: "(i, q) \<notin> set rs" for q
    using assms unfolding answered_def step_ok_def by metis
  have "txs S' j = Replied q \<longleftrightarrow> (j, q) \<in> set (rs @ [(i, r)])" for j q
    using assms r new [of q] unfolding answered_def step_ok_def by (cases "j = i") auto
  moreover have "distinct (map fst (rs @ [(i, r)]))" using assms(1) new by (force simp: answered_def)
  moreover have "serial Q (rs @ [(i, r)]) d0 (tables S')"
    using assms(1) alone by (auto simp: answered_def serial_append)
  ultimately have "answered Q d0 (rs @ [(i, r)]) S'" unfolding answered_def by blast
  then show ?thesis ..
qed

text \<open>
  C4. Transactions that run at the same time act as one after another: however holds,
  confirmations, releases, cancellations and reaper passes interleave, and whichever of them
  are aborted, there is an order of those that have answered such that running them one by one
  in that order, each as the code runs it alone, gives every one the same reply and ends in the
  same tables. So of holds that want the same leg at most one succeeds, and a hold that expires
  is either confirmed or reaped, never both.
\<close>

theorem concurrent_transactions_serial:
  assumes "db_ok d0" and "\<forall>i. plain (Q i)" and "txs_run Q (initial d0) S"
  shows "\<exists>rs. distinct (map fst rs) \<and> serial Q rs d0 (tables S) \<and>
    (\<forall>i r. txs S i = Replied r \<longleftrightarrow> (i, r) \<in> set rs)"
proof -
  have "\<exists>rs. answered Q d0 rs S"
    using assms(3)
  proof (induction rule: txs_run.induct)
    case stop
    show ?case by (rule exI [of _ "[]"]) (simp add: answered_def initial_def)
  next
    case (step S i S')
    note inv = sys_inv_run [OF txs_run_sys [OF step(1)] assms(1,2)]
    have "step_ok (Q i) i S S'" using tx_step_ok [OF inv _ step(2)] assms(2) by blast
    with step(3) show ?case using answered_step by blast
  next
    case (abort S i)
    have "step_ok (Q i) i S (finish_tx i Aborted (tables S) S)"
      by (rule step_ok_finish [OF abort(2)]) (cases "Q i", simp_all)
    with abort(3) show ?case using answered_step by blast
  qed
  then show ?thesis by (simp add: answered_def)
qed

section \<open>A hold and a release\<close>

text \<open>
  A hold that starts while its legs are held by \<open>h\<close>, and a release of \<open>h\<close> that overtakes it.
\<close>

definition next_hold :: hold_row where
  "next_hold = new_hold_row (sample_env 8 100) 1 ''1A'' [0, 1] ''op'' ''short'' ''g'' 900"

definition overtaking :: "nat \<Rightarrow> txn" where
  "overtaking i = (if i = 0 then HoldTx next_hold else ReleaseTx ''h'')"

lemma overtaking_simps [simp]:
  "overtaking 0 = HoldTx next_hold" "overtaking (Suc 0) = ReleaseTx ''h''" "\<forall>i. plain (overtaking i)"
  by (simp_all add: overtaking_def plain_def next_hold_def new_hold_row_def)

definition freed_db :: db where
  "freed_db = delete_hold ''h'' (clear_ref ''h'' held_db)"

definition retaken_db :: db where
  "retaken_db = place_hold next_hold freed_db"

lemma overtaking_values:
  "lock_order next_hold held_db = [(1, ''1A'', 0), (1, ''1A'', 1)]"
  "select_active_hold ''h'' held_db = Some sample_hold"
  "set [(1, ''1A'', 0), (1, ''1A'', 1)] = targets (ReleaseTx ''h'') [sample_hold] held_db"
  "columns freed_db (1, ''1A'', 0) = (False, None)" "columns freed_db (1, ''1A'', 1) = (False, None)"
  "hr_ref next_hold = ''g''"
  "after_select next_hold [(False, None), (False, None)] freed_db = (HoldReply (Inr ()), retaken_db)"
  by code_simp+

text \<open>The state in which the release has its locks and the hold waits for the first leg.\<close>

definition before_release :: system where
  "before_release =
     \<lparr>tables = held_db, row_owner = (\<lambda>_. None)((1, ''1A'', 0) := Some 1, (1, ''1A'', 1) := Some 1),
      hold_owner = (\<lambda>_. None)(''h'' := Some 1),
      txs = (\<lambda>_. Idle)(0 := Locking [(1, ''1A'', 0), (1, ''1A'', 1)] [], 1 := Rows [sample_hold] [])\<rparr>"

lemma before_release_reached: "txs_run overtaking (initial held_db) before_release"
proof -
  let ?k0 = "(1, ''1A'', 0) :: seat_key" and ?k1 = "(1, ''1A'', 1) :: seat_key"
  let ?A1 = "goto 0 (Locking [?k0, ?k1] []) (initial held_db)"
  let ?A2 = "goto 1 AwaitHold ?A1"
  let ?A3 = "goto 1 (Found [sample_hold]) (lock_hold 1 (hr_ref sample_hold) ?A2)"
  let ?A4 = "goto 1 (Rows [sample_hold] [?k0, ?k1]) ?A3"
  let ?A5 = "goto 1 (Rows [sample_hold] [?k1]) (lock_row 1 ?k0 ?A4)"
  let ?A6 = "goto 1 (Rows [sample_hold] []) (lock_row 1 ?k1 ?A5)"
  note defs = goto_def lock_row_def lock_hold_def initial_def row_free_def
  have "tx_step overtaking 0 (initial held_db) (goto 0 (Locking (lock_order next_hold (tables (initial held_db))) []) (initial held_db))"
    by (rule tx_step.hold_select) (simp_all add: initial_def)
  then have "tx_step overtaking 0 (initial held_db) ?A1" by (simp add: overtaking_values initial_def)
  then have "txs_run overtaking (initial held_db) ?A1" by (rule txs_run.step [OF txs_run.stop])
  then have "txs_run overtaking (initial held_db) ?A2"
    by (rule txs_run.step [OF _ tx_step.ref_wait]) (simp_all add: defs overtaking_values)
  then have "txs_run overtaking (initial held_db) ?A3"
    by (rule txs_run.step [OF _ tx_step.ref_take]) (simp_all add: defs overtaking_values)
  then have "txs_run overtaking (initial held_db) ?A4"
    by (rule txs_run.step [OF _ tx_step.scan])
      (use overtaking_values(3) in \<open>simp_all add: defs\<close>)
  then have "txs_run overtaking (initial held_db) ?A5"
    by (rule txs_run.step [OF _ tx_step.lock]) (simp_all add: defs)
  then have "txs_run overtaking (initial held_db) ?A6"
    by (rule txs_run.step [OF _ tx_step.lock]) (simp_all add: defs)
  moreover have "?A6 = before_release" by (simp add: defs before_release_def fun_upd_twist)
  ultimately show ?thesis by simp
qed

definition after_release :: system where
  "after_release =
     \<lparr>tables = freed_db, row_owner = (\<lambda>_. None), hold_owner = (\<lambda>_. None),
      txs = (\<lambda>_. Idle)(0 := Locking [(1, ''1A'', 0), (1, ''1A'', 1)] [], 1 := Replied (ReleaseReply (Some sample_hold)))\<rparr>"

lemma release_step: "tx_step overtaking 1 before_release after_release"
proof -
  have "tx_step overtaking 1 before_release
      (finish_tx 1 (ReleaseReply (Some sample_hold)) freed_db before_release)"
    by (rule tx_step.finish [where qs = "[sample_hold]"]) (simp_all add: before_release_def freed_db_def)
  moreover have "finish_tx 1 (ReleaseReply (Some sample_hold)) freed_db before_release = after_release"
    by (auto simp: finish_tx_def before_release_def after_release_def)
  ultimately show ?thesis by simp
qed

theorem concurrent_transactions_atomic_witness:
  "\<exists>S S'. sys_run overtaking (initial held_db) S \<and> tx_step overtaking 1 S S' \<and>
     txs S' 1 = Replied (ReleaseReply (Some sample_hold)) \<and>
     alone (overtaking 1) (ReleaseReply (Some sample_hold)) (tables S) (tables S') \<and> db_ok (tables S')"
proof -
  note run = txs_run_sys [OF before_release_reached]
  have "txs after_release 1 = Replied (ReleaseReply (Some sample_hold))" by (simp add: after_release_def)
  with concurrent_transactions_atomic [OF _ _ run release_step] run release_step show ?thesis
    by (intro exI [of _ before_release] exI [of _ after_release]) (simp del: alone.simps)
qed

lemma both_replied:
  "\<exists>S. txs_run overtaking (initial held_db) S \<and> tables S = retaken_db \<and>
     txs S 0 = Replied (HoldReply (Inr ())) \<and> txs S 1 = Replied (ReleaseReply (Some sample_hold))"
proof -
  let ?k0 = "(1, ''1A'', 0) :: seat_key" and ?k1 = "(1, ''1A'', 1) :: seat_key"
  let ?B1 = "goto 0 (Locking [?k1] ([] @ [columns (tables after_release) ?k0])) (lock_row 0 ?k0 after_release)"
  let ?B2 = "goto 0 (Locking [] ([(False, None)] @ [columns (tables ?B1) ?k1])) (lock_row 0 ?k1 ?B1)"
  note defs = goto_def lock_row_def row_free_def after_release_def overtaking_values
  have "txs_run overtaking (initial held_db) after_release"
    by (rule txs_run.step [OF before_release_reached release_step])
  then have "txs_run overtaking (initial held_db) ?B1"
    by (rule txs_run.step [OF _ tx_step.hold_lock]) (simp_all add: defs)
  then have "txs_run overtaking (initial held_db) ?B2"
    by (rule txs_run.step [OF _ tx_step.hold_lock]) (simp_all add: defs)
  then have all: "txs_run overtaking (initial held_db) (finish_tx 0 (HoldReply (Inr ())) retaken_db ?B2)"
    by (rule txs_run.step [OF _ tx_step.hold_finish [where q = next_hold and rows = "[(False, None), (False, None)]"]])
      (simp_all add: defs)
  show ?thesis by (rule exI, rule conjI [OF all]) (simp add: finish_tx_def defs)
qed

theorem concurrent_transactions_serial_witness:
  "\<exists>S rs. txs_run overtaking (initial held_db) S \<and> tables S = retaken_db \<and>
     distinct (map fst rs) \<and> serial overtaking rs held_db (tables S) \<and>
     (0, HoldReply (Inr ())) \<in> set rs \<and> (1, ReleaseReply (Some sample_hold)) \<in> set rs"
proof -
  obtain S where S: "txs_run overtaking (initial held_db) S" "tables S = retaken_db"
    "txs S 0 = Replied (HoldReply (Inr ()))" "txs S 1 = Replied (ReleaseReply (Some sample_hold))"
    using both_replied by blast
  obtain rs where "distinct (map fst rs)" "serial overtaking rs held_db (tables S)"
    "\<forall>i r. txs S i = Replied r \<longleftrightarrow> (i, r) \<in> set rs"
    using concurrent_transactions_serial [OF _ _ S(1)] by auto
  with S show ?thesis by blast
qed

end
