(* ===== verification/Deadlock.thy ===== *)
theory Deadlock
  imports Interleaving
begin

text \<open>
  Waiting for row locks. \<open>ORDER BY leg_index\<close> in \<open>run_hold_txn\<close> (\<open>hold.rs\<close>) rules out deadlocks
  between holds, as the comment in the code says; the statements of the other transactions
  have no order, and a hold and a confirmation can deadlock.
\<close>

section \<open>Runs without aborts\<close>

text \<open>Runs of the first \<open>n\<close> transactions in which none is aborted.\<close>

inductive live_run :: "(nat \<Rightarrow> txn) \<Rightarrow> nat \<Rightarrow> system \<Rightarrow> system \<Rightarrow> bool" for Q n where
  stop: "live_run Q n S S"
| step: "live_run Q n S S1 \<Longrightarrow> i < n \<Longrightarrow> tx_step Q i S1 S2 \<Longrightarrow> live_run Q n S S2"

lemma live_run_trans:
  assumes "live_run Q n S1 S2" and "live_run Q n S S1"
  shows "live_run Q n S S2"
  using assms by (induction rule: live_run.induct) (auto intro: live_run.step)

lemma live_run_one: "i < n \<Longrightarrow> tx_step Q i S S' \<Longrightarrow> live_run Q n S S'"
  by (rule live_run.step [OF live_run.stop])

lemma live_run_txs: "live_run Q n S S' \<Longrightarrow> txs_run Q S S'"
  by (induction rule: live_run.induct) (auto intro: txs_run.intros)

lemma sys_inv_live:
  assumes "live_run Q n (initial d0) S" and "db_ok d0" and "\<forall>i. plain (Q i)"
  shows "sys_inv Q S"
  by (rule sys_inv_run [OF txs_run_sys [OF live_run_txs [OF assms(1)]] assms(2,3)])

definition unfinished :: "tx_state \<Rightarrow> bool" where
  "unfinished t \<longleftrightarrow> (\<forall>r. t \<noteq> Replied r)"

section \<open>Holds among themselves\<close>

definition leg_of :: "seat_key \<Rightarrow> int" where
  "leg_of k = snd (snd k)"

lemma lock_order_sorted:
  assumes "schema_ok d"
  shows "sorted_wrt (\<lambda>a b. leg_of a < leg_of b) (lock_order q d)"
proof -
  let ?ks = "filter (\<lambda>(trip, seat, leg). trip = hr_trip q \<and> seat = hr_seat q \<and> leg \<in> set (hr_legs q))
      (map inv_key (seat_inventory d))"
  have leg: "(\<lambda>(trip, seat, leg). leg) = leg_of" by (auto simp: leg_of_def)
  have "distinct ?ks" using assms by (auto simp: schema_ok_def)
  moreover have "inj_on leg_of (set ?ks)" by (auto simp: inj_on_def leg_of_def)
  ultimately have "distinct (map leg_of (sort_key leg_of ?ks))" by (simp add: distinct_map)
  moreover have "sorted (map leg_of (sort_key leg_of ?ks))" by simp
  ultimately have "sorted_wrt (<) (map leg_of (sort_key leg_of ?ks))" by (simp add: strict_sorted_iff)
  then show ?thesis by (simp add: lock_order_def leg sorted_wrt_map)
qed

text \<open>Where all transactions are holds, a hold is idle, locking or done, and no hold row is locked.\<close>

definition all_holds :: "(nat \<Rightarrow> txn) \<Rightarrow> bool" where
  "all_holds Q \<longleftrightarrow> (\<forall>i. \<exists>q. Q i = HoldTx q \<and> hr_booking q = None)"

lemma all_holds_plain: "all_holds Q \<Longrightarrow> \<forall>i. plain (Q i)"
  unfolding all_holds_def plain_def by (metis txn.inject(1))

lemma holds_state:
  assumes "sys_inv Q S" and "all_holds Q"
  shows "txs S i = Idle \<or> (\<exists>ks rows. txs S i = Locking ks rows) \<or> (\<exists>r. txs S i = Replied r)"
proof -
  obtain q where "Q i = HoldTx q" using assms(2) by (auto simp: all_holds_def)
  with sys_invD [OF assms(1), of i] show ?thesis by (cases "txs S i") simp_all
qed

lemma holds_owner:
  assumes "sys_inv Q S" and "all_holds Q"
  shows "hold_owner S h = None"
proof (rule ccontr)
  assume "hold_owner S h \<noteq> None"
  then obtain j where "hold_owner S h = Some j" by blast
  with sys_invD [OF assms(1), of j] holds_state [OF assms, of j] show False by (auto simp: owns_holds_def)
qed

text \<open>Among holds that all wait for a lock, one that waits for the last leg need not wait.\<close>

lemma some_hold_step:
  assumes inv: "sys_inv Q S" and holds: "all_holds Q" and idle: "\<forall>j \<ge> n. txs S j = Idle"
    and "i0 < n" and "unfinished (txs S i0)"
  shows "\<exists>i < n. \<exists>S'. tx_step Q i S S'"
proof (cases "\<exists>i < n. txs S i = Idle \<or> (\<exists>rows. txs S i = Locking [] rows)")
  case True
  then obtain i where i: "i < n" "txs S i = Idle \<or> (\<exists>rows. txs S i = Locking [] rows)" by blast
  obtain q where q: "Q i = HoldTx q" using holds by (auto simp: all_holds_def)
  from i(2) show ?thesis
  proof
    assume "txs S i = Idle"
    from tx_step.hold_select [where Q = Q, OF q this] i(1) show ?thesis by blast
  next
    assume "\<exists>rows. txs S i = Locking [] rows"
    then obtain rows where rows: "txs S i = Locking [] rows" by blast
    obtain r d where "after_select q rows (tables S) = (r, d)" by fastforce
    from tx_step.hold_finish [where Q = Q, OF q rows holds_owner [OF inv holds] this] i(1) show ?thesis by blast
  qed
next
  case False
  have wait: "\<exists>k ks rows. txs S i = Locking (k # ks) rows" if "i < n" "unfinished (txs S i)" for i
  proof -
    from holds_state [OF inv holds, of i] that False obtain ks rows where "txs S i = Locking ks rows"
      by (auto simp: unfinished_def)
    with that(1) False show ?thesis by (cases ks) auto
  qed
  define next_leg where "next_leg i = (case txs S i of Locking (k # ks) rows \<Rightarrow> leg_of k | _ \<Rightarrow> 0)" for i
  let ?W = "{i. i < n \<and> unfinished (txs S i)}"
  have fin: "finite (next_leg ` ?W)" and ne: "next_leg ` ?W \<noteq> {}" using assms(4,5) by auto
  from Max_in [OF this] obtain i where i: "i < n" "unfinished (txs S i)" and m: "next_leg i = Max (next_leg ` ?W)"
    by auto
  have max: "next_leg j \<le> next_leg i" if "j < n" "unfinished (txs S j)" for j
    unfolding m by (rule Max_ge [OF fin]) (use that in blast)
  obtain k ks rows where k: "txs S i = Locking (k # ks) rows" using wait [OF i] by blast
  show ?thesis
  proof (cases "row_free i k S")
    case True
    from tx_step.hold_lock [where Q = Q, OF k this] i(1) show ?thesis by blast
  next
    case False
    then obtain j where j: "row_owner S k = Some j" "j \<noteq> i" by (auto simp: row_free_def)
    note tj = sys_invD [OF inv, of j]
    have "\<not> no_rows (row_owner S) j" using j(1) unfolding no_rows_def by blast
    with tj holds_state [OF inv holds, of j] obtain ks' rows' where l: "txs S j = Locking ks' rows'"
      by auto
    with tj obtain q held where h: "lock_order q (tables S) = held @ ks'" and own: "\<forall>k. row_owner S k = Some j \<longleftrightarrow> k \<in> set held"
      by auto
    from own j(1) have "k \<in> set held" by blast
    have u: "unfinished (txs S j)" using l by (simp add: unfinished_def)
    have "j < n" using idle l by (metis linorder_not_less tx_state.distinct(1))
    with wait [of j] u l obtain k' ks'' where k': "ks' = k' # ks''" by auto
    from lock_order_sorted [OF sys_inv_ok(2) [OF inv], of q] h k' \<open>k \<in> set held\<close> have "leg_of k < leg_of k'"
      by (auto simp: sorted_wrt_append)
    with max [OF \<open>j < n\<close> u] k l k' show ?thesis by (simp add: next_leg_def)
  qed
qed

definition work_left :: "(nat \<Rightarrow> txn) \<Rightarrow> system \<Rightarrow> nat \<Rightarrow> nat" where
  "work_left Q S i =
     (case txs S i of
        Idle \<Rightarrow> (case Q i of HoldTx q \<Rightarrow> length (lock_order q (tables S)) + 2 | _ \<Rightarrow> 0)
      | Locking ks rows \<Rightarrow> length ks + 1
      | _ \<Rightarrow> 0)"

definition total_work :: "(nat \<Rightarrow> txn) \<Rightarrow> nat \<Rightarrow> system \<Rightarrow> nat" where
  "total_work Q n S = (\<Sum>i < n. work_left Q S i)"

lemma sum_decreases:
  fixes f g :: "nat \<Rightarrow> nat"
  assumes "i < n" and "f i < g i" and "\<And>j. j < n \<Longrightarrow> j \<noteq> i \<Longrightarrow> f j = g j"
  shows "(\<Sum>j < n. f j) < (\<Sum>j < n. g j)"
proof (rule sum_strict_mono_ex1)
  show "\<forall>j \<in> {..<n}. f j \<le> g j" using assms by (metis lessThan_iff less_imp_le order_refl)
qed (use assms in auto)

lemma holds_step_work:
  assumes "sys_inv Q S" and "all_holds Q" and "i < n" and "tx_step Q i S S'"
  shows "total_work Q n S' < total_work Q n S"
  unfolding total_work_def
proof (rule sum_decreases [OF assms(3)])
  have ok: "step_ok (Q i) i S S'"
    using tx_step_ok [OF assms(1) _ assms(4)] all_holds_plain [OF assms(2)] by blast
  obtain q where q: "Q i = HoldTx q" using assms(2) by (auto simp: all_holds_def)
  show "work_left Q S' i < work_left Q S i"
    using assms(4) holds_state [OF assms(1,2), of i]
    by cases (auto simp: work_left_def goto_def lock_row_def finish_tx_def q)
  have "map inv_key (seat_inventory (tables S')) = map inv_key (seat_inventory (tables S))"
    using ok by (cases "txs S' i") (auto simp: step_ok_def own_writes_def)
  then have "lock_order p (tables S') = lock_order p (tables S)" for p by (simp add: lock_order_def)
  moreover have "txs S' j = txs S j" if "j \<noteq> i" for j using ok that by (simp add: step_ok_def)
  ultimately show "work_left Q S' j = work_left Q S j" if "j \<noteq> i" for j
    using that by (simp add: work_left_def split: tx_state.split txn.split)
qed

lemma idle_beyond:
  assumes "live_run Q n S0 S" and "\<forall>j \<ge> n. txs S0 j = Idle"
  shows "\<forall>j \<ge> n. txs S j = Idle"
  using assms
proof (induction rule: live_run.induct)
  case (step S0 S1 i S2)
  from step(3) have "txs S2 j = txs S1 j" if "j \<noteq> i" for j
    using that by cases (simp_all add: goto_def lock_row_def lock_hold_def finish_tx_def)
  with step(2,4,5) show ?case by (metis linorder_not_less)
qed

lemma holds_finish:
  assumes "sys_inv Q S" and "all_holds Q" and "\<forall>j \<ge> n. txs S j = Idle"
  shows "\<exists>S'. live_run Q n S S' \<and> (\<forall>i < n. \<not> unfinished (txs S' i))"
  using assms
proof (induction "total_work Q n S" arbitrary: S rule: less_induct)
  case less
  show ?case
  proof (cases "\<exists>i < n. unfinished (txs S i)")
    case False
    then show ?thesis by (blast intro: live_run.stop)
  next
    case True
    then obtain i S1 where i: "i < n" "tx_step Q i S S1" using some_hold_step [OF less(2-4)] by blast
    note one = live_run_one [OF i]
    have inv: "sys_inv Q S1" using tx_step_ok [OF less(2) _ i(2)] all_holds_plain [OF less(3)] by blast
    obtain S' where S': "live_run Q n S1 S'" "\<forall>i < n. \<not> unfinished (txs S' i)"
      using less(1) [OF holds_step_work [OF less(2,3) i] inv less(3) idle_beyond [OF one less(4)]] by blast
    from live_run_trans [OF S'(1) one] S'(2) show ?thesis by blast
  qed
qed

text \<open>
  C14. Holds do not deadlock among themselves: since every hold locks its rows in the order of
  the legs, there is at every moment a hold that can go on as long as one has not answered,
  every step brings the answers nearer, and so all holds can run to their answers, in at most
  as many steps as are left to do.
\<close>

theorem concurrent_holds_terminate:
  assumes "db_ok d0" and "all_holds Q" and "live_run Q n (initial d0) S"
  shows "((\<exists>i < n. unfinished (txs S i)) \<longrightarrow> (\<exists>i < n. \<exists>S'. tx_step Q i S S')) \<and>
    (\<forall>i < n. \<forall>S'. tx_step Q i S S' \<longrightarrow> total_work Q n S' < total_work Q n S) \<and>
    (\<exists>S'. live_run Q n S S' \<and> (\<forall>i < n. \<exists>r. txs S' i = Replied r))"
proof -
  have inv: "sys_inv Q S" by (rule sys_inv_live [OF assms(3,1) all_holds_plain [OF assms(2)]])
  have idle: "\<forall>j \<ge> n. txs S j = Idle" by (rule idle_beyond [OF assms(3)]) (simp add: initial_def)
  from holds_finish [OF inv assms(2) idle] some_hold_step [OF inv assms(2) idle] holds_step_work [OF inv assms(2)]
  show ?thesis unfolding unfinished_def by blast
qed

section \<open>A hold and a confirmation\<close>

text \<open>A hold locks the rows in front of the first that is taken.\<close>

lemma lock_prefix:
  assumes "txs S i = Locking (xs @ ys) rows" and "\<forall>k \<in> set xs. row_free i k S" and "i < n"
  shows "\<exists>S' rows'. live_run Q n S S' \<and> tables S' = tables S \<and> txs S' = (txs S)(i := Locking ys rows') \<and>
    row_owner S' = (\<lambda>k. if k \<in> set xs then Some i else row_owner S k)"
  using assms(1,2)
proof (induction xs arbitrary: S rows)
  case Nil
  then show ?case by (intro exI [of _ S] exI [of _ rows]) (auto intro: live_run.stop)
next
  case (Cons x xs)
  let ?S1 = "goto i (Locking (xs @ ys) (rows @ [columns (tables S) x])) (lock_row i x S)"
  have one: "live_run Q n S ?S1"
    by (rule live_run_one [OF assms(3) tx_step.hold_lock]) (use Cons(2,3) in simp_all)
  have "txs ?S1 i = Locking (xs @ ys) (rows @ [columns (tables S) x])" by (simp add: goto_def)
  moreover have "\<forall>k \<in> set xs. row_free i k ?S1" using Cons(3) by (auto simp: row_free_def lock_row_def)
  ultimately obtain S' rows' where S': "live_run Q n ?S1 S'" "tables S' = tables ?S1"
    "txs S' = (txs ?S1)(i := Locking ys rows')" "row_owner S' = (\<lambda>k. if k \<in> set xs then Some i else row_owner ?S1 k)"
    using Cons(1) by blast
  have "txs S' = (txs S)(i := Locking ys rows')" "tables S' = tables S"
    using S'(2,3) by (simp_all add: goto_def lock_row_def)
  moreover have "row_owner S' = (\<lambda>k. if k \<in> set (x # xs) then Some i else row_owner S k)"
    by (auto simp: S'(4) lock_row_def)
  ultimately show ?case using live_run_trans [OF S'(1) one] by blast
qed

text \<open>A transaction that waits for a row of another cannot go on.\<close>

lemma stuck:
  assumes "txs S i = Locking (k # ks) rows \<or> txs S i = Rows qs (k # ks)" and "row_owner S k = Some j" and "j \<noteq> i"
  shows "\<not> tx_step Q i S S'"
proof
  assume "tx_step Q i S S'"
  then show False by cases (use assms in \<open>auto simp: row_free_def\<close>)
qed

text \<open>
  C36. A hold and a confirmation can deadlock: the order that rules out deadlocks between holds
  is not kept by \<open>confirm_booking\<close>, whose \<open>SELECT ... FOR UPDATE\<close> has no \<open>ORDER BY\<close>. When a hold
  asks for two legs that the reference to be confirmed holds, the confirmation may lock the
  later leg first, and both reach a state in which each waits for the other and no step of
  either is possible. Nothing has been written then and the server can only abort one of the
  two, so a confirmation of a live hold may fail because of a hold that had no chance to succeed.
\<close>

theorem hold_confirm_deadlock:
  assumes "db_ok d0" and "Q 0 = HoldTx q" and "Q 1 = ConfirmTx h b now"
    and "hold_at d0 h = Some x" and "now < hr_expires x" and "hr_booking x = None"
    and "k1 \<in> hold_keys q" and "k2 \<in> hold_keys q" and "leg_of k1 < leg_of k2"
    and "seat_at d0 k1 = Some (SHeld h)" and "seat_at d0 k2 = Some (SHeld h)"
  shows "\<exists>S. live_run Q 2 (initial d0) S \<and> tables S = d0 \<and> unfinished (txs S 0) \<and> unfinished (txs S 1) \<and>
    (\<forall>i < 2. \<forall>S'. \<not> tx_step Q i S S')"
proof -
  have ok: "schema_ok d0" using assms(1) by (simp add: db_ok_def)
  have held: "k1 \<in> held_keys d0 h" "k2 \<in> held_keys d0 h"
    using assms(10,11) by (auto simp: held_keys_def seat_at_def seat_of_def split: option.splits if_splits)
  then have order: "k1 \<in> set (lock_order q d0)" "k2 \<in> set (lock_order q d0)"
    using assms(7,8) row_at_Some [OF ok] by (auto simp: set_lock_order held_keys_def)
  then obtain pre post where lo: "lock_order q d0 = pre @ k2 # post" by (meson split_list)
  have sorted: "sorted_wrt (\<lambda>a b. leg_of a < leg_of b) (pre @ k2 # post)"
    using lock_order_sorted [OF ok, of q] by (simp add: lo)
  have k1: "k1 \<in> set pre" using order(1) sorted assms(9) by (auto simp: lo sorted_wrt_append)
  have k2: "k2 \<notin> set pre" using sorted by (auto simp: sorted_wrt_append)
  let ?T = "targets (Q 1) [x] d0"
  have T: "?T = held_keys d0 h"
    using hold_at_key [OF assms(4)] unfolding assms(3) by (simp add: targets_held [OF ok])
  have "finite ?T" by (simp add: targets_def)
  then obtain rest where rest: "set rest = ?T - {k1, k2}" "distinct rest"
    by (metis finite_Diff finite_distinct_list)
  have scan: "distinct (k2 # k1 # rest)" "set (k2 # k1 # rest) = ?T"
    using rest held T assms(9) by auto
  let ?S1 = "goto 1 AwaitHold (initial d0)"
  let ?S2 = "goto 1 (Found [x]) (lock_hold 1 (hr_ref x) ?S1)"
  let ?S3 = "goto 1 (Rows [x] (k2 # k1 # rest)) ?S2"
  let ?S4 = "goto 1 (Rows [x] (k1 # rest)) (lock_row 1 k2 ?S3)"
  let ?S5 = "goto 0 (Locking (pre @ k2 # post) []) ?S4"
  have wanted: "wanted (Q 1) d0 = Some x" "refused (Q 1) (Some x) = None"
    using assms(4-6) unfolding assms(3) by (simp_all add: select_live_hold_eq ok)
  note defs = goto_def lock_row_def lock_hold_def initial_def
  have "live_run Q 2 (initial d0) ?S1"
    by (rule live_run_one [OF _ tx_step.ref_wait]) (simp_all add: initial_def wanted [unfolded One_nat_def])
  then have "live_run Q 2 (initial d0) ?S2"
    by (rule live_run.step [OF _ _ tx_step.ref_take]) (simp_all add: defs wanted [unfolded One_nat_def])
  then have "live_run Q 2 (initial d0) ?S3"
    by (rule live_run.step [OF _ _ tx_step.scan]) (use scan [unfolded One_nat_def] in \<open>simp_all add: defs\<close>)
  then have run4: "live_run Q 2 (initial d0) ?S4"
    by (rule live_run.step [OF _ _ tx_step.lock]) (simp_all add: defs row_free_def)
  have "lock_order q (tables ?S4) = pre @ k2 # post" "txs ?S4 0 = Idle" by (simp_all add: defs lo)
  with tx_step.hold_select [where Q = Q and S = ?S4, OF assms(2)] have "tx_step Q 0 ?S4 ?S5" by simp
  from live_run.step [OF run4 _ this] have run5: "live_run Q 2 (initial d0) ?S5" by simp
  have "txs ?S5 0 = Locking (pre @ k2 # post) []" "\<forall>k \<in> set pre. row_free 0 k ?S5"
    using k2 by (auto simp: defs row_free_def)
  from lock_prefix [OF this, of 2 Q] obtain S rows where S: "live_run Q 2 ?S5 S" "tables S = tables ?S5"
    "txs S = (txs ?S5)(0 := Locking (k2 # post) rows)"
    "row_owner S = (\<lambda>k. if k \<in> set pre then Some 0 else row_owner ?S5 k)" by auto
  have hold: "txs S 0 = Locking (k2 # post) rows" "row_owner S k2 = Some 1"
    using k2 by (simp_all add: S(3,4) defs)
  have conf: "txs S 1 = Rows [x] (k1 # rest)" "row_owner S k1 = Some 0"
    using k1 by (simp_all add: S(3,4) defs)
  have "\<not> tx_step Q i S S'" if "i < 2" for i S'
  proof (cases "i = 0")
    case True
    then show ?thesis using stuck [of S 0 k2 post rows _ 1 Q S'] hold by simp
  next
    case False
    with that have "i = 1" by simp
    then show ?thesis using stuck [of S 1 k1 rest _ "[x]" 0 Q S'] conf by simp
  qed
  moreover have "tables S = d0" by (simp add: S(2) defs)
  ultimately show ?thesis
    using live_run_trans [OF S(1) run5] hold(1) conf(1) by (auto simp: unfinished_def)
qed

section \<open>Concrete runs\<close>

text \<open>A hold of the legs that \<open>h\<close> holds, against a confirmation of \<open>h\<close>; and two holds.\<close>

lemma next_hold_sel [simp]:
  "hr_ref next_hold = ''g''" "hr_trip next_hold = 1" "hr_seat next_hold = ''1A''" "hr_legs next_hold = [0, 1]"
  "hr_booking next_hold = None"
  by (simp_all add: next_hold_def new_hold_row_def)

definition rival_txs :: "nat \<Rightarrow> txn" where
  "rival_txs i = (if i = 0 then HoldTx next_hold else ConfirmTx ''h'' ''BK'' 100)"

theorem hold_confirm_deadlock_witness:
  "\<exists>S. live_run rival_txs 2 (initial held_db) S \<and> tables S = held_db \<and>
     (\<forall>i < 2. \<forall>S'. \<not> tx_step rival_txs i S S')"
proof -
  have seats: "seat_at held_db (1, ''1A'', 0) = Some (SHeld ''h'')" "seat_at held_db (1, ''1A'', 1) = Some (SHeld ''h'')"
    by code_simp+
  from hold_confirm_deadlock [of held_db rival_txs next_hold "''h''" "''BK''" 100 sample_hold "(1, ''1A'', 0)" "(1, ''1A'', 1)",
      OF _ _ _ _ _ _ _ _ _ seats]
  show ?thesis by (auto simp: rival_txs_def leg_keys_def leg_of_def)
qed

definition two_holds :: "nat \<Rightarrow> txn" where
  "two_holds i = HoldTx (if i = 0 then next_hold else sample_hold)"

theorem concurrent_holds_terminate_witness:
  "\<exists>S. live_run two_holds 2 (initial sample_db) S \<and> unfinished (txs S 0) \<and>
     (\<exists>S'. live_run two_holds 2 S S' \<and> (\<forall>i < 2. \<exists>r. txs S' i = Replied r))"
proof -
  let ?S = "goto 0 (Locking (lock_order next_hold sample_db) []) (initial sample_db)"
  have "tx_step two_holds 0 (initial sample_db) (goto 0 (Locking (lock_order next_hold (tables (initial sample_db))) []) (initial sample_db))"
    by (rule tx_step.hold_select) (simp_all add: two_holds_def initial_def)
  then have run: "live_run two_holds 2 (initial sample_db) ?S"
    using live_run_one [of 0 2 two_holds] by (simp add: initial_def)
  have "all_holds two_holds" by (simp add: all_holds_def two_holds_def)
  from concurrent_holds_terminate [OF _ this run] have "\<exists>S'. live_run two_holds 2 ?S S' \<and> (\<forall>i < 2. \<exists>r. txs S' i = Replied r)"
    by simp
  moreover have "unfinished (txs ?S 0)" by (simp add: goto_def unfinished_def)
  ultimately show ?thesis using run by blast
qed

end
